theory Spec2Isabelle
  imports Complex_Main "HOL-Library.Word"
begin

unbundle bit_operations_syntax

section \<open>Machine arithmetic\<close>

text \<open>
  C \<open>int\<close> values are modelled as mathematical integers: every quantity the block compressor
  computes is bounded by the size of the input window (at most 8 MiB + 64 KiB), far from the
  32-bit limits. The two \<open>unsigned int\<close> fields of a match record hold their unsigned value, and
  a store of an \<open>int\<close> into them is reduced modulo \<open>2 ^ 32\<close> (\<open>to_u32\<close>); reading such a field
  back into an \<open>int\<close> is \<open>to_s32\<close>. C division truncates towards zero (\<open>c_div\<close>).
\<close>

type_synonym byte = "8 word"

definition c_div :: "int \<Rightarrow> int \<Rightarrow> int" where
  "c_div a b = sgn a * sgn b * (\<bar>a\<bar> div \<bar>b\<bar>)"

definition c_mod :: "int \<Rightarrow> int \<Rightarrow> int" where
  "c_mod a b = a - b * c_div a b"

definition to_u32 :: "int \<Rightarrow> int" where
  "to_u32 x = x mod 4294967296"

definition to_s32 :: "int \<Rightarrow> int" where
  "to_s32 x = (if 2147483648 \<le> x mod 4294967296 then x mod 4294967296 - 4294967296
               else x mod 4294967296)"

section \<open>Format constants\<close>

text \<open>
  Modelled from the spec: the constants of \<open>format.h\<close>, which is included by every source file
  but is not among the sources. The specification gives \<open>MIN_MATCH = 4\<close>,
  \<open>LITERAL_RUN_LEN = 15\<close>, \<open>MATCH_RUN_LEN = 15\<close> and the offset range \<open>1 .. 65535\<close>.
\<close>

definition MIN_MATCH_SIZE :: int where "MIN_MATCH_SIZE = 4"
definition LITERALS_RUN_LEN :: int where "LITERALS_RUN_LEN = 15"
definition MATCH_RUN_LEN :: int where "MATCH_RUN_LEN = 15"
definition MIN_OFFSET :: int where "MIN_OFFSET = 1"
definition MAX_OFFSET :: int where "MAX_OFFSET = 65535"

text \<open>The constants of \<open>shrink_context.h\<close>.\<close>

definition LEAVE_ALONE_MATCH_SIZE :: int where "LEAVE_ALONE_MATCH_SIZE = 1000"
definition LAST_MATCH_OFFSET :: int where "LAST_MATCH_OFFSET = 12"
definition LAST_LITERALS :: int where "LAST_LITERALS = 5"
definition MODESWITCH_PENALTY :: int where "MODESWITCH_PENALTY = 1"

section \<open>Variable-length run encodings (shrink\_block.c)\<close>

text \<open>
  \<open>lz4ultra_get_literals_varlen_size\<close>: the number of extra bits for a literals length. The C
  expression \<open>nLength - LITERALS_RUN_LEN + 255\<close> is an \<open>int\<close> as long as \<open>nLength \<le> 2147483407\<close>; the
  definition is the function on that range (a run of a block is at most the window, 8 MiB + 64 KiB).
  The same holds for \<open>lz4ultra_get_match_varlen_size\<close>.
\<close>

definition lz4ultra_get_literals_varlen_size :: "int \<Rightarrow> int" where
  "lz4ultra_get_literals_varlen_size nLength =
     push_bit 3 (c_div (nLength - LITERALS_RUN_LEN + 255) 255)"

text \<open>\<open>lz4ultra_get_match_varlen_size\<close>: the number of extra bits for an encoded match length.\<close>

definition lz4ultra_get_match_varlen_size :: "int \<Rightarrow> int" where
  "lz4ultra_get_match_varlen_size nLength =
     push_bit 3 (c_div (nLength - MATCH_RUN_LEN + 255) 255)"

text \<open>
  The inner loop of \<open>lz4ultra_write_literals_varlen\<close> and \<open>lz4ultra_write_match_varlen\<close>:
  a byte 255 while the remaining length is at least 255, then the remainder. The result is the
  list of bytes stored at \<open>pOutData[nOutOffset++]\<close>, in order.
\<close>

function varlen_bytes :: "int \<Rightarrow> byte list" where
  "varlen_bytes nLength =
     (if nLength \<ge> 255 then 255 # varlen_bytes (nLength - 255) else [word_of_int nLength])"
  by pat_completeness auto
termination
  by (relation "measure nat") auto

declare varlen_bytes.simps [simp del]

text \<open>
  The output buffer is modelled by the bytes written so far: every store of the emitter is
  \<open>pOutData[nOutOffset++] = v\<close> starting from offset 0, so \<open>nOutOffset\<close> is the length of that list.
\<close>

definition lz4ultra_write_literals_varlen :: "byte list \<Rightarrow> int \<Rightarrow> byte list" where
  "lz4ultra_write_literals_varlen pOutData nLength =
     (if nLength \<ge> LITERALS_RUN_LEN then pOutData @ varlen_bytes (nLength - LITERALS_RUN_LEN)
      else pOutData)"

definition lz4ultra_write_match_varlen :: "byte list \<Rightarrow> int \<Rightarrow> byte list" where
  "lz4ultra_write_match_varlen pOutData nLength =
     (if nLength \<ge> MATCH_RUN_LEN then pOutData @ varlen_bytes (nLength - MATCH_RUN_LEN)
      else pOutData)"

section \<open>Compression context (shrink\_context.h, lib.h)\<close>

text \<open>One match: \<open>unsigned int length\<close> and \<open>unsigned int offset\<close>, held as their unsigned values.\<close>

record lz4ultra_match =
  length_m :: int
  offset_m :: int

text \<open>
  The arrays of the compression context are indexed by window position; they are modelled as
  maps from the index to the stored value.
\<close>

type_synonym match_array = "int \<Rightarrow> lz4ultra_match"

definition LZ4ULTRA_FLAG_FAVOR_RATIO :: int where "LZ4ULTRA_FLAG_FAVOR_RATIO = push_bit 0 1"
definition LZ4ULTRA_FLAG_RAW_BLOCK :: int where "LZ4ULTRA_FLAG_RAW_BLOCK = push_bit 1 1"
definition LZ4ULTRA_FLAG_INDEP_BLOCKS :: int where "LZ4ULTRA_FLAG_INDEP_BLOCKS = push_bit 2 1"
definition LZ4ULTRA_FLAG_LEGACY_FRAMES :: int where "LZ4ULTRA_FLAG_LEGACY_FRAMES = push_bit 3 1"

section \<open>Optimal parser (shrink\_block.c, lz4ultra\_optimize\_matches\_lz4)\<close>

text \<open>
  The parser's working state: the match array it rewrites, the \<open>cost\<close> and \<open>score\<close> arrays (the
  source reuses the memory of \<open>pos_data\<close> and \<open>intervals\<close> for them, whose previous contents are
  dead at this point) and \<open>nLastLiteralsOffset\<close>.
\<close>

record parse_state =
  ps_match :: match_array
  ps_cost :: "int \<Rightarrow> int"
  ps_score :: "int \<Rightarrow> int"
  nLastLiteralsOffset :: int

text \<open>The running best choice at one position.\<close>

record best_choice =
  nBestCost :: int
  nBestScore :: int
  nBestMatchLen :: int
  nBestMatchOffset :: int

text \<open>
  \<open>if (nBestCost > nCurCost || (nBestCost == nCurCost && nBestScore > nCurScore)) { ... }\<close>
\<close>

definition take_if_better :: "int \<Rightarrow> int \<Rightarrow> int \<Rightarrow> int \<Rightarrow> best_choice \<Rightarrow> best_choice" where
  "take_if_better nCurCost nCurScore nLen nOffset b =
     (if nBestCost b > nCurCost \<or> (nBestCost b = nCurCost \<and> nBestScore b > nCurScore)
      then \<lparr>nBestCost = nCurCost, nBestScore = nCurScore, nBestMatchLen = nLen,
            nBestMatchOffset = nOffset\<rparr>
      else b)"

text \<open>
  The cost of a match of length \<open>k\<close> at \<open>i\<close> whose length field costs \<open>nVarlen\<close> extra bits:
  token, offset, extra bits, the cost after the match and the mode-switch penalty when another
  match follows.
\<close>

definition match_cur_cost :: "parse_state \<Rightarrow> int \<Rightarrow> int \<Rightarrow> int \<Rightarrow> int" where
  "match_cur_cost st i k nVarlen =
     8 + 16 + nVarlen + ps_cost st (i + k) +
     (if length_m (ps_match st (i + k)) \<ge> MIN_MATCH_SIZE then MODESWITCH_PENALTY else 0)"

text \<open>\<open>for (k = nMatchLen; k >= (MATCH_RUN_LEN + MIN_MATCH_SIZE); k--)\<close>; returns the final \<open>k\<close> too.\<close>

function trim_loop_varlen ::
  "parse_state \<Rightarrow> int \<Rightarrow> int \<Rightarrow> int \<Rightarrow> int \<Rightarrow> best_choice \<Rightarrow> int \<times> best_choice" where
  "trim_loop_varlen st nExtraMatchScore i nOffset k b =
     (if k \<ge> MATCH_RUN_LEN + MIN_MATCH_SIZE
      then trim_loop_varlen st nExtraMatchScore i nOffset (k - 1)
             (take_if_better
                (match_cur_cost st i k (lz4ultra_get_match_varlen_size (k - MIN_MATCH_SIZE)))
                (nExtraMatchScore + ps_score st (i + k)) k nOffset b)
      else (k, b))"
  by pat_completeness auto
termination
  by (relation "measure (\<lambda>(st, e, i, off, k, b). nat k)")
     (auto simp: MATCH_RUN_LEN_def MIN_MATCH_SIZE_def)

text \<open>\<open>for (; k >= MIN_MATCH_SIZE; k--)\<close>: no extra match length bytes.\<close>

function trim_loop_short ::
  "parse_state \<Rightarrow> int \<Rightarrow> int \<Rightarrow> int \<Rightarrow> int \<Rightarrow> best_choice \<Rightarrow> best_choice" where
  "trim_loop_short st nExtraMatchScore i nOffset k b =
     (if k \<ge> MIN_MATCH_SIZE
      then trim_loop_short st nExtraMatchScore i nOffset (k - 1)
             (take_if_better (match_cur_cost st i k 0)
                (nExtraMatchScore + ps_score st (i + k)) k nOffset b)
      else b)"
  by pat_completeness auto
termination
  by (relation "measure (\<lambda>(st, e, i, off, k, b). nat k)")
     (auto simp: MIN_MATCH_SIZE_def)

declare trim_loop_varlen.simps [simp del] trim_loop_short.simps [simp del]

text \<open>Both loops together, from \<open>n\<close> down to 4.\<close>

definition trim_loops :: "parse_state \<Rightarrow> int \<Rightarrow> int \<Rightarrow> int \<Rightarrow> int \<Rightarrow> best_choice \<Rightarrow> best_choice" where
  "trim_loops st e i off n b =
     (case trim_loop_varlen st e i off n b of (k, b1) \<Rightarrow> trim_loop_short st e i off k b1)"

text \<open>Choices are compared by cost first and by score second.\<close>

definition lex_le :: "int \<times> int \<Rightarrow> int \<times> int \<Rightarrow> bool" where
  "lex_le a b = (fst a < fst b \<or> (fst a = fst b \<and> snd a \<le> snd b))"

definition choice_key :: "best_choice \<Rightarrow> int \<times> int" where
  "choice_key b = (nBestCost b, nBestScore b)"

text \<open>The choice "a match of length \<open>k\<close> at \<open>i\<close>", as the loops cost it.\<close>

definition match_choice :: "parse_state \<Rightarrow> int \<Rightarrow> int \<Rightarrow> int \<Rightarrow> int \<Rightarrow> best_choice" where
  "match_choice st nExtraMatchScore i nOffset k =
     \<lparr>nBestCost = match_cur_cost st i k (lz4ultra_get_match_varlen_size (k - MIN_MATCH_SIZE)),
      nBestScore = nExtraMatchScore + ps_score st (i + k),
      nBestMatchLen = k, nBestMatchOffset = nOffset\<rparr>"

text \<open>\<open>if ((i + nMatchLen) > (nEndOffset - LAST_LITERALS)) nMatchLen = nEndOffset - LAST_LITERALS - i;\<close>\<close>

definition clamp_to_last_literals :: "int \<Rightarrow> int \<Rightarrow> int \<Rightarrow> int" where
  "clamp_to_last_literals nEndOffset i nMatchLen =
     (if i + nMatchLen > nEndOffset - LAST_LITERALS then nEndOffset - LAST_LITERALS - i
      else nMatchLen)"

text \<open>
  The favor-speed shortening: a match just above the size that uses the decompressor's fast path
  is shortened so that it does use it.
\<close>

definition shorten_for_speed :: "int \<Rightarrow> int \<Rightarrow> int" where
  "shorten_for_speed flags nMatchLen =
     (if flags AND LZ4ULTRA_FLAG_FAVOR_RATIO = 0
      then (if nMatchLen > MATCH_RUN_LEN + MIN_MATCH_SIZE - 1 \<and>
               nMatchLen \<le> 2 * (MATCH_RUN_LEN + MIN_MATCH_SIZE - 1)
            then MATCH_RUN_LEN + MIN_MATCH_SIZE - 1 else nMatchLen)
      else nMatchLen)"

text \<open>The choice made at position \<open>i\<close>: the body of the parser's loop up to the stores.\<close>

definition literal_choice :: "parse_state \<Rightarrow> int \<Rightarrow> best_choice" where
  "literal_choice st i =
     (let nLiteralsLen = nLastLiteralsOffset st - i
      in \<lparr>nBestCost = 8 + ps_cost st (i + 1) +
              (if nLiteralsLen \<ge> LITERALS_RUN_LEN \<and>
                  c_mod (nLiteralsLen - LITERALS_RUN_LEN) 255 = 0 then 8 else 0) +
              (if length_m (ps_match st (i + 1)) \<ge> MIN_MATCH_SIZE then MODESWITCH_PENALTY else 0),
           nBestScore = 1 + ps_score st (i + 1),
           nBestMatchLen = 0,
           nBestMatchOffset = 0\<rparr>)"

definition best_at :: "int \<Rightarrow> int \<Rightarrow> int \<Rightarrow> parse_state \<Rightarrow> best_choice" where
  "best_at flags nEndOffset i st =
     (let nExtraMatchScore = (if flags AND LZ4ULTRA_FLAG_FAVOR_RATIO \<noteq> 0 then 1 else 5);
          b0 = literal_choice st i;
          pMatch = ps_match st i
      in if length_m pMatch \<ge> MIN_MATCH_SIZE then
           (if length_m pMatch \<ge> LEAVE_ALONE_MATCH_SIZE then
              (let nMatchLen = clamp_to_last_literals nEndOffset i (to_s32 (length_m pMatch))
               in take_if_better
                    (match_cur_cost st i nMatchLen
                       (lz4ultra_get_match_varlen_size (nMatchLen - MIN_MATCH_SIZE)))
                    (nExtraMatchScore + ps_score st (i + nMatchLen))
                    nMatchLen (to_s32 (offset_m pMatch)) b0)
            else
              (let nMatchLen = shorten_for_speed flags
                     (clamp_to_last_literals nEndOffset i (to_s32 (length_m pMatch)))
               in trim_loops st nExtraMatchScore i (to_s32 (offset_m pMatch)) nMatchLen b0))
         else b0)"

text \<open>One iteration of the parser's loop: choose, then store.\<close>

definition parse_step :: "int \<Rightarrow> int \<Rightarrow> int \<Rightarrow> parse_state \<Rightarrow> parse_state" where
  "parse_step flags nEndOffset i st =
     (let b = best_at flags nEndOffset i st
      in \<lparr>ps_match = (ps_match st)(i := \<lparr>length_m = to_u32 (nBestMatchLen b),
                                          offset_m = to_u32 (nBestMatchOffset b)\<rparr>),
          ps_cost = (ps_cost st)(i := nBestCost b),
          ps_score = (ps_score st)(i := nBestScore b),
          nLastLiteralsOffset =
            (if nBestMatchLen b \<ge> MIN_MATCH_SIZE then i else nLastLiteralsOffset st)\<rparr>)"

text \<open>
  \<open>for (i = nEndOffset - 2; i != (nStartOffset - 1); i--)\<close>. The callers compress non-empty
  blocks only (\<open>nStartOffset < nEndOffset\<close>), so that \<open>i\<close> starts at or above \<open>nStartOffset - 1\<close>
  and the exit test is met; the model also stops below it.
\<close>

function parse_loop :: "int \<Rightarrow> int \<Rightarrow> int \<Rightarrow> int \<Rightarrow> parse_state \<Rightarrow> parse_state" where
  "parse_loop flags nStartOffset nEndOffset i st =
     (if i \<le> nStartOffset - 1 then st
      else parse_loop flags nStartOffset nEndOffset (i - 1) (parse_step flags nEndOffset i st))"
  by pat_completeness auto
termination
  by (relation "measure (\<lambda>(f, s, e, i, st). nat (i - (s - 1)))") auto

declare parse_loop.simps [simp del]

definition lz4ultra_optimize_matches_lz4 ::
  "int \<Rightarrow> match_array \<Rightarrow> (int \<Rightarrow> int) \<Rightarrow> (int \<Rightarrow> int) \<Rightarrow> int \<Rightarrow> int \<Rightarrow> parse_state" where
  "lz4ultra_optimize_matches_lz4 flags match_arr cost score nStartOffset nEndOffset =
     parse_loop flags nStartOffset nEndOffset (nEndOffset - 2)
       \<lparr>ps_match = match_arr,
        ps_cost = cost(nEndOffset - 1 := 8),
        ps_score = score(nEndOffset - 1 := 0),
        nLastLiteralsOffset = nEndOffset\<rparr>"

section \<open>Examined trims and example inputs of the parser\<close>

text \<open>The match lengths that the parser costs at position \<open>i\<close> for the candidate \<open>m\<close>.\<close>

definition examined_trims :: "int \<Rightarrow> int \<Rightarrow> int \<Rightarrow> lz4ultra_match \<Rightarrow> int set" where
  "examined_trims flags nEndOffset i m =
     (if length_m m < MIN_MATCH_SIZE then {}
      else if length_m m \<ge> LEAVE_ALONE_MATCH_SIZE
           then {clamp_to_last_literals nEndOffset i (to_s32 (length_m m))}
      else {MIN_MATCH_SIZE ..
            shorten_for_speed flags (clamp_to_last_literals nEndOffset i (to_s32 (length_m m)))})"

definition extra_match_score :: "int \<Rightarrow> int" where
  "extra_match_score flags = (if flags AND LZ4ULTRA_FLAG_FAVOR_RATIO \<noteq> 0 then 1 else 5)"

definition zero_array :: "int \<Rightarrow> int" where
  "zero_array = (\<lambda>i. 0)"

definition no_matches :: match_array where
  "no_matches = (\<lambda>i. \<lparr>length_m = 0, offset_m = 0\<rparr>)"

definition c5_match :: match_array where
  "c5_match = no_matches
     (10 := \<lparr>length_m = 20, offset_m = 5\<rparr>,
      40 := \<lparr>length_m = 16, offset_m = 5\<rparr>,
      70 := \<lparr>length_m = 30, offset_m = 5\<rparr>)"

definition c5_state :: parse_state where
  "c5_state = lz4ultra_optimize_matches_lz4 0 c5_match zero_array zero_array 0 120"

definition c5_witness_state :: parse_state where
  "c5_witness_state =
     \<lparr>ps_match = c5_match, ps_cost = zero_array, ps_score = zero_array, nLastLiteralsOffset = 120\<rparr>"

section \<open>Frame header (frame.c)\<close>

text \<open>
  Modelled from the spec: \<open>XXH32\<close> of the xxhash library (\<open>xxhash.h\<close> is included by frame.c, the
  library is not among the sources). The specification names it as \<open>xxhash32\<close>; the definition
  follows the published XXH32 algorithm on a byte list.
\<close>

definition PRIME32_1 :: "32 word" where "PRIME32_1 = 2654435761"
definition PRIME32_2 :: "32 word" where "PRIME32_2 = 2246822519"
definition PRIME32_3 :: "32 word" where "PRIME32_3 = 3266489917"
definition PRIME32_4 :: "32 word" where "PRIME32_4 = 668265263"
definition PRIME32_5 :: "32 word" where "PRIME32_5 = 374761393"

definition XXH_rotl32 :: "32 word \<Rightarrow> nat \<Rightarrow> 32 word" where
  "XXH_rotl32 x r = push_bit r x OR drop_bit (32 - r) x"

definition XXH_readLE32 :: "byte list \<Rightarrow> 32 word" where
  "XXH_readLE32 p = ucast (p ! 0) OR push_bit 8 (ucast (p ! 1)) OR
                    push_bit 16 (ucast (p ! 2)) OR push_bit 24 (ucast (p ! 3))"

definition XXH32_round :: "32 word \<Rightarrow> 32 word \<Rightarrow> 32 word" where
  "XXH32_round acc inp = XXH_rotl32 (acc + inp * PRIME32_2) 13 * PRIME32_1"

fun XXH32_stripes :: "nat \<Rightarrow> byte list \<Rightarrow> 32 word \<times> 32 word \<times> 32 word \<times> 32 word \<Rightarrow>
    byte list \<times> (32 word \<times> 32 word \<times> 32 word \<times> 32 word)" where
  "XXH32_stripes 0 p v = (p, v)"
| "XXH32_stripes (Suc n) p (v1, v2, v3, v4) =
     XXH32_stripes n (drop 16 p)
       (XXH32_round v1 (XXH_readLE32 p), XXH32_round v2 (XXH_readLE32 (drop 4 p)),
        XXH32_round v3 (XXH_readLE32 (drop 8 p)), XXH32_round v4 (XXH_readLE32 (drop 12 p)))"

fun XXH32_words :: "nat \<Rightarrow> byte list \<Rightarrow> 32 word \<Rightarrow> byte list \<times> 32 word" where
  "XXH32_words 0 p h = (p, h)"
| "XXH32_words (Suc n) p h =
     XXH32_words n (drop 4 p) (XXH_rotl32 (h + XXH_readLE32 p * PRIME32_3) 17 * PRIME32_4)"

fun XXH32_bytes :: "byte list \<Rightarrow> 32 word \<Rightarrow> 32 word" where
  "XXH32_bytes [] h = h"
| "XXH32_bytes (c # p) h = XXH32_bytes p (XXH_rotl32 (h + ucast c * PRIME32_5) 11 * PRIME32_1)"

definition XXH32_avalanche :: "32 word \<Rightarrow> 32 word" where
  "XXH32_avalanche h0 =
     (let h1 = (h0 XOR drop_bit 15 h0) * PRIME32_2;
          h2 = (h1 XOR drop_bit 13 h1) * PRIME32_3
      in h2 XOR drop_bit 16 h2)"

definition XXH32 :: "byte list \<Rightarrow> 32 word \<Rightarrow> 32 word" where
  "XXH32 input seed =
     (let len = length input;
          (p, h) = (if len \<ge> 16
                    then (case XXH32_stripes (len div 16) input
                                 (seed + PRIME32_1 + PRIME32_2, seed + PRIME32_2, seed, seed - PRIME32_1)
                          of (p, (v1, v2, v3, v4)) \<Rightarrow>
                            (p, XXH_rotl32 v1 1 + XXH_rotl32 v2 7 + XXH_rotl32 v3 12 + XXH_rotl32 v4 18))
                    else (input, seed + PRIME32_5));
          (p', h') = XXH32_words (length p div 4) p (h + of_nat len)
      in XXH32_avalanche (XXH32_bytes p' h'))"

text \<open>The status codes of frame.h.\<close>

definition LZ4ULTRA_ENCODE_ERR :: int where "LZ4ULTRA_ENCODE_ERR = -1"
definition LZ4ULTRA_DECODE_OK :: int where "LZ4ULTRA_DECODE_OK = 0"
definition LZ4ULTRA_DECODE_ERR_FORMAT :: int where "LZ4ULTRA_DECODE_ERR_FORMAT = -1"
definition LZ4ULTRA_DECODE_ERR_SUM :: int where "LZ4ULTRA_DECODE_ERR_SUM = -2"

text \<open>
  \<open>lz4ultra_encode_header\<close>: the return value and the bytes stored in \<open>pFrameData[0..6]\<close>
  (nothing is stored on failure).
\<close>

definition lz4ultra_encode_header :: "int \<Rightarrow> int \<Rightarrow> int \<Rightarrow> int \<times> byte list" where
  "lz4ultra_encode_header nMaxFrameDataSize nBlockMaxCode nIsIndependentBlocks =
     (if nMaxFrameDataSize \<ge> 7 then
        (let b4 = (if nIsIndependentBlocks \<noteq> 0 then (0x40 :: byte) OR 0x20 else 0x40);
             b5 = (word_of_int (push_bit 4 nBlockMaxCode) :: byte);
             headerSum = XXH32 [b4, b5] 0
         in (7, [0x04, 0x22, 0x4D, 0x18, b4, b5, ucast (drop_bit 8 headerSum AND 0xff)]))
      else (LZ4ULTRA_ENCODE_ERR, []))"

text \<open>
  \<open>lz4ultra_decode_header\<close>: \<open>pFrameData\<close> holds \<open>nFrameDataSize\<close> bytes. The result is the status
  and, on success, the values stored through \<open>nBlockMaxCode\<close> and \<open>nIsIndependentBlocks\<close>.
\<close>

definition lz4ultra_decode_header :: "byte list \<Rightarrow> int \<times> (int \<times> int) option" where
  "lz4ultra_decode_header pFrameData =
     (if length pFrameData = 7 then
        (if pFrameData ! 0 \<noteq> 0x04 \<or> pFrameData ! 1 \<noteq> 0x22 \<or> pFrameData ! 2 \<noteq> 0x4D \<or>
            pFrameData ! 3 \<noteq> 0x18 \<or> (pFrameData ! 4) AND 0xc0 \<noteq> 0x40 \<or>
            (pFrameData ! 5) AND 0x0f \<noteq> 0
         then (LZ4ULTRA_DECODE_ERR_FORMAT, None)
         else (let headerSum = XXH32 [pFrameData ! 4, pFrameData ! 5] 0
               in if drop_bit 8 headerSum AND 0xff \<noteq> ucast (pFrameData ! 6)
                  then (LZ4ULTRA_DECODE_ERR_SUM, None)
                  else (LZ4ULTRA_DECODE_OK,
                        Some (uint (drop_bit 4 (pFrameData ! 5)),
                              if (pFrameData ! 4) AND 0x20 \<noteq> 0 then 1 else 0))))
      else (LZ4ULTRA_DECODE_ERR_FORMAT, None))"

definition c8_header :: "byte list" where
  "c8_header = [0x04, 0x22, 0x4D, 0x18, 0x40, 0x40, 0xC0]"

definition c8_bit_flipped :: "byte list" where
  "c8_bit_flipped = [0x04, 0x22, 0x4D, 0x18, 0x50, 0x40, 0xC0]"

definition c8_other_header :: "byte list" where
  "c8_other_header = [0x04, 0x22, 0x4D, 0x18, 0x40, 0x50, 0x77]"

section \<open>Streaming driver: block size selection (shrink\_streaming.c)\<close>

text \<open>
  The \<open>do { ... } while (1)\<close> loop of \<open>lz4ultra_compress_stream\<close> that reduces the block size code;
  the result is the final \<open>nBlockMaxCode\<close>, \<open>nBlockMaxBits\<close> and \<open>nBlockMaxSize\<close>.
\<close>

function reduce_block_code :: "int \<Rightarrow> int \<Rightarrow> int \<times> int \<times> int" where
  "reduce_block_code nBlockMaxCode nPreloadedInDataSize =
     (let nBlockMaxBits = 8 + push_bit 1 nBlockMaxCode;
          nBlockMaxSize = push_bit (nat nBlockMaxBits) (1::int);
          nPrevBlockMaxBits = 8 + push_bit 1 (nBlockMaxCode - 1);
          nPrevBlockMaxSize = push_bit (nat nPrevBlockMaxBits) (1::int)
      in if nBlockMaxCode > 4 \<and> nPrevBlockMaxSize > nPreloadedInDataSize
         then reduce_block_code (nBlockMaxCode - 1) nPreloadedInDataSize
         else (nBlockMaxCode, nBlockMaxBits, nBlockMaxSize))"
  by pat_completeness auto
termination
  by (relation "measure (\<lambda>(c, n). nat (c - 4))") auto

declare reduce_block_code.simps [simp del]

text \<open>
  The start of \<open>lz4ultra_compress_stream\<close>, up to the stream header. The input stream holds
  \<open>nInputSize\<close> bytes in all, so that the first \<open>read\<close> of at most \<open>nBlockMaxSize\<close> bytes returns
  the smaller of the two. The result is the block code, bits and size in force for the blocks.
\<close>

definition compress_stream_block_size :: "int \<Rightarrow> int \<Rightarrow> int \<Rightarrow> int \<times> int \<times> int" where
  "compress_stream_block_size nFlags nBlockMaxCode nInputSize =
     (let nBlockMaxBits = (if nFlags AND LZ4ULTRA_FLAG_LEGACY_FRAMES \<noteq> 0 then 23
                           else 8 + push_bit 1 nBlockMaxCode);
          nBlockMaxSize = push_bit (nat nBlockMaxBits) (1::int);
          nPreloadedInDataSize = min nInputSize nBlockMaxSize
      in if nPreloadedInDataSize < nBlockMaxSize \<and> nFlags AND LZ4ULTRA_FLAG_LEGACY_FRAMES = 0
         then reduce_block_code nBlockMaxCode nPreloadedInDataSize
         else (nBlockMaxCode, nBlockMaxBits, nBlockMaxSize))"

text \<open>
  Modelled from the spec: the stream header encoder that the driver calls,
  \<open>lz4ultra_encode_header(pFrameData, nMaxFrameDataSize, nFlags, nBlockMaxCode)\<close> as frame.h
  declares it. Its body is not among the sources: frame.c there has the body of the earlier
  signature, which takes the block code and the independence of the blocks in place of the flags.
  For modern frames the specification (6.1) describes the header that this body writes, with the
  independent-blocks bit \<open>0x20\<close> of the flags byte, here set from \<open>LZ4ULTRA_FLAG_INDEP_BLOCKS\<close>; for
  legacy frames it gives the magic number \<open>02 21 4C 18\<close> and no flags.
\<close>

definition lz4ultra_encode_header_flags :: "int \<Rightarrow> int \<Rightarrow> int \<Rightarrow> int \<times> byte list" where
  "lz4ultra_encode_header_flags nMaxFrameDataSize nFlags nBlockMaxCode =
     (if nFlags AND LZ4ULTRA_FLAG_LEGACY_FRAMES \<noteq> 0 then
        (if nMaxFrameDataSize \<ge> 4 then (4, [0x02, 0x21, 0x4C, 0x18]) else (LZ4ULTRA_ENCODE_ERR, []))
      else lz4ultra_encode_header nMaxFrameDataSize nBlockMaxCode
             (if nFlags AND LZ4ULTRA_FLAG_INDEP_BLOCKS \<noteq> 0 then 1 else 0))"

text \<open>
  The stream header of \<open>lz4ultra_compress_stream\<close>: legacy frames force independent blocks, and the
  header encoder is called with the flags and the selected block code only when
  \<open>LZ4ULTRA_FLAG_RAW_BLOCK\<close> is clear. The result is the value the encoder returns with the bytes of
  \<open>cFrameData\<close>, or \<open>None\<close> when no header is encoded.
\<close>

definition compress_stream_header :: "int \<Rightarrow> int \<Rightarrow> int \<Rightarrow> (int \<times> byte list) option" where
  "compress_stream_header nFlags nBlockMaxCode nInputSize =
     (let nFlags' = (if nFlags AND LZ4ULTRA_FLAG_LEGACY_FRAMES \<noteq> 0
                     then nFlags OR LZ4ULTRA_FLAG_INDEP_BLOCKS else nFlags);
          nBlockMaxCode' = fst (compress_stream_block_size nFlags nBlockMaxCode nInputSize)
      in if nFlags' AND LZ4ULTRA_FLAG_RAW_BLOCK = 0
         then Some (lz4ultra_encode_header_flags 16 nFlags' nBlockMaxCode')
         else None)"

text \<open>The block size of a code: 64 KiB, 256 KiB, 1 MiB, 4 MiB for the codes 4 to 7.\<close>

definition block_size_of_code :: "int \<Rightarrow> int" where
  "block_size_of_code c = push_bit (nat (8 + push_bit 1 c)) (1::int)"

section \<open>Command sequences and their cost\<close>

text \<open>
  The commands implied by a parse array, read the way the emitter walks it: a match start
  (\<open>length >= MIN_MATCH_SIZE\<close>) is a match command and skips its length, any other position is
  one literal. The walk takes at most one step per position of the block.
\<close>

datatype command = Literal | Match int

fun implied_commands :: "nat \<Rightarrow> match_array \<Rightarrow> int \<Rightarrow> int \<Rightarrow> command list" where
  "implied_commands 0 ms i nEndOffset = []"
| "implied_commands (Suc n) ms i nEndOffset =
     (if i \<ge> nEndOffset then []
      else if length_m (ms i) \<ge> MIN_MATCH_SIZE
           then Match (to_s32 (length_m (ms i))) #
                implied_commands n ms (i + to_s32 (length_m (ms i))) nEndOffset
      else Literal # implied_commands n ms (i + 1) nEndOffset)"

definition parse_commands :: "match_array \<Rightarrow> int \<Rightarrow> int \<Rightarrow> command list" where
  "parse_commands ms nStartOffset nEndOffset =
     implied_commands (nat (nEndOffset - nStartOffset)) ms nStartOffset nEndOffset"

text \<open>
  The total encoded cost of a command sequence in bits, in the words of the specification: a
  token of 8 bits per command (the last command carries the final literals), 16 bits of offset per
  match, 8 bits per literal, the extra length bytes of literal runs and of matches, and
  \<open>MODESWITCH_PENALTY\<close> for every match that follows another command. \<open>run\<close> is the number of
  literals pending for the next command.
\<close>

fun sequence_cost :: "bool \<Rightarrow> int \<Rightarrow> command list \<Rightarrow> int" where
  "sequence_cost first run [] = 8 + lz4ultra_get_literals_varlen_size run + 8 * run"
| "sequence_cost first run (Literal # cs) = sequence_cost False (run + 1) cs"
| "sequence_cost first run (Match k # cs) =
     8 + lz4ultra_get_literals_varlen_size run + 8 * run + 16 +
     lz4ultra_get_match_varlen_size (k - MIN_MATCH_SIZE) +
     (if first then 0 else MODESWITCH_PENALTY) + sequence_cost False 0 cs"

text \<open>
  A command sequence for the positions \<open>i .. nEndOffset - 1\<close> obtainable from the candidates: each
  match keeps the candidate of its position at a length \<open>k\<close> in \<open>[MIN_MATCH_SIZE, l]\<close>.
\<close>

fun obtainable :: "match_array \<Rightarrow> int \<Rightarrow> int \<Rightarrow> command list \<Rightarrow> bool" where
  "obtainable cand i nEndOffset [] = (i = nEndOffset)"
| "obtainable cand i nEndOffset (Literal # cs) =
     (i < nEndOffset \<and> obtainable cand (i + 1) nEndOffset cs)"
| "obtainable cand i nEndOffset (Match k # cs) =
     (MIN_MATCH_SIZE \<le> k \<and> k \<le> length_m (cand i) \<and> obtainable cand (i + k) nEndOffset cs)"

text \<open>
  An example: the window 9 1 0 1 1 1 1 1 0 1 1 1 1 0 0 0 0 1 1 1 (20 bytes, one block). The
  longest matches are (4, 1) at position 4, (6, 6) at 7 and (5, 6) at 8; positions after
  20 - 12 carry no match.
\<close>

definition c2_match :: match_array where
  "c2_match = no_matches
     (4 := \<lparr>length_m = 4, offset_m = 1\<rparr>,
      7 := \<lparr>length_m = 6, offset_m = 6\<rparr>,
      8 := \<lparr>length_m = 5, offset_m = 6\<rparr>)"

definition c2_state :: parse_state where
  "c2_state = lz4ultra_optimize_matches_lz4 LZ4ULTRA_FLAG_FAVOR_RATIO c2_match zero_array zero_array 0 20"

definition c2_alternative :: "command list" where
  "c2_alternative = replicate 7 Literal @ [Match 6] @ replicate 7 Literal"

text \<open>The first match start at or after \<open>j\<close>, or \<open>nEndOffset\<close>.\<close>

function next_match :: "match_array \<Rightarrow> int \<Rightarrow> int \<Rightarrow> int" where
  "next_match ms j nEndOffset =
     (if j \<ge> nEndOffset then nEndOffset
      else if length_m (ms j) \<ge> MIN_MATCH_SIZE then j
      else next_match ms (j + 1) nEndOffset)"
  by pat_completeness auto
termination
  by (relation "measure (\<lambda>(ms, j, e). nat (e - j))") auto

declare next_match.simps [simp del]

text \<open>
  The candidates as the match finder leaves them: a candidate of at least \<open>MIN_MATCH_SIZE\<close>
  ends at or before \<open>nEndOffset - LAST_LITERALS\<close>.
\<close>

definition clamped_candidates :: "match_array \<Rightarrow> int \<Rightarrow> int \<Rightarrow> bool" where
  "clamped_candidates cand nStartOffset nEndOffset =
     (\<forall>j \<in> {nStartOffset ..< nEndOffset}.
        length_m (cand j) \<ge> MIN_MATCH_SIZE \<longrightarrow>
          j + length_m (cand j) \<le> nEndOffset - LAST_LITERALS)"

text \<open>
  What the parser has recorded at position \<open>j\<close> of the final state \<open>F\<close>, for the candidates
  \<open>cand\<close>: the recorded cost and score are not above those of taking a literal nor of any examined
  length of the candidate, each continued by what is recorded for the later positions, and they
  are those of the recorded choice.
\<close>

definition recorded_choice_optimal :: "int \<Rightarrow> int \<Rightarrow> match_array \<Rightarrow> parse_state \<Rightarrow> int \<Rightarrow> bool" where
  "recorded_choice_optimal flags nEndOffset cand F j =
     (let key = (ps_cost F j, ps_score F j);
          lit = literal_choice (F\<lparr>nLastLiteralsOffset := next_match (ps_match F) (j + 1) nEndOffset\<rparr>) j;
          opt = match_choice F (extra_match_score flags) j (to_s32 (offset_m (cand j)));
          T = examined_trims flags nEndOffset j (cand j)
      in lex_le key (choice_key lit) \<and>
         (\<forall>k \<in> T. lex_le key (choice_key (opt k))) \<and>
         ((key = choice_key lit \<and> length_m (ps_match F j) = 0) \<or>
          (\<exists>k \<in> T. key = choice_key (opt k) \<and> length_m (ps_match F j) = k \<and>
                    offset_m (ps_match F j) = to_u32 (to_s32 (offset_m (cand j))))))"

section \<open>Peephole pass (shrink\_block.c, lz4ultra\_optimize\_command\_count\_lz4)\<close>

text \<open>
  The input window \<open>pInWindow\<close> is a list of bytes. \<open>!memcmp(pInWindow + a, pInWindow + b, n)\<close>
  compares two ranges of it; the source calls it with ranges inside the window only.
\<close>

definition window_eq :: "byte list \<Rightarrow> int \<Rightarrow> int \<Rightarrow> int \<Rightarrow> bool" where
  "window_eq pInWindow a b n =
     (take (nat n) (drop (nat a) pInWindow) = take (nat n) (drop (nat b) pInWindow))"

text \<open>
  \<open>do { nCurIndex++; nNextNumLiterals++; } while (nCurIndex < nEndOffset &&
  match[nCurIndex].length < MIN_MATCH_SIZE)\<close>; the result is \<open>nNextNumLiterals\<close>.
\<close>

function count_next_literals :: "match_array \<Rightarrow> int \<Rightarrow> int \<Rightarrow> int \<Rightarrow> int" where
  "count_next_literals ms nEndOffset nCurIndex nNextNumLiterals =
     (if nCurIndex + 1 < nEndOffset \<and> length_m (ms (nCurIndex + 1)) < MIN_MATCH_SIZE
      then count_next_literals ms nEndOffset (nCurIndex + 1) (nNextNumLiterals + 1)
      else nNextNumLiterals + 1)"
  by pat_completeness auto
termination
  by (relation "measure (\<lambda>(ms, e, c, n). nat (e - c))") auto

declare count_next_literals.simps [simp del]

text \<open>\<open>for (j = 0; j < nMatchLen; j++) match[i + j].length = 0;\<close>\<close>

definition clear_lengths :: "match_array \<Rightarrow> int \<Rightarrow> int \<Rightarrow> match_array" where
  "clear_lengths ms i nMatchLen =
     (\<lambda>x. if i \<le> x \<and> x < i + nMatchLen then (ms x)\<lparr>length_m := 0\<rparr> else ms x)"

record peephole_state =
  pp_match :: match_array
  pp_i :: int
  pp_nNumLiterals :: int

text \<open>The test that sets \<open>nReduce\<close> for the match of length \<open>nMatchLen\<close> at \<open>i\<close>.\<close>

definition reduce_test :: "match_array \<Rightarrow> int \<Rightarrow> int \<Rightarrow> int \<Rightarrow> int \<Rightarrow> bool" where
  "reduce_test ms nEndOffset i nNumLiterals nMatchLen =
     (if nMatchLen \<le> 19 \<and> i + nMatchLen < nEndOffset then
        (let nEncodedMatchLen = nMatchLen - MIN_MATCH_SIZE;
             nCommandSize = 8 + lz4ultra_get_literals_varlen_size nNumLiterals + 16 +
                            lz4ultra_get_match_varlen_size nEncodedMatchLen
         in if length_m (ms (i + nMatchLen)) \<ge> MIN_MATCH_SIZE then
              nCommandSize \<ge> push_bit 3 nMatchLen +
                              lz4ultra_get_literals_varlen_size (nNumLiterals + nMatchLen)
            else
              (let nNextNumLiterals = count_next_literals ms nEndOffset (i + nMatchLen) 0
               in nCommandSize \<ge> push_bit 3 nMatchLen +
                     lz4ultra_get_literals_varlen_size (nNumLiterals + nNextNumLiterals + nMatchLen) -
                     lz4ultra_get_literals_varlen_size nNextNumLiterals))
      else False)"

text \<open>The test for joining the match at \<open>i\<close> with the match that follows it.\<close>

definition join_test :: "byte list \<Rightarrow> match_array \<Rightarrow> int \<Rightarrow> int \<Rightarrow> int \<Rightarrow> bool" where
  "join_test pInWindow ms nEndOffset i nMatchLen =
     (let pMatch = ms i; pNext = ms (i + nMatchLen)
      in i + nMatchLen < nEndOffset \<and> offset_m pMatch > 0 \<and> nMatchLen \<ge> 2 \<and>
         offset_m pNext > 0 \<and>
         length_m pNext \<ge> 2 \<and>
         to_u32 (nMatchLen + length_m pNext) \<ge> LEAVE_ALONE_MATCH_SIZE \<and>
         to_u32 (nMatchLen + length_m pNext) \<le> 65535 \<and>
         i + nMatchLen \<ge> to_s32 (offset_m pMatch) \<and>
         i + nMatchLen \<ge> to_s32 (offset_m pNext) \<and>
         i + nMatchLen + to_s32 (length_m pNext) \<le> nEndOffset \<and>
         window_eq pInWindow (i + nMatchLen - offset_m pMatch) (i + nMatchLen - offset_m pNext)
           (length_m pNext))"

text \<open>One iteration of the loop \<open>for (i = nStartOffset; i < nEndOffset; )\<close>.\<close>

definition peephole_step :: "byte list \<Rightarrow> int \<Rightarrow> peephole_state \<Rightarrow> peephole_state" where
  "peephole_step pInWindow nEndOffset st =
     (let i = pp_i st; ms = pp_match st; nNumLiterals = pp_nNumLiterals st; pMatch = ms i
      in if length_m pMatch \<ge> MIN_MATCH_SIZE then
           (let nMatchLen = to_s32 (length_m pMatch)
            in if reduce_test ms nEndOffset i nNumLiterals nMatchLen then
                 \<lparr>pp_match = clear_lengths ms i nMatchLen, pp_i = i + nMatchLen,
                  pp_nNumLiterals = nNumLiterals + nMatchLen\<rparr>
               else if join_test pInWindow ms nEndOffset i nMatchLen then
                 \<lparr>pp_match = ms
                    (i := pMatch\<lparr>length_m := to_u32 (length_m pMatch + length_m (ms (i + nMatchLen)))\<rparr>,
                     i + nMatchLen := \<lparr>length_m = to_u32 (- 1), offset_m = 0\<rparr>),
                  pp_i = i, pp_nNumLiterals = nNumLiterals\<rparr>
               else \<lparr>pp_match = ms, pp_i = i + nMatchLen, pp_nNumLiterals = 0\<rparr>)
         else \<lparr>pp_match = ms, pp_i = i + 1, pp_nNumLiterals = nNumLiterals + 1\<rparr>)"

text \<open>
  The loop. A match record whose length does not fit a positive \<open>int\<close> would move \<open>i\<close> backwards;
  the loop is therefore a partial function, and \<open>None\<close> stands for a run that does not return.
\<close>

partial_function (option) peephole_loop ::
  "byte list \<Rightarrow> int \<Rightarrow> peephole_state \<Rightarrow> peephole_state option" where
  "peephole_loop pInWindow nEndOffset st =
     (if pp_i st < nEndOffset
      then peephole_loop pInWindow nEndOffset (peephole_step pInWindow nEndOffset st)
      else Some st)"

declare peephole_loop.simps [code]

definition lz4ultra_optimize_command_count_lz4 ::
  "match_array \<Rightarrow> byte list \<Rightarrow> int \<Rightarrow> int \<Rightarrow> match_array option" where
  "lz4ultra_optimize_command_count_lz4 ms pInWindow nStartOffset nEndOffset =
     map_option pp_match
       (peephole_loop pInWindow nEndOffset
          \<lparr>pp_match = ms, pp_i = nStartOffset, pp_nNumLiterals = 0\<rparr>)"

section \<open>Block emitter (shrink\_block.c, lz4ultra\_write\_block\_lz4)\<close>

text \<open>
  The emitter's state: the loop index, the pending literals and where they start, the bytes
  written so far (\<open>nOutOffset\<close> is their number) and the command counter of the context.
\<close>

record write_state =
  ws_i :: int
  ws_nNumLiterals :: int
  ws_nInFirstLiteralOffset :: int
  ws_out :: "byte list"
  ws_num_commands :: int

text \<open>\<open>memcpy(pOutData + nOutOffset, pInWindow + nInFirstLiteralOffset, nNumLiterals)\<close>\<close>

definition window_bytes :: "byte list \<Rightarrow> int \<Rightarrow> int \<Rightarrow> byte list" where
  "window_bytes pInWindow nFirst n = take (nat n) (drop (nat nFirst) pInWindow)"

text \<open>
  The body of the loop for a match at \<open>i\<close>: \<open>Inl st\<close> is \<open>return -1\<close> in the state \<open>st\<close>, \<open>Inr st\<close>
  the state after the command.
\<close>

definition write_match_command ::
  "byte list \<Rightarrow> match_array \<Rightarrow> int \<Rightarrow> write_state \<Rightarrow> write_state + write_state" where
  "write_match_command pInWindow ms nMaxOutDataSize st =
     (let pMatch = ms (ws_i st);
          nNumLiterals = ws_nNumLiterals st;
          nMatchOffset = to_s32 (offset_m pMatch);
          nMatchLen = to_s32 (length_m pMatch);
          nEncodedMatchLen = nMatchLen - MIN_MATCH_SIZE;
          nTokenLiteralsLen = (if nNumLiterals \<ge> LITERALS_RUN_LEN then LITERALS_RUN_LEN else nNumLiterals);
          nTokenMatchLen = (if nEncodedMatchLen \<ge> MATCH_RUN_LEN then MATCH_RUN_LEN else nEncodedMatchLen);
          nCommandSize = 8 + lz4ultra_get_literals_varlen_size nNumLiterals + push_bit 3 nNumLiterals +
                         16 + lz4ultra_get_match_varlen_size nEncodedMatchLen
      in if int (length (ws_out st)) + drop_bit 3 nCommandSize > nMaxOutDataSize then Inl st
         else if nMatchOffset < MIN_OFFSET \<or> nMatchOffset > MAX_OFFSET then Inl st
         else
           (let out1 = ws_out st @ [word_of_int (push_bit 4 nTokenLiteralsLen OR nTokenMatchLen)];
                out2 = lz4ultra_write_literals_varlen out1 nNumLiterals;
                out3 = (if nNumLiterals \<noteq> 0
                        then out2 @ window_bytes pInWindow (ws_nInFirstLiteralOffset st) nNumLiterals
                        else out2);
                out4 = out3 @ [word_of_int (nMatchOffset AND 0xff), word_of_int (drop_bit 8 nMatchOffset)];
                out5 = lz4ultra_write_match_varlen out4 nEncodedMatchLen
            in Inr (st\<lparr>ws_i := ws_i st + nMatchLen, ws_nNumLiterals := 0, ws_out := out5,
                       ws_num_commands := ws_num_commands st + 1\<rparr>)))"

text \<open>The loop \<open>for (i = nStartOffset; i < nEndOffset; )\<close>, partial for the same reason.\<close>

partial_function (option) write_loop ::
  "byte list \<Rightarrow> match_array \<Rightarrow> int \<Rightarrow> int \<Rightarrow> write_state \<Rightarrow> (write_state + write_state) option" where
  "write_loop pInWindow ms nEndOffset nMaxOutDataSize st =
     (if ws_i st < nEndOffset then
        (if length_m (ms (ws_i st)) \<ge> MIN_MATCH_SIZE then
           (case write_match_command pInWindow ms nMaxOutDataSize st of
              Inl st' \<Rightarrow> Some (Inl st')
            | Inr st' \<Rightarrow> write_loop pInWindow ms nEndOffset nMaxOutDataSize st')
         else write_loop pInWindow ms nEndOffset nMaxOutDataSize
                (st\<lparr>ws_nInFirstLiteralOffset :=
                      (if ws_nNumLiterals st = 0 then ws_i st else ws_nInFirstLiteralOffset st),
                    ws_nNumLiterals := ws_nNumLiterals st + 1,
                    ws_i := ws_i st + 1\<rparr>))
      else Some (Inr st))"

declare write_loop.simps [code]

text \<open>The last command: the pending literals, and the end marker of a raw block.\<close>

definition write_last_command ::
  "int \<Rightarrow> byte list \<Rightarrow> int \<Rightarrow> write_state \<Rightarrow> write_state + write_state" where
  "write_last_command flags pInWindow nMaxOutDataSize st =
     (let nNumLiterals = ws_nNumLiterals st;
          nTokenLiteralsLen = (if nNumLiterals \<ge> LITERALS_RUN_LEN then LITERALS_RUN_LEN else nNumLiterals);
          nCommandSize = 8 + lz4ultra_get_literals_varlen_size nNumLiterals + push_bit 3 nNumLiterals
      in if int (length (ws_out st)) + drop_bit 3 nCommandSize > nMaxOutDataSize then Inl st
         else
           (let out1 = ws_out st @ [word_of_int (push_bit 4 nTokenLiteralsLen)];
                out2 = lz4ultra_write_literals_varlen out1 nNumLiterals;
                out3 = (if nNumLiterals \<noteq> 0
                        then out2 @ window_bytes pInWindow (ws_nInFirstLiteralOffset st) nNumLiterals
                        else out2)
            in if flags AND LZ4ULTRA_FLAG_RAW_BLOCK \<noteq> 0 then
                 (if int (length out3) + 2 > nMaxOutDataSize
                  then Inl (st\<lparr>ws_nNumLiterals := 0, ws_out := out3\<rparr>)
                  else Inr (st\<lparr>ws_nNumLiterals := 0, ws_out := out3 @ [0, 0],
                             ws_num_commands := ws_num_commands st + 1\<rparr>))
               else Inr (st\<lparr>ws_nNumLiterals := 0, ws_out := out3,
                           ws_num_commands := ws_num_commands st + 1\<rparr>)))"

text \<open>
  \<open>lz4ultra_write_block_lz4\<close>: the return value (the size, or \<open>- 1\<close>), the bytes written to
  \<open>pOutData\<close> up to the return and the command counter; \<open>None\<close> when the loop does not return.
\<close>

definition lz4ultra_write_block_lz4 ::
  "int \<Rightarrow> int \<Rightarrow> match_array \<Rightarrow> byte list \<Rightarrow> int \<Rightarrow> int \<Rightarrow> int \<Rightarrow>
     (int \<times> byte list \<times> int) option" where
  "lz4ultra_write_block_lz4 flags num_commands ms pInWindow nStartOffset nEndOffset nMaxOutDataSize =
     (case write_loop pInWindow ms nEndOffset nMaxOutDataSize
             \<lparr>ws_i = nStartOffset, ws_nNumLiterals = 0, ws_nInFirstLiteralOffset = 0,
              ws_out = [], ws_num_commands = num_commands\<rparr> of
        None \<Rightarrow> None
      | Some (Inl st) \<Rightarrow> Some (- 1, ws_out st, ws_num_commands st)
      | Some (Inr st) \<Rightarrow>
          (case write_last_command flags pInWindow nMaxOutDataSize st of
             Inl st' \<Rightarrow> Some (- 1, ws_out st', ws_num_commands st')
           | Inr st' \<Rightarrow> Some (int (length (ws_out st')), ws_out st', ws_num_commands st')))"

section \<open>Block decompressor (expand.c, lz4ultra\_decompressor\_expand\_block\_lz4)\<close>

text \<open>
  The compressed block is the list of bytes from \<open>pInBlock\<close> to \<open>pInBlockEnd\<close>; reading a byte
  drops it from the list. The output buffer \<open>pOutData\<close> is a list of bytes, \<open>pCurOutData\<close> and
  \<open>pOutDataEnd\<close> are indices into it, and \<open>pCurOutData <= pOutDataFastEnd\<close> with
  \<open>pOutDataFastEnd = pOutDataEnd - 18\<close> is \<open>cur + 18 <= oend\<close>. Lengths are far below \<open>2 ^ 32\<close>.
\<close>

text \<open>\<open>memcpy(pOutData + pos, bytes, length bytes)\<close> and the bytes at \<open>pOutData + pos\<close>.\<close>

definition store_bytes :: "byte list \<Rightarrow> nat \<Rightarrow> byte list \<Rightarrow> byte list" where
  "store_bytes buf pos bytes = take pos buf @ bytes @ drop (pos + length bytes) buf"

definition load_bytes :: "byte list \<Rightarrow> nat \<Rightarrow> nat \<Rightarrow> byte list" where
  "load_bytes buf pos n = take n (drop pos buf)"

text \<open>\<open>LZ4ULTRA_DECOMPRESSOR_BUILD_LEN\<close>: \<open>None\<close> is \<open>return -1\<close>.\<close>

fun build_len :: "byte list \<Rightarrow> nat \<Rightarrow> (nat \<times> byte list) option" where
  "build_len [] len = None"
| "build_len (b # pInBlock) len =
     (if b = 255 then build_len pInBlock (len + unat b) else Some (len + unat b, pInBlock))"

text \<open>\<open>while (nMatchLen--) { *pCurOutData++ = *pSrc++; }\<close>\<close>

fun copy_bytewise :: "byte list \<Rightarrow> nat \<Rightarrow> nat \<Rightarrow> nat \<Rightarrow> byte list" where
  "copy_bytewise buf dst src 0 = buf"
| "copy_bytewise buf dst src (Suc n) = copy_bytewise (buf[dst := buf ! src]) (Suc dst) (Suc src) n"

text \<open>\<open>do { memcpy(pCopyDst, pCopySrc, 16); ... } while (pCopyDst < pCopyEndDst);\<close>\<close>

function copy_16 :: "byte list \<Rightarrow> nat \<Rightarrow> nat \<Rightarrow> nat \<Rightarrow> byte list" where
  "copy_16 buf pCopySrc pCopyDst pCopyEndDst =
     (let buf' = store_bytes buf pCopyDst (load_bytes buf pCopySrc 16)
      in if pCopyDst + 16 < pCopyEndDst then copy_16 buf' (pCopySrc + 16) (pCopyDst + 16) pCopyEndDst
         else buf')"
  by pat_completeness auto
termination
  by (relation "measure (\<lambda>(b, s, d, e). e - d)") auto

declare copy_16.simps [simp del]

text \<open>The literals of one command: the input after them, the buffer and \<open>pCurOutData\<close>.\<close>

definition expand_literals ::
  "nat \<Rightarrow> byte \<Rightarrow> byte list \<Rightarrow> byte list \<Rightarrow> nat \<Rightarrow> (byte list \<times> byte list \<times> nat) option" where
  "expand_literals oend token pInBlock buf cur =
     (let nLiterals = unat (drop_bit 4 (token AND 0xf0))
      in if nLiterals \<noteq> nat LITERALS_RUN_LEN \<and> cur + 18 \<le> oend \<and> 16 \<le> length pInBlock then
           Some (drop nLiterals pInBlock, store_bytes buf cur (take 16 pInBlock), cur + nLiterals)
         else
           (case (if nLiterals = nat LITERALS_RUN_LEN then build_len pInBlock nLiterals else Some (nLiterals, pInBlock)) of
              None \<Rightarrow> None
            | Some (nLiterals', pInBlock') \<Rightarrow>
                if nLiterals' > length pInBlock' then None
                else if cur + nLiterals' > oend then None
                else Some (drop nLiterals' pInBlock',
                           store_bytes buf cur (take nLiterals' pInBlock'), cur + nLiterals')))"

text \<open>The match of one command, when at least two more bytes of input follow the literals.\<close>

definition expand_match ::
  "nat \<Rightarrow> byte \<Rightarrow> byte list \<Rightarrow> byte list \<Rightarrow> nat \<Rightarrow> (byte list \<times> byte list \<times> nat) option" where
  "expand_match oend token pInBlock buf cur =
     (let nMatchOffset = unat (pInBlock ! 0) OR push_bit 8 (unat (pInBlock ! 1));
          pInBlock1 = drop 2 pInBlock;
          nMatchLen = unat (token AND 0x0f) + nat MIN_MATCH_SIZE
      in if nMatchLen \<noteq> nat (MATCH_RUN_LEN + MIN_MATCH_SIZE) \<and> nMatchOffset \<ge> 8 \<and> cur + 18 \<le> oend then
           (if cur < nMatchOffset then None
            else
              (let pSrc = cur - nMatchOffset;
                   buf1 = store_bytes buf cur (load_bytes buf pSrc 8);
                   buf2 = store_bytes buf1 (cur + 8) (load_bytes buf1 (pSrc + 8) 8);
                   buf3 = store_bytes buf2 (cur + 16) (load_bytes buf2 (pSrc + 16) 2)
               in Some (pInBlock1, buf3, cur + nMatchLen)))
         else
           (case (if nMatchLen = nat (MATCH_RUN_LEN + MIN_MATCH_SIZE) then build_len pInBlock1 nMatchLen else Some (nMatchLen, pInBlock1)) of
              None \<Rightarrow> None
            | Some (nMatchLen', pInBlock2) \<Rightarrow>
                if cur + nMatchLen' > oend then None
                else if cur < nMatchOffset then None
                else
                  (let pSrc = cur - nMatchOffset
                   in if nMatchOffset \<ge> 16 \<and> cur + nMatchLen' + 18 \<le> oend then
                        Some (pInBlock2, copy_16 buf pSrc cur (cur + nMatchLen'), cur + nMatchLen')
                      else
                        Some (pInBlock2, copy_bytewise buf cur pSrc nMatchLen', cur + nMatchLen'))))"

text \<open>One iteration of \<open>while (pInBlock < pInBlockEnd)\<close>, after the token has been read.\<close>

definition expand_command ::
  "nat \<Rightarrow> byte \<Rightarrow> byte list \<Rightarrow> byte list \<Rightarrow> nat \<Rightarrow> (byte list \<times> byte list \<times> nat) option" where
  "expand_command oend token pInBlock buf cur =
     (case expand_literals oend token pInBlock buf cur of
        None \<Rightarrow> None
      | Some (pInBlock1, buf1, cur1) \<Rightarrow>
          if 2 \<le> length pInBlock1 then expand_match oend token pInBlock1 buf1 cur1
          else Some (pInBlock1, buf1, cur1))"

lemma build_len_length: "build_len pInBlock n = Some (m, pInBlock') \<Longrightarrow> length pInBlock' < length pInBlock"
  by (induction pInBlock n rule: build_len.induct) (auto split: if_splits)

lemma expand_literals_length:
  "expand_literals oend token pInBlock buf cur = Some (pInBlock', buf', cur') \<Longrightarrow>
   length pInBlock' \<le> length pInBlock"
  by (auto simp: expand_literals_def Let_def split: if_splits option.splits
      dest!: build_len_length)

lemma expand_match_length:
  "expand_match oend token pInBlock buf cur = Some (pInBlock', buf', cur') \<Longrightarrow>
   length pInBlock' \<le> length pInBlock"
  by (auto simp: expand_match_def Let_def split: if_splits option.splits
      dest!: build_len_length)

lemma expand_command_length:
  "expand_command oend token pInBlock buf cur = Some (pInBlock', buf', cur') \<Longrightarrow>
   length pInBlock' \<le> length pInBlock"
  by (auto simp: expand_command_def split: option.splits if_splits
      dest!: expand_literals_length expand_match_length)

text \<open>The loop \<open>while (pInBlock < pInBlockEnd)\<close>: the final buffer and \<open>pCurOutData\<close>.\<close>

function expand_loop :: "nat \<Rightarrow> byte list \<Rightarrow> byte list \<Rightarrow> nat \<Rightarrow> (byte list \<times> nat) option" where
  "expand_loop oend [] buf cur = Some (buf, cur)"
| "expand_loop oend (token # pInBlock) buf cur =
     (case expand_command oend token pInBlock buf cur of
        None \<Rightarrow> None
      | Some (pInBlock', buf', cur') \<Rightarrow> expand_loop oend pInBlock' buf' cur')"
  by pat_completeness auto
termination
  by (relation "measure (\<lambda>(oend, pInBlock, buf, cur). length pInBlock)")
     (auto dest!: expand_command_length)

text \<open>
  \<open>lz4ultra_decompressor_expand_block_lz4\<close>: the return value (the decompressed size, or \<open>- 1\<close>)
  and, on success, the output buffer.
\<close>

definition lz4ultra_decompressor_expand_block_lz4 ::
  "byte list \<Rightarrow> byte list \<Rightarrow> nat \<Rightarrow> nat \<Rightarrow> int \<times> byte list option" where
  "lz4ultra_decompressor_expand_block_lz4 pInBlock pOutData nOutDataOffset nBlockMaxSize =
     (case expand_loop (nOutDataOffset + nBlockMaxSize) pInBlock pOutData nOutDataOffset of
        None \<Rightarrow> (- 1, None)
      | Some (buf, cur) \<Rightarrow> (int cur - int nOutDataOffset, Some buf))"

text \<open>
  \<open>lz4ultra_optimize_and_write_block\<close>: the parser, the peephole pass and the emitter on the
  candidates \<open>cand\<close> that the match finder has stored in the context.
\<close>

definition lz4ultra_optimize_and_write_block ::
  "int \<Rightarrow> int \<Rightarrow> match_array \<Rightarrow> (int \<Rightarrow> int) \<Rightarrow> (int \<Rightarrow> int) \<Rightarrow> byte list \<Rightarrow> int \<Rightarrow> int \<Rightarrow> int \<Rightarrow>
     (int \<times> byte list \<times> int) option" where
  "lz4ultra_optimize_and_write_block flags num_commands cand cost score pInWindow
       nPreviousBlockSize nInDataSize nMaxOutDataSize =
     (case lz4ultra_optimize_command_count_lz4
             (ps_match (lz4ultra_optimize_matches_lz4 flags cand cost score nPreviousBlockSize
                          (nPreviousBlockSize + nInDataSize)))
             pInWindow nPreviousBlockSize (nPreviousBlockSize + nInDataSize) of
        None \<Rightarrow> None
      | Some ms \<Rightarrow>
          lz4ultra_write_block_lz4 flags num_commands ms pInWindow nPreviousBlockSize
            (nPreviousBlockSize + nInDataSize) nMaxOutDataSize)"

definition c2_window :: "byte list" where
  "c2_window = [9, 1, 0, 1, 1, 1, 1, 1, 0, 1, 1, 1, 1, 0, 0, 0, 0, 1, 1, 1]"

section \<open>Valid matches and the emitter's walk\<close>

text \<open>
  The match record \<open>m\<close> at position \<open>p\<close> of a block that ends at \<open>nEndOffset\<close> is valid: its length is
  at least \<open>MIN_MATCH_SIZE\<close>, its offset is between \<open>MIN_OFFSET\<close> and \<open>MAX_OFFSET\<close> and does not
  reach before the window, the match leaves the last \<open>LAST_LITERALS\<close> bytes alone, and the bytes
  at \<open>p\<close> repeat those at \<open>p - offset\<close>.
\<close>

definition valid_match :: "byte list \<Rightarrow> int \<Rightarrow> int \<Rightarrow> lz4ultra_match \<Rightarrow> bool" where
  "valid_match pInWindow nEndOffset p m =
     (MIN_MATCH_SIZE \<le> length_m m \<and> MIN_OFFSET \<le> offset_m m \<and> offset_m m \<le> MAX_OFFSET \<and>
      offset_m m \<le> p \<and> p + length_m m \<le> nEndOffset - LAST_LITERALS \<and>
      window_eq pInWindow p (p - offset_m m) (length_m m))"

text \<open>The candidates of the block are valid matches.\<close>

definition valid_candidates :: "byte list \<Rightarrow> match_array \<Rightarrow> int \<Rightarrow> int \<Rightarrow> bool" where
  "valid_candidates pInWindow cand nStartOffset nEndOffset =
     (\<forall>p \<in> {nStartOffset ..< nEndOffset}.
        length_m (cand p) \<ge> MIN_MATCH_SIZE \<longrightarrow> valid_match pInWindow nEndOffset p (cand p))"

text \<open>
  The walk of the emitter (and of the peephole pass) from position \<open>a\<close>: a match start skips its
  length, any other position is one literal. \<open>walk_valid\<close> says that the walk arrives at \<open>t\<close>
  exactly and that every match it visits is valid.
\<close>

function walk_valid :: "byte list \<Rightarrow> match_array \<Rightarrow> int \<Rightarrow> int \<Rightarrow> int \<Rightarrow> bool" where
  "walk_valid pInWindow ms nEndOffset t a =
     (if a \<ge> t then a = t
      else if length_m (ms a) \<ge> MIN_MATCH_SIZE then
        (if valid_match pInWindow nEndOffset a (ms a)
         then walk_valid pInWindow ms nEndOffset t (a + length_m (ms a)) else False)
      else walk_valid pInWindow ms nEndOffset t (a + 1))"
  by pat_completeness auto
termination
  by (relation "measure (\<lambda>(W, ms, e, t, a). nat (t - a))") (auto simp: MIN_MATCH_SIZE_def)

declare walk_valid.simps [simp del]



text \<open>
  The invariant of the peephole loop for the block \<open>[nStartOffset, nEndOffset)\<close>: the walk
  from the start arrives at \<open>i\<close> over valid matches, and from \<open>i\<close> on every record outside the
  match at \<open>i\<close> is a valid match or has the length 0 (the last position: a length below
  \<open>MIN_MATCH_SIZE\<close>).
\<close>

definition in_body :: "match_array \<Rightarrow> int \<Rightarrow> int \<Rightarrow> bool" where
  "in_body ms i q = (length_m (ms i) \<ge> MIN_MATCH_SIZE \<and> i < q \<and> q < i + length_m (ms i))"

definition records_valid_from :: "byte list \<Rightarrow> match_array \<Rightarrow> int \<Rightarrow> int \<Rightarrow> bool" where
  "records_valid_from pInWindow ms nEndOffset i =
     (\<forall>q. i \<le> q \<and> q < nEndOffset \<and> \<not> in_body ms i q \<longrightarrow>
        (length_m (ms q) \<ge> MIN_MATCH_SIZE \<longrightarrow> valid_match pInWindow nEndOffset q (ms q)) \<and>
        (q < nEndOffset - 1 \<longrightarrow> length_m (ms q) < MIN_MATCH_SIZE \<longrightarrow> length_m (ms q) = 0))"

definition peephole_inv :: "byte list \<Rightarrow> int \<Rightarrow> int \<Rightarrow> peephole_state \<Rightarrow> bool" where
  "peephole_inv pInWindow nStartOffset nEndOffset st =
     (nStartOffset \<le> pp_i st \<and> pp_i st \<le> nEndOffset \<and>
      walk_valid pInWindow (pp_match st) nEndOffset (pp_i st) nStartOffset \<and>
      records_valid_from pInWindow (pp_match st) nEndOffset (pp_i st))"

text \<open>A measure that every iteration of the peephole loop decreases.\<close>

definition peephole_measure :: "int \<Rightarrow> peephole_state \<Rightarrow> nat" where
  "peephole_measure nEndOffset st =
     nat ((nEndOffset - pp_i st) * 65536 +
          (let l = length_m (pp_match st (pp_i st))
           in if MIN_MATCH_SIZE \<le> l \<and> l \<le> 65535 then 65535 - l else 0))"

section \<open>The bytes of a compressed block\<close>

text \<open>
  The bytes that \<open>lz4ultra_write_block_lz4\<close> stores for the match \<open>m\<close> at \<open>i\<close> with \<open>nNumLiterals\<close>
  pending literals: token, literals length, literals, offset, match length.
\<close>

definition match_command_bytes :: "byte list \<Rightarrow> lz4ultra_match \<Rightarrow> int \<Rightarrow> int \<Rightarrow> byte list" where
  "match_command_bytes pInWindow m i nNumLiterals =
     (let nMatchOffset = offset_m m;
          nEncodedMatchLen = length_m m - MIN_MATCH_SIZE;
          nTokenLiteralsLen = (if nNumLiterals \<ge> LITERALS_RUN_LEN then LITERALS_RUN_LEN else nNumLiterals);
          nTokenMatchLen = (if nEncodedMatchLen \<ge> MATCH_RUN_LEN then MATCH_RUN_LEN else nEncodedMatchLen)
      in word_of_int (push_bit 4 nTokenLiteralsLen OR nTokenMatchLen) #
         lz4ultra_write_literals_varlen [] nNumLiterals @
         window_bytes pInWindow (i - nNumLiterals) nNumLiterals @
         [word_of_int (nMatchOffset AND 0xff), word_of_int (drop_bit 8 nMatchOffset)] @
         lz4ultra_write_match_varlen [] nEncodedMatchLen)"

text \<open>The bytes of the last command, which has literals only.\<close>

definition last_command_bytes :: "byte list \<Rightarrow> int \<Rightarrow> int \<Rightarrow> byte list" where
  "last_command_bytes pInWindow i nNumLiterals =
     (let nTokenLiteralsLen = (if nNumLiterals \<ge> LITERALS_RUN_LEN then LITERALS_RUN_LEN else nNumLiterals)
      in word_of_int (push_bit 4 nTokenLiteralsLen) #
         lz4ultra_write_literals_varlen [] nNumLiterals @
         window_bytes pInWindow (i - nNumLiterals) nNumLiterals)"

text \<open>
  The bytes of the block from position \<open>i\<close> on, when \<open>nNumLiterals\<close> literals are pending, for a
  walk over matches of positive length; the end marker of a raw block is not part of them.
\<close>

function encode_block :: "byte list \<Rightarrow> match_array \<Rightarrow> int \<Rightarrow> int \<Rightarrow> int \<Rightarrow> byte list" where
  "encode_block pInWindow ms nEndOffset i nNumLiterals =
     (if i \<ge> nEndOffset then last_command_bytes pInWindow i nNumLiterals
      else if length_m (ms i) \<ge> MIN_MATCH_SIZE then
        match_command_bytes pInWindow (ms i) i nNumLiterals @
        encode_block pInWindow ms nEndOffset (i + length_m (ms i)) 0
      else encode_block pInWindow ms nEndOffset (i + 1) (nNumLiterals + 1))"
  by pat_completeness auto
termination
  by (relation "measure (\<lambda>(W, ms, e, i, L). nat (e - i))") (auto simp: MIN_MATCH_SIZE_def)

declare encode_block.simps [simp del]

text \<open>The number of commands of the block from position \<open>i\<close> on.\<close>

function command_count :: "match_array \<Rightarrow> int \<Rightarrow> int \<Rightarrow> int" where
  "command_count ms nEndOffset i =
     (if i \<ge> nEndOffset then 1
      else if length_m (ms i) \<ge> MIN_MATCH_SIZE then
        1 + command_count ms nEndOffset (i + length_m (ms i))
      else command_count ms nEndOffset (i + 1))"
  by pat_completeness auto
termination
  by (relation "measure (\<lambda>(ms, e, i). nat (e - i))") (auto simp: MIN_MATCH_SIZE_def)

declare command_count.simps [simp del]

section \<open>Block frames (frame.c) and one block of the stream drivers\<close>

definition HISTORY_SIZE :: nat where "HISTORY_SIZE = 65536"

text \<open>
  \<open>lz4ultra_encode_compressed_block_frame\<close> and \<open>lz4ultra_encode_uncompressed_block_frame\<close>:
  \<open>None\<close> is \<open>LZ4ULTRA_ENCODE_ERR\<close>, otherwise the 4 bytes stored in \<open>pFrameData\<close>. frame.h
  declares them with the flags as one more argument; the bodies in frame.c do not have it.
\<close>

definition lz4ultra_encode_compressed_block_frame :: "int \<Rightarrow> int \<Rightarrow> byte list option" where
  "lz4ultra_encode_compressed_block_frame nMaxFrameDataSize nBlockDataSize =
     (if nMaxFrameDataSize \<ge> 4 \<and> nBlockDataSize AND 0x80000000 = 0 then
        Some [word_of_int (nBlockDataSize AND 0xff),
              word_of_int (drop_bit 8 nBlockDataSize AND 0xff),
              word_of_int (drop_bit 16 nBlockDataSize AND 0xff),
              word_of_int (drop_bit 24 nBlockDataSize AND 0x7f)]
      else None)"

definition lz4ultra_encode_uncompressed_block_frame :: "int \<Rightarrow> int \<Rightarrow> byte list option" where
  "lz4ultra_encode_uncompressed_block_frame nMaxFrameDataSize nBlockDataSize =
     (if nMaxFrameDataSize \<ge> 4 \<and> nBlockDataSize AND 0x80000000 = 0 then
        Some [word_of_int (nBlockDataSize AND 0xff),
              word_of_int (drop_bit 8 nBlockDataSize AND 0xff),
              word_of_int (drop_bit 16 nBlockDataSize AND 0xff),
              word_of_int ((drop_bit 24 nBlockDataSize AND 0x7f) OR 0x80)]
      else None)"

text \<open>
  \<open>lz4ultra_decode_frame\<close>: \<open>None\<close> is \<open>LZ4ULTRA_DECODE_ERR_FORMAT\<close>, otherwise \<open>nBlockSize\<close> and
  \<open>nIsUncompressed\<close>.
\<close>

definition lz4ultra_decode_frame :: "byte list \<Rightarrow> (int \<times> bool) option" where
  "lz4ultra_decode_frame pFrameData =
     (if length pFrameData = 4 then
        (let nBlockSize = uint (pFrameData ! 0) OR push_bit 8 (uint (pFrameData ! 1)) OR
                          push_bit 16 (uint (pFrameData ! 2)) OR push_bit 24 (uint (pFrameData ! 3))
         in Some (nBlockSize AND 0x7fffffff, nBlockSize AND 0x80000000 \<noteq> 0))
      else None)"

section \<open>Sizes of a parse\<close>

text \<open>The number of literal positions from \<open>j\<close> up to the next match or the end of the block.\<close>

function literal_run :: "match_array \<Rightarrow> int \<Rightarrow> int \<Rightarrow> int" where
  "literal_run ms nEndOffset j =
     (if j < nEndOffset \<and> length_m (ms j) < MIN_MATCH_SIZE
      then 1 + literal_run ms nEndOffset (j + 1) else 0)"
  by pat_completeness auto
termination
  by (relation "measure (\<lambda>(ms, e, j). nat (e - j))") auto

declare literal_run.simps [simp del]

text \<open>The numbers of extra bytes that the emitter writes for a literals length and a match length.\<close>

definition literals_varlen_bytes :: "int \<Rightarrow> int" where
  "literals_varlen_bytes n = int (length (lz4ultra_write_literals_varlen [] n))"

definition match_varlen_bytes :: "int \<Rightarrow> int" where
  "match_varlen_bytes n = int (length (lz4ultra_write_match_varlen [] n))"

text \<open>An example block: 15 literals, a match of 4 bytes at the offset 15, 21 literals.\<close>

definition c6_window :: "byte list" where
  "c6_window = [1, 2, 3, 4, 5, 6, 7, 8, 9, 10, 11, 12, 13, 14, 15, 1, 2, 3, 4,
                20, 21, 22, 23, 24, 25, 26, 27, 28, 29, 30, 31, 32, 33, 34, 35, 36, 37, 38, 39, 40]"

definition c6_match :: match_array where
  "c6_match = no_matches(15 := \<lparr>length_m = 4, offset_m = 15\<rparr>)"

section \<open>Match finder (shrink.c: lz4ultra\_find\_matches\_at, lz4ultra\_find\_all\_matches)\<close>

text \<open>
  The constants of the match finder's file: a packed word holds a position or an interval index
  in its low \<open>LCP_SHIFT\<close> bits and an LCP length in the \<open>LCP_BITS\<close> bits above them.
\<close>

definition LCP_BITS :: nat where "LCP_BITS = 14"
definition LCP_MAX :: int where "LCP_MAX = push_bit LCP_BITS 1 - 1"
definition LCP_SHIFT :: nat where "LCP_SHIFT = 38 - LCP_BITS"
definition LCP_MASK :: int where "LCP_MASK = push_bit LCP_SHIFT LCP_MAX"
definition POS_MASK :: int where "POS_MASK = push_bit LCP_SHIFT 1 - 1"

text \<open>
  The two arrays of \<open>unsigned long long\<close> of the compression context that the finder reads and
  updates, as maps from the index to the stored (unsigned) value.
\<close>

record index_state =
  intervals :: "int \<Rightarrow> int"
  pos_data :: "int \<Rightarrow> int"

text \<open>
  \<open>while ((super_ref = intervals[ref & POS_MASK]) & LCP_MASK) { intervals[ref & POS_MASK] =
  nOffset; ref = super_ref; }\<close>: the result is the array, \<open>ref\<close> and \<open>super_ref\<close> at the exit.
  The loops of the finder are partial functions: on arrays that are not the index of a window
  they need not end, and \<open>None\<close> stands for a run that does not return.
\<close>

partial_function (option) ascend_unvisited ::
  "int \<Rightarrow> (int \<Rightarrow> int) \<Rightarrow> int \<Rightarrow> ((int \<Rightarrow> int) \<times> int \<times> int) option" where
  "ascend_unvisited nOffset iv ref =
     (let super_ref = iv (ref AND POS_MASK)
      in if super_ref AND LCP_MASK \<noteq> 0
         then ascend_unvisited nOffset (iv(ref AND POS_MASK := nOffset)) super_ref
         else Some (iv, ref, super_ref))"

declare ascend_unvisited.simps [code]

text \<open>
  \<open>while ((super_ref = pos_data[match_pos]) > ref) match_pos = intervals[super_ref & POS_MASK];\<close>
  The result is \<open>match_pos\<close> and \<open>super_ref\<close> at the exit.
\<close>

partial_function (option) follow_links ::
  "(int \<Rightarrow> int) \<Rightarrow> (int \<Rightarrow> int) \<Rightarrow> int \<Rightarrow> int \<Rightarrow> (int \<times> int) option" where
  "follow_links iv pd ref match_pos =
     (let super_ref = pd match_pos
      in if super_ref > ref then follow_links iv pd ref (iv (super_ref AND POS_MASK))
         else Some (match_pos, super_ref))"

declare follow_links.simps [code]

text \<open>
  The match that one iteration of the \<open>for (;;)\<close> loop stores at \<open>matchptr\<close> when there is room
  for it and its offset is at most \<open>MAX_OFFSET\<close>; \<open>pMatches\<close> are the matches stored so far.
  \<open>nOffset - match_pos\<close> is computed in \<open>unsigned long long\<close> and converted to \<open>int\<close>.
\<close>

definition store_found ::
  "int \<Rightarrow> int \<Rightarrow> int \<Rightarrow> int \<Rightarrow> lz4ultra_match list \<Rightarrow> lz4ultra_match list" where
  "store_found nOffset nMaxMatches ref match_pos pMatches =
     (let nMatchOffset = to_s32 (nOffset - match_pos)
      in if int (length pMatches) < nMaxMatches \<and> nMatchOffset \<le> MAX_OFFSET
         then pMatches @ [\<lparr>length_m = to_u32 (drop_bit LCP_SHIFT ref),
                           offset_m = to_u32 nMatchOffset\<rparr>]
         else pMatches)"

text \<open>The loop \<open>for (;;)\<close> that ascends through the visited intervals and reports the matches.\<close>

partial_function (option) ascend_matches ::
  "int \<Rightarrow> int \<Rightarrow> index_state \<Rightarrow> int \<Rightarrow> int \<Rightarrow> lz4ultra_match list \<Rightarrow>
     (index_state \<times> lz4ultra_match list) option" where
  "ascend_matches nOffset nMaxMatches st ref match_pos pMatches =
     (case follow_links (intervals st) (pos_data st) ref match_pos of
        None \<Rightarrow> None
      | Some (match_pos', super_ref) \<Rightarrow>
          (let st' = \<lparr>intervals = (intervals st)(ref AND POS_MASK := nOffset),
                      pos_data = (pos_data st)(match_pos' := ref)\<rparr>;
               pMatches' = store_found nOffset nMaxMatches ref match_pos' pMatches
           in if super_ref = 0 then Some (st', pMatches')
              else ascend_matches nOffset nMaxMatches st' super_ref
                     (intervals st' (super_ref AND POS_MASK)) pMatches'))"

declare ascend_matches.simps [code]

text \<open>
  \<open>lz4ultra_find_matches_at\<close>: the updated arrays and the matches stored at \<open>pMatches\<close>, in the
  order in which they are stored; their number is the value returned.
\<close>

definition lz4ultra_find_matches_at ::
  "index_state \<Rightarrow> int \<Rightarrow> int \<Rightarrow> (index_state \<times> lz4ultra_match list) option" where
  "lz4ultra_find_matches_at st nOffset nMaxMatches =
     (let ref = pos_data st nOffset;
          pd = (pos_data st)(nOffset := 0)
      in case ascend_unvisited nOffset (intervals st) ref of
           None \<Rightarrow> None
         | Some (iv, ref', super_ref) \<Rightarrow>
             if super_ref = 0 then
               Some (\<lparr>intervals = (if ref' \<noteq> 0 then iv(ref' AND POS_MASK := nOffset) else iv),
                      pos_data = pd\<rparr>, [])
             else ascend_matches nOffset nMaxMatches \<lparr>intervals = iv, pos_data = pd\<rparr>
                    ref' super_ref [])"

text \<open>\<open>lz4ultra_skip_matches\<close>: \<open>for (i = nStartOffset; i < nEndOffset; i++)\<close>, nothing stored.\<close>

function lz4ultra_skip_matches :: "index_state \<Rightarrow> int \<Rightarrow> int \<Rightarrow> index_state option" where
  "lz4ultra_skip_matches st i nEndOffset =
     (if i < nEndOffset then
        (case lz4ultra_find_matches_at st i 0 of
           None \<Rightarrow> None
         | Some (st', found) \<Rightarrow> lz4ultra_skip_matches st' (i + 1) nEndOffset)
      else Some st)"
  by pat_completeness auto
termination
  by (relation "measure (\<lambda>(st, i, e). nat (e - i))") auto

declare lz4ultra_skip_matches.simps [simp del]






section \<open>Index builder (shrink.c: lz4ultra\_build\_suffix\_array)\<close>











text \<open>An array of the context whose entries \<open>0 .. length xs - 1\<close> are \<open>xs\<close>.\<close>

definition array_of :: "int list \<Rightarrow> int \<Rightarrow> int" where
  "array_of xs i = xs ! nat i"


definition c10_window :: "byte list" where
  "c10_window = [97, 98, 99, 100, 97, 98, 99, 100, 97, 98, 99, 100, 120, 121, 122, 48, 49, 50, 51, 52]"


definition c10_index :: index_state where
  "c10_index =
     \<lparr>intervals = array_of [0, 67108866, 0, 0, 0, 0, 134217732, 67108872, 1, 117440517, 9, 2,
                             100663302, 10, 3, 83886087, 11, 12, 13, 14],
      pos_data = array_of [134217729, 117440515, 100663300, 83886085, 134217729, 117440515,
                           100663300, 83886085, 67108866, 0, 0, 0, 0, 0, 0, 0, 0, 0, 0, 0]\<rparr>"


section \<open>The contract of the index\<close>

text \<open>
  The intervals that contain a position, from the deepest one up to the root: the chain that
  starts at \<open>pos_data[q]\<close> and follows \<open>intervals[ref & POS_MASK]\<close>; the root is the word 0.
\<close>

fun chain :: "nat \<Rightarrow> (int \<Rightarrow> int) \<Rightarrow> int \<Rightarrow> int list" where
  "chain 0 iv r = [r]"
| "chain (Suc n) iv r = (if r = 0 then [0] else r # chain n iv (iv (r AND POS_MASK)))"

definition index_chain :: "index_state \<Rightarrow> int \<Rightarrow> int \<Rightarrow> int list" where
  "index_chain ix n q = chain (nat n) (intervals ix) (pos_data ix q)"

text \<open>
  What the finder needs of the index of the window \<open>W[0..n)\<close> that the builder leaves (section
  4.1 of the specification): from every position the chain of intervals reaches the root; an
  interval is a word with an LCP and an index of its own, its superinterval is a smaller word; and
  two positions in one interval have its LCP bytes in common.
\<close>

definition index_ok :: "byte list \<Rightarrow> int \<Rightarrow> index_state \<Rightarrow> bool" where
  "index_ok W n ix =
     (0 \<le> n \<and> n \<le> 16777216 \<and> intervals ix 0 = 0 \<and>
      (\<forall>q \<in> {0 ..< n}.
         last (index_chain ix n q) = 0 \<and>
         (\<forall>r \<in> set (index_chain ix n q). r \<noteq> 0 \<longrightarrow>
            r < 274877906944 \<and> r AND LCP_MASK \<noteq> 0 \<and> r AND POS_MASK \<noteq> 0 \<and>
            0 \<le> intervals ix (r AND POS_MASK) \<and> intervals ix (r AND POS_MASK) < r)) \<and>
      (\<forall>q1 \<in> {0 ..< n}. \<forall>q2 \<in> {0 ..< n}.
         \<forall>r1 \<in> set (index_chain ix n q1). \<forall>r2 \<in> set (index_chain ix n q2).
           (r1 AND POS_MASK = r2 AND POS_MASK \<longrightarrow> r1 = r2) \<and>
           (r1 = r2 \<and> r1 \<noteq> 0 \<longrightarrow> window_eq W q1 q2 (drop_bit LCP_SHIFT r1))))"


text \<open>The superinterval relation on the words of the index, and its closure.\<close>

definition par :: "(int \<Rightarrow> int) \<Rightarrow> int \<Rightarrow> int \<Rightarrow> bool" where
  "par iv r t = (r \<noteq> 0 \<and> t = iv (r AND POS_MASK))"

definition anc :: "(int \<Rightarrow> int) \<Rightarrow> int \<Rightarrow> int \<Rightarrow> bool" where
  "anc iv = (par iv)\<^sup>*\<^sup>*"

text \<open>The position \<open>q\<close> lies in the interval \<open>r\<close> of the index \<open>ix\<close>.\<close>

definition in_interval :: "index_state \<Rightarrow> int \<Rightarrow> int \<Rightarrow> bool" where
  "in_interval ix q r = anc (intervals ix) (pos_data ix q) r"

text \<open>
  The invariant of the finder before the query at \<open>p\<close>, for the index \<open>ix\<close> of \<open>n\<close> positions: an
  interval is unvisited, with its superinterval in its slot, or holds the last position below \<open>p\<close>
  that visited it; an unvisited position has its deepest interval, a visited one is linked to an
  interval that a later position has visited.
\<close>

definition finder_inv :: "int \<Rightarrow> index_state \<Rightarrow> index_state \<Rightarrow> int \<Rightarrow> bool" where
  "finder_inv n ix st p =
     (intervals st 0 = 0 \<and>
      (\<forall>q r. 0 \<le> q \<and> q < n \<and> in_interval ix q r \<and> r \<noteq> 0 \<longrightarrow>
         intervals st (r AND POS_MASK) = intervals ix (r AND POS_MASK) \<or>
         (0 \<le> intervals st (r AND POS_MASK) \<and> intervals st (r AND POS_MASK) < p \<and>
          in_interval ix (intervals st (r AND POS_MASK)) r)) \<and>
      (\<forall>q. p \<le> q \<and> q < n \<longrightarrow> pos_data st q = pos_data ix q) \<and>
      (\<forall>q. 0 \<le> q \<and> q < p \<longrightarrow>
         pos_data st q = 0 \<or>
         (in_interval ix q (pos_data st q) \<and>
          q < intervals st (pos_data st q AND POS_MASK) \<and>
          intervals st (pos_data st q AND POS_MASK) < p \<and>
          in_interval ix (intervals st (pos_data st q AND POS_MASK)) (pos_data st q))))"

text \<open>A match that the finder reports at \<open>p\<close>: an earlier position other than 0, LCP bytes long.\<close>

definition found_ok :: "byte list \<Rightarrow> int \<Rightarrow> lz4ultra_match \<Rightarrow> bool" where
  "found_ok W p m =
     (1 \<le> offset_m m \<and> offset_m m < p \<and> offset_m m \<le> MAX_OFFSET \<and> 0 < length_m m \<and>
      window_eq W p (p - offset_m m) (length_m m))"

text \<open>
  During the query at \<open>p\<close> that started in the state \<open>st0\<close>, at the interval \<open>ref\<close> and the match
  position \<open>m\<close>: the slots of \<open>intervals\<close> that hold \<open>p\<close> belong to intervals of \<open>p\<close> below \<open>ref\<close>
  that were unvisited or last visited before \<open>m\<close>; the changed entries of \<open>pos_data\<close> are those of
  positions before \<open>m\<close>, now linked to such an interval.
\<close>

definition iv_touched :: "index_state \<Rightarrow> index_state \<Rightarrow> int \<Rightarrow> int \<Rightarrow> int \<Rightarrow> (int \<Rightarrow> int) \<Rightarrow> bool" where
  "iv_touched ix st0 p ref m iv =
     (\<forall>x. iv x = intervals st0 x \<or>
          (iv x = p \<and> (intervals st0 x AND LCP_MASK \<noteq> 0 \<or> intervals st0 x < m) \<and>
           (\<exists>r. in_interval ix p r \<and> ref < r \<and> r AND POS_MASK = x)))"

definition pd_touched ::
  "index_state \<Rightarrow> index_state \<Rightarrow> int \<Rightarrow> int \<Rightarrow> int \<Rightarrow> (int \<Rightarrow> int) \<Rightarrow> (int \<Rightarrow> int) \<Rightarrow> bool" where
  "pd_touched ix st0 p ref m iv pd =
     (pd p = 0 \<and>
      (\<forall>q. q \<noteq> p \<longrightarrow> pd q = pos_data st0 q \<or>
          (0 \<le> q \<and> q < m \<and> in_interval ix p (pd q) \<and> in_interval ix q (pd q) \<and> ref < pd q \<and>
           iv (pd q AND POS_MASK) = p)))"

text \<open>The state after the query at \<open>p\<close>, against the state \<open>st0\<close> before it.\<close>

definition query_post :: "index_state \<Rightarrow> index_state \<Rightarrow> int \<Rightarrow> index_state \<Rightarrow> bool" where
  "query_post ix st0 p st =
     ((\<forall>x. intervals st x = intervals st0 x \<or>
           (intervals st x = p \<and> (\<exists>r. in_interval ix p r \<and> r \<noteq> 0 \<and> r AND POS_MASK = x))) \<and>
      pos_data st p = 0 \<and>
      (\<forall>q. q \<noteq> p \<longrightarrow> pos_data st q = pos_data st0 q \<or>
          (0 \<le> q \<and> q < p \<and> pos_data st q \<noteq> 0 \<and> in_interval ix p (pos_data st q) \<and>
           in_interval ix q (pos_data st q) \<and> intervals st (pos_data st q AND POS_MASK) = p)))"



section \<open>Properties of the run encodings\<close>

lemmas format_defs = MIN_MATCH_SIZE_def LITERALS_RUN_LEN_def MATCH_RUN_LEN_def
  MIN_OFFSET_def MAX_OFFSET_def LEAVE_ALONE_MATCH_SIZE_def LAST_MATCH_OFFSET_def
  LAST_LITERALS_def MODESWITCH_PENALTY_def

lemma c_div_nonneg: "0 \<le> a \<Longrightarrow> 0 < b \<Longrightarrow> c_div a b = a div b"
  by (cases "a = 0") (simp_all add: c_div_def)

lemma length_varlen_bytes: "0 \<le> n \<Longrightarrow> int (length (varlen_bytes n)) = n div 255 + 1"
proof (induction n rule: varlen_bytes.induct)
  case (1 n)
  show ?case
  proof (cases "n \<ge> 255")
    case True
    then have "int (length (varlen_bytes (n - 255))) = (n - 255) div 255 + 1"
      using 1 by simp
    moreover have "(n - 255) div 255 = n div 255 - 1" by simp
    ultimately show ?thesis using True by (subst varlen_bytes.simps) simp
  next
    case False
    then show ?thesis using 1(2) by (subst varlen_bytes.simps) simp
  qed
qed

lemma div255_shift: "(240 + n) div 255 = (n - 15) div (255::int) + 1"
proof -
  have "(240 + n) = (n - 15) + 255" by simp
  then have "(240 + n) div 255 = ((n - 15) + 255) div 255" by simp
  also have "\<dots> = (n - 15) div 255 + 1" by (rule div_add_self2) simp
  finally show ?thesis .
qed

lemma literals_varlen_size_ge: "15 \<le> n \<Longrightarrow>
  lz4ultra_get_literals_varlen_size n = 8 * ((n - 15) div 255 + 1)"
  by (simp add: lz4ultra_get_literals_varlen_size_def LITERALS_RUN_LEN_def c_div_nonneg
      push_bit_eq_mult div255_shift)

lemma literals_varlen_size_lt: "0 \<le> n \<Longrightarrow> n < 15 \<Longrightarrow> lz4ultra_get_literals_varlen_size n = 0"
  by (simp add: lz4ultra_get_literals_varlen_size_def LITERALS_RUN_LEN_def c_div_nonneg push_bit_eq_mult)

lemma match_varlen_size_ge: "15 \<le> n \<Longrightarrow>
  lz4ultra_get_match_varlen_size n = 8 * ((n - 15) div 255 + 1)"
  by (simp add: lz4ultra_get_match_varlen_size_def MATCH_RUN_LEN_def c_div_nonneg
      push_bit_eq_mult div255_shift)

lemma match_varlen_size_lt: "0 \<le> n \<Longrightarrow> n < 15 \<Longrightarrow> lz4ultra_get_match_varlen_size n = 0"
  by (simp add: lz4ultra_get_match_varlen_size_def MATCH_RUN_LEN_def c_div_nonneg push_bit_eq_mult)

text \<open>
  C4 (as stated): for a run length \<open>run_len \<ge> 15\<close> the number of extra length bytes is
  \<open>ceil((run_len - 15) / 255)\<close>. At \<open>run_len = 15\<close> that would be 0 bytes, but the cost model
  charges 8 bits and the emitter writes one byte (the remainder 0).
\<close>

theorem C4_counterexample:
  "drop_bit 3 (lz4ultra_get_literals_varlen_size 15) \<noteq> \<lceil>(15 - 15) / (255::real)\<rceil> \<and>
   int (length (lz4ultra_write_literals_varlen [] 15)) \<noteq> \<lceil>(15 - 15) / (255::real)\<rceil>"
  by (simp add: lz4ultra_get_literals_varlen_size_def lz4ultra_write_literals_varlen_def
      LITERALS_RUN_LEN_def c_div_def varlen_bytes.simps)

text \<open>
  C4 (amended): for every literal run length \<open>n\<close> from 15 to 2147483407 the cost model charges, and
  the emitter writes, \<open>floor((n - 15) / 255) + 1\<close> extra bytes, and likewise for every encoded match
  length \<open>e\<close> from 15 to 2147483407; for lengths from 0 to 14 nothing is charged and nothing is
  written. The upper bound is the largest length for which \<open>nLength - 15 + 255\<close> is an \<open>int\<close>.
\<close>

theorem C4_varlen_extra_bytes:
  "(15 \<le> n \<and> n \<le> 2147483407 \<longrightarrow>
      lz4ultra_get_literals_varlen_size n = 8 * ((n - 15) div 255 + 1) \<and>
      int (length (lz4ultra_write_literals_varlen out n)) = int (length out) + ((n - 15) div 255 + 1)) \<and>
   (15 \<le> e \<and> e \<le> 2147483407 \<longrightarrow>
      lz4ultra_get_match_varlen_size e = 8 * ((e - 15) div 255 + 1) \<and>
      int (length (lz4ultra_write_match_varlen out e)) = int (length out) + ((e - 15) div 255 + 1)) \<and>
   (0 \<le> n \<and> n < 15 \<longrightarrow>
      lz4ultra_get_literals_varlen_size n = 0 \<and> lz4ultra_write_literals_varlen out n = out) \<and>
   (0 \<le> e \<and> e < 15 \<longrightarrow>
      lz4ultra_get_match_varlen_size e = 0 \<and> lz4ultra_write_match_varlen out e = out)"
  by (simp add: literals_varlen_size_ge literals_varlen_size_lt match_varlen_size_ge
      match_varlen_size_lt lz4ultra_write_literals_varlen_def lz4ultra_write_match_varlen_def
      LITERALS_RUN_LEN_def MATCH_RUN_LEN_def length_varlen_bytes)

theorem C4_varlen_extra_bytes_witness:
  "lz4ultra_get_literals_varlen_size 270 = 16 \<and>
   length (lz4ultra_write_literals_varlen [] 270) = 2 \<and>
   lz4ultra_get_match_varlen_size 15 = 8 \<and>
   length (lz4ultra_write_match_varlen [] 15) = 1 \<and>
   lz4ultra_get_literals_varlen_size 14 = 0 \<and> lz4ultra_write_literals_varlen [] 14 = []"
  using C4_varlen_extra_bytes [of 270 "[]" 15] C4_varlen_extra_bytes [of 14 "[]" 15]
  by simp

section \<open>The parser's choice at one position\<close>


lemma lex_le_refl [simp]: "lex_le a a" by (simp add: lex_le_def)
lemma lex_le_trans: "lex_le a b \<Longrightarrow> lex_le b c \<Longrightarrow> lex_le a c"
  by (auto simp: lex_le_def)

lemma take_if_better_le_old: "lex_le (choice_key (take_if_better c s k off b)) (choice_key b)"
  by (auto simp: take_if_better_def lex_le_def choice_key_def)

lemma take_if_better_le_new: "lex_le (choice_key (take_if_better c s k off b)) (c, s)"
  by (auto simp: take_if_better_def lex_le_def choice_key_def)

lemma take_if_better_cases:
  "take_if_better c s k off b = b \<or>
   take_if_better c s k off b = \<lparr>nBestCost = c, nBestScore = s, nBestMatchLen = k, nBestMatchOffset = off\<rparr>"
  by (simp add: take_if_better_def)

lemma trim_loop_varlen_unfold:
  "k \<ge> MATCH_RUN_LEN + MIN_MATCH_SIZE \<Longrightarrow>
   trim_loop_varlen st e i off k b =
   trim_loop_varlen st e i off (k - 1)
     (take_if_better (match_cur_cost st i k (lz4ultra_get_match_varlen_size (k - MIN_MATCH_SIZE)))
        (e + ps_score st (i + k)) k off b)"
  by (subst trim_loop_varlen.simps) simp

lemma trim_loop_varlen_stop:
  "\<not> k \<ge> MATCH_RUN_LEN + MIN_MATCH_SIZE \<Longrightarrow> trim_loop_varlen st e i off k b = (k, b)"
  by (subst trim_loop_varlen.simps) simp

lemma trim_loop_varlen_fst:
  "fst (trim_loop_varlen st e i off k b) = (if k \<ge> 19 then 18 else k)"
proof (induction st e i off k b rule: trim_loop_varlen.induct)
  case (1 st e i off k b)
  show ?case
  proof (cases "k \<ge> MATCH_RUN_LEN + MIN_MATCH_SIZE")
    case True
    then show ?thesis using 1[OF True] unfolding trim_loop_varlen_unfold[OF True]
      by (auto simp: MATCH_RUN_LEN_def MIN_MATCH_SIZE_def)
  next
    case False
    then show ?thesis by (auto simp: trim_loop_varlen_stop MATCH_RUN_LEN_def MIN_MATCH_SIZE_def)
  qed
qed

lemma trim_loop_varlen_le:
  "lex_le (choice_key (snd (trim_loop_varlen st e i off k b))) (choice_key b)"
proof (induction st e i off k b rule: trim_loop_varlen.induct)
  case (1 st e i off k b)
  show ?case
  proof (cases "k \<ge> MATCH_RUN_LEN + MIN_MATCH_SIZE")
    case True
    show ?thesis
      unfolding trim_loop_varlen_unfold[OF True]
      by (rule lex_le_trans[OF 1[OF True] take_if_better_le_old])
  next
    case False
    then show ?thesis by (simp add: trim_loop_varlen_stop)
  qed
qed

lemma trim_loop_varlen_opt:
  "19 \<le> j \<Longrightarrow> j \<le> k \<Longrightarrow>
   lex_le (choice_key (snd (trim_loop_varlen st e i off k b))) (choice_key (match_choice st e i off j))"
proof (induction st e i off k b rule: trim_loop_varlen.induct)
  case (1 st e i off k b)
  from 1(2,3) have T: "k \<ge> MATCH_RUN_LEN + MIN_MATCH_SIZE"
    by (simp add: MATCH_RUN_LEN_def MIN_MATCH_SIZE_def)
  show ?case
  proof (cases "j = k")
    case True
    have "lex_le (choice_key (snd (trim_loop_varlen st e i off k b)))
            (choice_key (take_if_better
                (match_cur_cost st i k (lz4ultra_get_match_varlen_size (k - MIN_MATCH_SIZE)))
                (e + ps_score st (i + k)) k off b))"
      unfolding trim_loop_varlen_unfold[OF T] by (rule trim_loop_varlen_le)
    moreover have "lex_le (choice_key (take_if_better
                (match_cur_cost st i k (lz4ultra_get_match_varlen_size (k - MIN_MATCH_SIZE)))
                (e + ps_score st (i + k)) k off b)) (choice_key (match_choice st e i off k))"
      using take_if_better_le_new by (simp add: match_choice_def choice_key_def)
    ultimately show ?thesis using True lex_le_trans by blast
  next
    case False
    with 1(3) have "j \<le> k - 1" by simp
    from 1(1)[OF T 1(2) this] show ?thesis
      unfolding trim_loop_varlen_unfold[OF T] .
  qed
qed

lemma trim_loop_varlen_cases:
  "snd (trim_loop_varlen st e i off k b) = b \<or>
   (\<exists>j. 19 \<le> j \<and> j \<le> k \<and> snd (trim_loop_varlen st e i off k b) = match_choice st e i off j)"
proof (induction st e i off k b rule: trim_loop_varlen.induct)
  case (1 st e i off k b)
  show ?case
  proof (cases "k \<ge> MATCH_RUN_LEN + MIN_MATCH_SIZE")
    case True
    let ?b1 = "take_if_better
                (match_cur_cost st i k (lz4ultra_get_match_varlen_size (k - MIN_MATCH_SIZE)))
                (e + ps_score st (i + k)) k off b"
    have eq: "trim_loop_varlen st e i off k b = trim_loop_varlen st e i off (k - 1) ?b1"
      by (rule trim_loop_varlen_unfold[OF True])
    have k19: "19 \<le> k" using True by (simp add: MATCH_RUN_LEN_def MIN_MATCH_SIZE_def)
    from 1[OF True] consider
      (a) "snd (trim_loop_varlen st e i off (k - 1) ?b1) = ?b1"
      | (b) j where "19 \<le> j" "j \<le> k - 1" "snd (trim_loop_varlen st e i off (k - 1) ?b1) = match_choice st e i off j"
      by blast
    then show ?thesis
    proof cases
      case a
      have "?b1 = b \<or> ?b1 = match_choice st e i off k"
        using take_if_better_cases[of _ _ k off b] by (simp add: match_choice_def)
      then show ?thesis using a eq k19 by auto
    next
      case b
      then show ?thesis using eq by (intro disjI2 exI[of _ j]) simp
    qed
  next
    case False
    then show ?thesis by (simp add: trim_loop_varlen_stop)
  qed
qed

lemma trim_loop_short_unfold:
  "k \<ge> MIN_MATCH_SIZE \<Longrightarrow>
   trim_loop_short st e i off k b =
   trim_loop_short st e i off (k - 1)
     (take_if_better (match_cur_cost st i k 0) (e + ps_score st (i + k)) k off b)"
  by (subst trim_loop_short.simps) simp

lemma trim_loop_short_stop:
  "\<not> k \<ge> MIN_MATCH_SIZE \<Longrightarrow> trim_loop_short st e i off k b = b"
  by (subst trim_loop_short.simps) simp

lemma match_choice_short:
  "4 \<le> k \<Longrightarrow> k \<le> 18 \<Longrightarrow>
   \<lparr>nBestCost = match_cur_cost st i k 0, nBestScore = e + ps_score st (i + k),
    nBestMatchLen = k, nBestMatchOffset = off\<rparr> = match_choice st e i off k"
  by (simp add: match_choice_def match_varlen_size_lt MIN_MATCH_SIZE_def)

lemma trim_loop_short_le:
  "lex_le (choice_key (trim_loop_short st e i off k b)) (choice_key b)"
proof (induction st e i off k b rule: trim_loop_short.induct)
  case (1 st e i off k b)
  show ?case
  proof (cases "k \<ge> MIN_MATCH_SIZE")
    case True
    show ?thesis
      unfolding trim_loop_short_unfold[OF True]
      by (rule lex_le_trans[OF 1[OF True] take_if_better_le_old])
  next
    case False
    then show ?thesis by (simp add: trim_loop_short_stop)
  qed
qed

lemma trim_loop_short_opt:
  "4 \<le> j \<Longrightarrow> j \<le> k \<Longrightarrow> k \<le> 18 \<Longrightarrow>
   lex_le (choice_key (trim_loop_short st e i off k b)) (choice_key (match_choice st e i off j))"
proof (induction st e i off k b rule: trim_loop_short.induct)
  case (1 st e i off k b)
  from 1(2,3) have T: "k \<ge> MIN_MATCH_SIZE" by (simp add: MIN_MATCH_SIZE_def)
  show ?case
  proof (cases "j = k")
    case True
    have "lex_le (choice_key (trim_loop_short st e i off k b))
            (choice_key (take_if_better (match_cur_cost st i k 0) (e + ps_score st (i + k)) k off b))"
      unfolding trim_loop_short_unfold[OF T] by (rule trim_loop_short_le)
    moreover have "lex_le (choice_key (take_if_better (match_cur_cost st i k 0)
                      (e + ps_score st (i + k)) k off b)) (choice_key (match_choice st e i off k))"
      using take_if_better_le_new[of "match_cur_cost st i k 0" "e + ps_score st (i + k)" k off b]
        match_choice_short[of k st i e off] 1(2,3,4) True
      by (simp add: choice_key_def match_choice_def)
    ultimately show ?thesis using True lex_le_trans by blast
  next
    case False
    with 1(3) have "j \<le> k - 1" by simp
    moreover have "k - 1 \<le> 18" using 1(4) by simp
    ultimately show ?thesis using 1(1)[OF T 1(2)]
      unfolding trim_loop_short_unfold[OF T] by blast
  qed
qed

lemma trim_loop_short_cases:
  "k \<le> 18 \<Longrightarrow> trim_loop_short st e i off k b = b \<or>
   (\<exists>j. 4 \<le> j \<and> j \<le> k \<and> trim_loop_short st e i off k b = match_choice st e i off j)"
proof (induction st e i off k b rule: trim_loop_short.induct)
  case (1 st e i off k b)
  show ?case
  proof (cases "k \<ge> MIN_MATCH_SIZE")
    case True
    let ?b1 = "take_if_better (match_cur_cost st i k 0) (e + ps_score st (i + k)) k off b"
    have eq: "trim_loop_short st e i off k b = trim_loop_short st e i off (k - 1) ?b1"
      by (rule trim_loop_short_unfold[OF True])
    have k4: "4 \<le> k" using True by (simp add: MIN_MATCH_SIZE_def)
    have "k - 1 \<le> 18" using 1(2) by simp
    from 1(1)[OF True this] consider
      (a) "trim_loop_short st e i off (k - 1) ?b1 = ?b1"
      | (b) j where "4 \<le> j" "j \<le> k - 1" "trim_loop_short st e i off (k - 1) ?b1 = match_choice st e i off j"
      by blast
    then show ?thesis
    proof cases
      case a
      have "?b1 = b \<or> ?b1 = match_choice st e i off k"
        using take_if_better_cases[of "match_cur_cost st i k 0" "e + ps_score st (i + k)" k off b]
          match_choice_short[OF k4 1(2), of st i e off] by auto
      then show ?thesis using a eq k4 by auto
    next
      case b
      then show ?thesis using eq by (intro disjI2 exI[of _ j]) simp
    qed
  next
    case False
    then show ?thesis by (simp add: trim_loop_short_stop)
  qed
qed

lemma trim_loops_le: "lex_le (choice_key (trim_loops st e i off n b)) (choice_key b)"
proof -
  obtain k b1 where r: "trim_loop_varlen st e i off n b = (k, b1)" by fastforce
  have "lex_le (choice_key b1) (choice_key b)"
    using trim_loop_varlen_le[of st e i off n b] r by simp
  then show ?thesis
    using trim_loop_short_le[of st e i off k b1] r lex_le_trans
    by (auto simp: trim_loops_def)
qed

lemma trim_loops_opt:
  assumes "4 \<le> j" "j \<le> n"
  shows "lex_le (choice_key (trim_loops st e i off n b)) (choice_key (match_choice st e i off j))"
proof -
  obtain k b1 where r: "trim_loop_varlen st e i off n b = (k, b1)" by fastforce
  have k: "k = (if n \<ge> 19 then 18 else n)"
    using trim_loop_varlen_fst[of st e i off n b] r by simp
  have eq: "trim_loops st e i off n b = trim_loop_short st e i off k b1"
    by (simp add: trim_loops_def r)
  show ?thesis
  proof (cases "19 \<le> j")
    case True
    have "lex_le (choice_key b1) (choice_key (match_choice st e i off j))"
      using trim_loop_varlen_opt[OF True assms(2), of st e i off b] r by simp
    then show ?thesis unfolding eq
      using trim_loop_short_le[of st e i off k b1] lex_le_trans by blast
  next
    case False
    then have "j \<le> k" "k \<le> 18" using k assms(2) by auto
    then show ?thesis unfolding eq using trim_loop_short_opt[OF assms(1)] by blast
  qed
qed

lemma trim_loops_cases:
  "trim_loops st e i off n b = b \<or>
   (\<exists>j. 4 \<le> j \<and> j \<le> n \<and> trim_loops st e i off n b = match_choice st e i off j)"
proof -
  obtain k b1 where r: "trim_loop_varlen st e i off n b = (k, b1)" by fastforce
  have k: "k = (if n \<ge> 19 then 18 else n)"
    using trim_loop_varlen_fst[of st e i off n b] r by simp
  then have k18: "k \<le> 18" "k \<le> n" by auto
  have eq: "trim_loops st e i off n b = trim_loop_short st e i off k b1"
    by (simp add: trim_loops_def r)
  have b1: "b1 = b \<or> (\<exists>j. 19 \<le> j \<and> j \<le> n \<and> b1 = match_choice st e i off j)"
    using trim_loop_varlen_cases[of st e i off n b] r by simp
  from trim_loop_short_cases[OF k18(1), of st e i off b1]
  show ?thesis unfolding eq using b1 k18(2) by fastforce
qed

lemma best_at_spec:
  fixes st flags nEndOffset i
  defines "b \<equiv> best_at flags nEndOffset i st"
    and "opt \<equiv> match_choice st (extra_match_score flags) i (to_s32 (offset_m (ps_match st i)))"
  shows "lex_le (choice_key b) (choice_key (literal_choice st i))"
    and "\<forall>k \<in> examined_trims flags nEndOffset i (ps_match st i). lex_le (choice_key b) (choice_key (opt k))"
    and "b = literal_choice st i \<or> (\<exists>k \<in> examined_trims flags nEndOffset i (ps_match st i). b = opt k)"
proof -
  let ?m = "ps_match st i"
  let ?b0 = "literal_choice st i"
  let ?e = "extra_match_score flags"
  let ?off = "to_s32 (offset_m ?m)"
  consider (none) "length_m ?m < MIN_MATCH_SIZE"
    | (long) "length_m ?m \<ge> MIN_MATCH_SIZE" "length_m ?m \<ge> LEAVE_ALONE_MATCH_SIZE"
    | (short) "length_m ?m \<ge> MIN_MATCH_SIZE" "\<not> length_m ?m \<ge> LEAVE_ALONE_MATCH_SIZE"
    by linarith
  then have "lex_le (choice_key b) (choice_key ?b0) \<and>
    (\<forall>k \<in> examined_trims flags nEndOffset i ?m. lex_le (choice_key b) (choice_key (opt k))) \<and>
    (b = ?b0 \<or> (\<exists>k \<in> examined_trims flags nEndOffset i ?m. b = opt k))"
  proof cases
    case none
    then have "b = ?b0" by (simp add: b_def best_at_def Let_def)
    then show ?thesis using none by (simp add: examined_trims_def)
  next
    case long
    let ?n = "clamp_to_last_literals nEndOffset i (to_s32 (length_m ?m))"
    have T: "examined_trims flags nEndOffset i ?m = {?n}"
      using long by (simp add: examined_trims_def)
    have b: "b = take_if_better (nBestCost (opt ?n)) (nBestScore (opt ?n)) ?n ?off ?b0"
      using long by (simp add: b_def best_at_def Let_def opt_def match_choice_def extra_match_score_def)
    have o: "opt ?n = \<lparr>nBestCost = nBestCost (opt ?n), nBestScore = nBestScore (opt ?n),
        nBestMatchLen = ?n, nBestMatchOffset = ?off\<rparr>"
      by (simp add: opt_def match_choice_def)
    have "lex_le (choice_key b) (choice_key ?b0)"
      unfolding b by (rule take_if_better_le_old)
    moreover have "lex_le (choice_key b) (choice_key (opt ?n))"
      unfolding b using take_if_better_le_new[of "nBestCost (opt ?n)" "nBestScore (opt ?n)" ?n ?off ?b0]
      by (simp add: choice_key_def)
    moreover have "b = ?b0 \<or> b = opt ?n"
      unfolding b using take_if_better_cases[of "nBestCost (opt ?n)" "nBestScore (opt ?n)" ?n ?off ?b0] o
      by auto
    ultimately show ?thesis unfolding T by simp
  next
    case short
    let ?n = "shorten_for_speed flags (clamp_to_last_literals nEndOffset i (to_s32 (length_m ?m)))"
    have T: "examined_trims flags nEndOffset i ?m = {4 .. ?n}"
      using short by (simp add: examined_trims_def MIN_MATCH_SIZE_def)
    have b: "b = trim_loops st ?e i ?off ?n ?b0"
      using short by (simp add: b_def best_at_def Let_def extra_match_score_def)
    show ?thesis unfolding T b opt_def
      using trim_loops_le[of st ?e i ?off ?n ?b0] trim_loops_opt[of _ ?n st ?e i ?off ?b0]
        trim_loops_cases[of st ?e i ?off ?n ?b0]
      by auto
  qed
  then show "lex_le (choice_key b) (choice_key (literal_choice st i))"
    and "\<forall>k \<in> examined_trims flags nEndOffset i (ps_match st i). lex_le (choice_key b) (choice_key (opt k))"
    and "b = literal_choice st i \<or> (\<exists>k \<in> examined_trims flags nEndOffset i (ps_match st i). b = opt k)"
    by blast+
qed

lemma parse_step_at:
  "ps_cost (parse_step flags e i st) i = nBestCost (best_at flags e i st)"
  "ps_score (parse_step flags e i st) i = nBestScore (best_at flags e i st)"
  "length_m (ps_match (parse_step flags e i st) i) = to_u32 (nBestMatchLen (best_at flags e i st))"
  "offset_m (ps_match (parse_step flags e i st) i) = to_u32 (nBestMatchOffset (best_at flags e i st))"
  by (simp_all add: parse_step_def Let_def)

lemma parse_step_other:
  "j \<noteq> i \<Longrightarrow> ps_cost (parse_step flags e i st) j = ps_cost st j"
  "j \<noteq> i \<Longrightarrow> ps_score (parse_step flags e i st) j = ps_score st j"
  "j \<noteq> i \<Longrightarrow> ps_match (parse_step flags e i st) j = ps_match st j"
  by (simp_all add: parse_step_def Let_def)

lemma to_u32_id: "0 \<le> x \<Longrightarrow> x < 4294967296 \<Longrightarrow> to_u32 x = x"
  by (simp add: to_u32_def)

lemma to_s32_id: "0 \<le> x \<Longrightarrow> x < 2147483648 \<Longrightarrow> to_s32 x = x"
  by (simp add: to_s32_def)


text \<open>
  C5 (as stated): in favor-speed mode a match length in (14, 28] is cut to 14, other lengths are
  left alone. With the flag clear, candidates of length 20, 16 and 30 (block \<open>[0, 120)\<close>, no
  other candidates) come out of the parser with lengths 18, 16 and 18.
\<close>

theorem C5_counterexample:
  "length_m (ps_match c5_state 10) = 18 \<and>
   length_m (ps_match c5_state 40) = 16 \<and>
   length_m (ps_match c5_state 70) = 18"
  unfolding c5_state_def by code_simp

lemma shorten_for_speed_cases:
  "flags AND LZ4ULTRA_FLAG_FAVOR_RATIO = 0 \<Longrightarrow>
   shorten_for_speed flags n = (if 18 < n \<and> n \<le> 36 then 18 else n)"
  by (simp add: shorten_for_speed_def MATCH_RUN_LEN_def MIN_MATCH_SIZE_def)

lemma clamp_le: "clamp_to_last_literals e i n \<le> n"
  by (simp add: clamp_to_last_literals_def)

lemma to_s32_less: "to_s32 x < 2147483648"
proof -
  have a: "x mod 4294967296 < 4294967296" by simp
  show ?thesis unfolding to_s32_def using a by (auto; linarith)
qed

text \<open>
  C5 (amended): in favor-speed mode, for a candidate shorter than 1000 whose length, clamped to
  leave the last 5 bytes, is \<open>n\<close>: when \<open>18 < n \<le> 36\<close> the parser costs the lengths 4..18 only
  (the length is cut to 18), otherwise it costs 4..n. Whatever it stores at the position is a
  literal or one of these lengths, and no costed length is cheaper than what it stores.
\<close>

theorem C5_favor_speed_shortening:
  assumes "flags AND LZ4ULTRA_FLAG_FAVOR_RATIO = 0"
    and "MIN_MATCH_SIZE \<le> length_m (ps_match st i)"
    and "length_m (ps_match st i) < LEAVE_ALONE_MATCH_SIZE"
    and "n = clamp_to_last_literals nEndOffset i (to_s32 (length_m (ps_match st i)))"
    and "nTop = (if 18 < n \<and> n \<le> 36 then 18 else n)"
    and "st' = parse_step flags nEndOffset i st"
  shows "(length_m (ps_match st' i) = 0 \<or>
          (4 \<le> length_m (ps_match st' i) \<and> length_m (ps_match st' i) \<le> nTop)) \<and>
         (\<forall>k. 4 \<le> k \<and> k \<le> nTop \<longrightarrow>
            lex_le (ps_cost st' i, ps_score st' i)
              (choice_key (match_choice st 5 i (to_s32 (offset_m (ps_match st i))) k)))"
proof -
  let ?b = "best_at flags nEndOffset i st"
  let ?m = "ps_match st i"
  have T: "examined_trims flags nEndOffset i ?m = {4 .. nTop}"
    using assms(1-5) by (simp add: examined_trims_def shorten_for_speed_cases MIN_MATCH_SIZE_def)
  have e: "extra_match_score flags = 5" using assms(1) by (simp add: extra_match_score_def)
  have key: "(ps_cost st' i, ps_score st' i) = choice_key ?b"
    by (simp add: assms(6) parse_step_at choice_key_def)
  have top_lt: "nTop < 2147483648"
    using assms(4,5) clamp_le[of nEndOffset i "to_s32 (length_m ?m)"] to_s32_less[of "length_m ?m"]
    by (simp split: if_splits)
  have "?b = literal_choice st i \<or>
        (\<exists>k \<in> {4 .. nTop}. ?b = match_choice st 5 i (to_s32 (offset_m ?m)) k)"
    using best_at_spec(3)[of flags nEndOffset i st] unfolding T e .
  then have "nBestMatchLen ?b = 0 \<or> (4 \<le> nBestMatchLen ?b \<and> nBestMatchLen ?b \<le> nTop)"
    by (auto simp: literal_choice_def Let_def match_choice_def)
  then have "to_u32 (nBestMatchLen ?b) = nBestMatchLen ?b"
    using top_lt by (auto simp: to_u32_id)
  then have A: "length_m (ps_match st' i) = 0 \<or>
      (4 \<le> length_m (ps_match st' i) \<and> length_m (ps_match st' i) \<le> nTop)"
    using \<open>nBestMatchLen ?b = 0 \<or> (4 \<le> nBestMatchLen ?b \<and> nBestMatchLen ?b \<le> nTop)\<close>
    by (simp add: assms(6) parse_step_at)
  have B: "\<forall>k. 4 \<le> k \<and> k \<le> nTop \<longrightarrow>
      lex_le (ps_cost st' i, ps_score st' i)
        (choice_key (match_choice st 5 i (to_s32 (offset_m ?m)) k))"
    using best_at_spec(2)[of flags nEndOffset i st] unfolding T e key by simp
  from A B show ?thesis by blast
qed

theorem C5_favor_speed_shortening_witness:
  "(length_m (ps_match (parse_step 0 120 10 c5_witness_state) 10) = 0 \<or>
    (4 \<le> length_m (ps_match (parse_step 0 120 10 c5_witness_state) 10) \<and>
     length_m (ps_match (parse_step 0 120 10 c5_witness_state) 10) \<le> 18)) \<and>
   lex_le (ps_cost (parse_step 0 120 10 c5_witness_state) 10,
              ps_score (parse_step 0 120 10 c5_witness_state) 10)
        (choice_key (match_choice c5_witness_state 5 10
           (to_s32 (offset_m (ps_match c5_witness_state 10))) 4)) \<and>
   lex_le (ps_cost (parse_step 0 120 10 c5_witness_state) 10,
              ps_score (parse_step 0 120 10 c5_witness_state) 10)
        (choice_key (match_choice c5_witness_state 5 10
           (to_s32 (offset_m (ps_match c5_witness_state 10))) 18))"
proof -
  have h1: "(0::int) AND LZ4ULTRA_FLAG_FAVOR_RATIO = 0" by simp
  have h2: "MIN_MATCH_SIZE \<le> length_m (ps_match c5_witness_state 10)"
    by (simp add: c5_witness_state_def c5_match_def MIN_MATCH_SIZE_def)
  have h3: "length_m (ps_match c5_witness_state 10) < LEAVE_ALONE_MATCH_SIZE"
    by (simp add: c5_witness_state_def c5_match_def LEAVE_ALONE_MATCH_SIZE_def)
  have h4: "(20::int) = clamp_to_last_literals 120 10 (to_s32 (length_m (ps_match c5_witness_state 10)))"
    by (simp add: c5_witness_state_def c5_match_def clamp_to_last_literals_def to_s32_def
        LAST_LITERALS_def)
  have h5: "(18::int) = (if 18 < (20::int) \<and> (20::int) \<le> 36 then 18 else 20)" by simp
  have k: "(4::int) \<le> 4 \<and> (4::int) \<le> 18" "(4::int) \<le> 18 \<and> (18::int) \<le> 18" by simp_all
  from C5_favor_speed_shortening[OF h1 h2 h3 h4 h5 refl] k
  show ?thesis by blast
qed

section \<open>Frame header\<close>

lemmas xxh_defs = XXH32_def XXH32_avalanche_def PRIME32_1_def PRIME32_2_def PRIME32_3_def
  PRIME32_4_def PRIME32_5_def XXH_rotl32_def

text \<open>
  C8 (as stated): the decoder rejects every perturbation of an accepted header. The header that
  the encoder writes for block code 4 and dependent blocks is accepted; so is the same header with
  one bit of the flags byte flipped (the 8-bit checksum of the two bytes is again 0xC0), and so is
  the different header of block code 5.
\<close>

theorem C8_counterexample:
  "lz4ultra_encode_header 16 4 0 = (7, c8_header) \<and>
   fst (lz4ultra_decode_header c8_header) = LZ4ULTRA_DECODE_OK \<and>
   c8_bit_flipped \<noteq> c8_header \<and>
   fst (lz4ultra_decode_header c8_bit_flipped) = LZ4ULTRA_DECODE_OK \<and>
   c8_other_header \<noteq> c8_header \<and>
   fst (lz4ultra_decode_header c8_other_header) = LZ4ULTRA_DECODE_OK"
  by (simp add: lz4ultra_encode_header_def lz4ultra_decode_header_def c8_header_def
      c8_bit_flipped_def c8_other_header_def xxh_defs Let_def)

lemma uint_ucast_byte: "uint (ucast (a :: byte) :: 32 word) = uint a"
proof -
  have "uint a < 2 ^ 8" using uint_lt2p[of a] by simp
  then have "uint a < 2 ^ 32" by simp
  then have "take_bit 32 (uint a) = uint a" by (simp add: take_bit_int_eq_self)
  then show ?thesis by (simp add: unsigned_ucast_eq)
qed

lemma ucast_byte_inj: "(ucast (a :: byte) :: 32 word) = ucast (b :: byte) \<Longrightarrow> a = b"
proof -
  assume "(ucast a :: 32 word) = ucast b"
  then have "uint (ucast a :: 32 word) = uint (ucast b :: 32 word)" by simp
  then have "uint a = uint b" by (simp only: uint_ucast_byte)
  then show "a = b" by (rule word_uint_eqI)
qed

lemma ff_mask: "(0xff :: 32 word) = mask 8"
  by (simp add: mask_eq_exp_minus_1)

lemma ucast_ucast_ff: "(ucast (ucast (x AND 0xff :: 32 word) :: 8 word) :: 32 word) = x AND 0xff"
  unfolding ff_mask by (rule bit_word_eqI) (auto simp: bit_simps)

lemma decode_header_ok_iff:
  "fst (lz4ultra_decode_header H) = LZ4ULTRA_DECODE_OK \<longleftrightarrow>
   length H = 7 \<and> H ! 0 = 0x04 \<and> H ! 1 = 0x22 \<and> H ! 2 = 0x4D \<and> H ! 3 = 0x18 \<and>
   (H ! 4) AND 0xc0 = 0x40 \<and> (H ! 5) AND 0x0f = 0 \<and>
   drop_bit 8 (XXH32 [H ! 4, H ! 5] 0) AND 0xff = ucast (H ! 6)"
  by (auto simp: lz4ultra_decode_header_def Let_def LZ4ULTRA_DECODE_OK_def
      LZ4ULTRA_DECODE_ERR_FORMAT_def LZ4ULTRA_DECODE_ERR_SUM_def)

lemma decode_header_status:
  "fst (lz4ultra_decode_header H) = LZ4ULTRA_DECODE_OK \<or>
   fst (lz4ultra_decode_header H) = LZ4ULTRA_DECODE_ERR_FORMAT \<or>
   fst (lz4ultra_decode_header H) = LZ4ULTRA_DECODE_ERR_SUM"
  by (auto simp: lz4ultra_decode_header_def Let_def)

lemma accepted_headers_equal:
  assumes H: "fst (lz4ultra_decode_header H) = LZ4ULTRA_DECODE_OK"
    and H': "fst (lz4ultra_decode_header H') = LZ4ULTRA_DECODE_OK"
    and eq: "H' ! 4 = H ! 4" "H' ! 5 = H ! 5"
  shows "H' = H"
proof (rule nth_equalityI)
  show "length H' = length H" using H H' by (simp add: decode_header_ok_iff)
next
  fix i assume "i < length H'"
  then have "i < 7" using H' by (simp add: decode_header_ok_iff)
  then have i: "i = 0 \<or> i = 1 \<or> i = 2 \<or> i = 3 \<or> i = 4 \<or> i = 5 \<or> i = 6" by arith
  have "(ucast (H' ! 6) :: 32 word) = ucast (H ! 6)"
    using H H' eq by (simp add: decode_header_ok_iff)
  then have "H' ! 6 = H ! 6" by (rule ucast_byte_inj)
  then show "H' ! i = H ! i"
    using i H H' eq by (auto simp: decode_header_ok_iff)
qed

lemma encode_header_accepted:
  assumes "nMax \<ge> 7" "4 \<le> code" "code \<le> 7"
  shows "lz4ultra_decode_header (snd (lz4ultra_encode_header nMax code indep)) =
         (LZ4ULTRA_DECODE_OK, Some (code, if indep \<noteq> 0 then 1 else 0))"
proof -
  have "code = 4 \<or> code = 5 \<or> code = 6 \<or> code = 7" using assms(2,3) by arith
  then show ?thesis using assms(1)
    by (auto simp: lz4ultra_encode_header_def lz4ultra_decode_header_def Let_def ucast_ucast_ff)
qed

lemma decode_header_same_frame:
  assumes H: "fst (lz4ultra_decode_header H) = LZ4ULTRA_DECODE_OK"
    and len: "length H' = 7"
    and same: "H' ! 0 = H ! 0" "H' ! 1 = H ! 1" "H' ! 2 = H ! 2" "H' ! 3 = H ! 3" "H' ! 6 = H ! 6"
  shows "fst (lz4ultra_decode_header H') = LZ4ULTRA_DECODE_OK \<longleftrightarrow>
         (H' ! 4) AND 0xc0 = 0x40 \<and> (H' ! 5) AND 0x0f = 0 \<and>
         drop_bit 8 (XXH32 [H' ! 4, H' ! 5] 0) AND 0xff = drop_bit 8 (XXH32 [H ! 4, H ! 5] 0) AND 0xff"
  using H len same by (auto simp: decode_header_ok_iff)

text \<open>
  C8 (amended): the seventh byte of every header that \<open>lz4ultra_encode_header\<close> writes is
  \<open>(XXH32(bytes 4 and 5, seed 0) >> 8) & 0xff\<close>, and the decoder accepts that header and returns
  its block code and independence flag. The decoder accepts a header \<open>H'\<close> exactly when it has 7
  bytes, the magic number, the version bits \<open>01\<close>, a zero low nibble in byte 5 and, as byte 6, that
  checksum of its bytes 4 and 5; anything else gets a format or checksum error. So for a header \<open>H\<close>
  the decoder accepts: every \<open>H' \<noteq> H\<close> of another length or with the bytes 4 and 5 of \<open>H\<close> (an altered
  magic number or checksum byte) is rejected, and an \<open>H'\<close> that differs from \<open>H\<close> in the bytes 4 and 5
  only is rejected exactly when it breaks the version bits or the low nibble of byte 5, or when
  the 8-bit checksum of its bytes 4 and 5 differs from that of \<open>H\<close>.
\<close>

theorem C8_header_checksum:
  "(7 \<le> nMax \<and> 4 \<le> code \<and> code \<le> 7 \<longrightarrow>
      fst (lz4ultra_encode_header nMax code indep) = 7 \<and>
      snd (lz4ultra_encode_header nMax code indep) ! 6 =
        ucast (drop_bit 8 (XXH32 [snd (lz4ultra_encode_header nMax code indep) ! 4,
                                   snd (lz4ultra_encode_header nMax code indep) ! 5] 0) AND 0xff) \<and>
      lz4ultra_decode_header (snd (lz4ultra_encode_header nMax code indep)) =
        (LZ4ULTRA_DECODE_OK, Some (code, if indep \<noteq> 0 then 1 else 0))) \<and>
   (fst (lz4ultra_decode_header H') = LZ4ULTRA_DECODE_OK \<longleftrightarrow>
      length H' = 7 \<and> H' ! 0 = 0x04 \<and> H' ! 1 = 0x22 \<and> H' ! 2 = 0x4D \<and> H' ! 3 = 0x18 \<and>
      (H' ! 4) AND 0xc0 = 0x40 \<and> (H' ! 5) AND 0x0f = 0 \<and>
      drop_bit 8 (XXH32 [H' ! 4, H' ! 5] 0) AND 0xff = ucast (H' ! 6)) \<and>
   (fst (lz4ultra_decode_header H') \<noteq> LZ4ULTRA_DECODE_OK \<longrightarrow>
      fst (lz4ultra_decode_header H') = LZ4ULTRA_DECODE_ERR_FORMAT \<or>
      fst (lz4ultra_decode_header H') = LZ4ULTRA_DECODE_ERR_SUM) \<and>
   (fst (lz4ultra_decode_header H) = LZ4ULTRA_DECODE_OK \<and> H' \<noteq> H \<and>
    (length H' \<noteq> 7 \<or> (H' ! 4 = H ! 4 \<and> H' ! 5 = H ! 5)) \<longrightarrow>
      fst (lz4ultra_decode_header H') \<noteq> LZ4ULTRA_DECODE_OK) \<and>
   (fst (lz4ultra_decode_header H) = LZ4ULTRA_DECODE_OK \<and> length H' = 7 \<and>
    H' ! 0 = H ! 0 \<and> H' ! 1 = H ! 1 \<and> H' ! 2 = H ! 2 \<and> H' ! 3 = H ! 3 \<and> H' ! 6 = H ! 6 \<longrightarrow>
      (fst (lz4ultra_decode_header H') \<noteq> LZ4ULTRA_DECODE_OK \<longleftrightarrow>
         (H' ! 4) AND 0xc0 \<noteq> 0x40 \<or> (H' ! 5) AND 0x0f \<noteq> 0 \<or>
         drop_bit 8 (XXH32 [H' ! 4, H' ! 5] 0) AND 0xff \<noteq>
           drop_bit 8 (XXH32 [H ! 4, H ! 5] 0) AND 0xff))"
proof (intro conjI impI)
  assume a: "7 \<le> nMax \<and> 4 \<le> code \<and> code \<le> 7"
  then show "fst (lz4ultra_encode_header nMax code indep) = 7"
    by (simp add: lz4ultra_encode_header_def Let_def)
  show "snd (lz4ultra_encode_header nMax code indep) ! 6 =
        ucast (drop_bit 8 (XXH32 [snd (lz4ultra_encode_header nMax code indep) ! 4,
                                   snd (lz4ultra_encode_header nMax code indep) ! 5] 0) AND 0xff)"
    using a by (simp add: lz4ultra_encode_header_def Let_def)
  show "lz4ultra_decode_header (snd (lz4ultra_encode_header nMax code indep)) =
        (LZ4ULTRA_DECODE_OK, Some (code, if indep \<noteq> 0 then 1 else 0))"
    using a by (intro encode_header_accepted) auto
next
  show "fst (lz4ultra_decode_header H') = LZ4ULTRA_DECODE_OK \<longleftrightarrow>
      length H' = 7 \<and> H' ! 0 = 0x04 \<and> H' ! 1 = 0x22 \<and> H' ! 2 = 0x4D \<and> H' ! 3 = 0x18 \<and>
      (H' ! 4) AND 0xc0 = 0x40 \<and> (H' ! 5) AND 0x0f = 0 \<and>
      drop_bit 8 (XXH32 [H' ! 4, H' ! 5] 0) AND 0xff = ucast (H' ! 6)"
    by (rule decode_header_ok_iff)
next
  assume "fst (lz4ultra_decode_header H') \<noteq> LZ4ULTRA_DECODE_OK"
  then show "fst (lz4ultra_decode_header H') = LZ4ULTRA_DECODE_ERR_FORMAT \<or>
      fst (lz4ultra_decode_header H') = LZ4ULTRA_DECODE_ERR_SUM"
    using decode_header_status[of H'] by blast
next
  assume a: "fst (lz4ultra_decode_header H) = LZ4ULTRA_DECODE_OK \<and> H' \<noteq> H \<and>
    (length H' \<noteq> 7 \<or> (H' ! 4 = H ! 4 \<and> H' ! 5 = H ! 5))"
  show "fst (lz4ultra_decode_header H') \<noteq> LZ4ULTRA_DECODE_OK"
  proof
    assume ok: "fst (lz4ultra_decode_header H') = LZ4ULTRA_DECODE_OK"
    then have "length H' = 7" by (simp add: decode_header_ok_iff)
    with a have "H' ! 4 = H ! 4" "H' ! 5 = H ! 5" by auto
    from accepted_headers_equal[OF _ ok this] a show False by simp
  qed
next
  assume a: "fst (lz4ultra_decode_header H) = LZ4ULTRA_DECODE_OK \<and> length H' = 7 \<and>
    H' ! 0 = H ! 0 \<and> H' ! 1 = H ! 1 \<and> H' ! 2 = H ! 2 \<and> H' ! 3 = H ! 3 \<and> H' ! 6 = H ! 6"
  then have "fst (lz4ultra_decode_header H') = LZ4ULTRA_DECODE_OK \<longleftrightarrow>
         (H' ! 4) AND 0xc0 = 0x40 \<and> (H' ! 5) AND 0x0f = 0 \<and>
         drop_bit 8 (XXH32 [H' ! 4, H' ! 5] 0) AND 0xff = drop_bit 8 (XXH32 [H ! 4, H ! 5] 0) AND 0xff"
    by (intro decode_header_same_frame) simp_all
  then show "fst (lz4ultra_decode_header H') \<noteq> LZ4ULTRA_DECODE_OK \<longleftrightarrow>
         (H' ! 4) AND 0xc0 \<noteq> 0x40 \<or> (H' ! 5) AND 0x0f \<noteq> 0 \<or>
         drop_bit 8 (XXH32 [H' ! 4, H' ! 5] 0) AND 0xff \<noteq>
           drop_bit 8 (XXH32 [H ! 4, H ! 5] 0) AND 0xff"
    by blast
qed

text \<open>
  The header of block code 4 and dependent blocks, \<open>04 22 4D 18 40 40 C0\<close>: with the magic number
  altered it is rejected; with the independence bit set (\<open>60\<close>) the checksum of the bytes 4 and 5
  is \<open>82\<close> and no longer \<open>C0\<close>, and the header is rejected.
\<close>

theorem C8_header_checksum_witness:
  "fst (lz4ultra_encode_header 16 4 0) = 7 \<and>
   lz4ultra_decode_header (snd (lz4ultra_encode_header 16 4 0)) = (LZ4ULTRA_DECODE_OK, Some (4, 0)) \<and>
   (fst (lz4ultra_decode_header [0x05, 0x22, 0x4D, 0x18, 0x40, 0x40, 0xC0]) = LZ4ULTRA_DECODE_ERR_FORMAT \<or>
    fst (lz4ultra_decode_header [0x05, 0x22, 0x4D, 0x18, 0x40, 0x40, 0xC0]) = LZ4ULTRA_DECODE_ERR_SUM) \<and>
   drop_bit 8 (XXH32 [0x60, 0x40] 0) AND 0xff = 0x82 \<and>
   (fst (lz4ultra_decode_header [0x04, 0x22, 0x4D, 0x18, 0x60, 0x40, 0xC0]) = LZ4ULTRA_DECODE_ERR_FORMAT \<or>
    fst (lz4ultra_decode_header [0x04, 0x22, 0x4D, 0x18, 0x60, 0x40, 0xC0]) = LZ4ULTRA_DECODE_ERR_SUM)"
proof -
  have ok: "fst (lz4ultra_decode_header c8_header) = LZ4ULTRA_DECODE_OK"
    by (simp add: lz4ultra_decode_header_def c8_header_def xxh_defs Let_def)
  have ne: "[0x05, 0x22, 0x4D, 0x18, 0x40, 0x40, 0xC0] \<noteq> c8_header"
    by (simp add: c8_header_def)
  have same: "[0x05, 0x22, 0x4D, 0x18, 0x40, 0x40, 0xC0 :: byte] ! 4 = c8_header ! 4 \<and>
              [0x05, 0x22, 0x4D, 0x18, 0x40, 0x40, 0xC0 :: byte] ! 5 = c8_header ! 5"
    by (simp add: c8_header_def)
  have x60: "drop_bit 8 (XXH32 [0x60, 0x40] 0) AND 0xff = 0x82" by (simp add: xxh_defs Let_def)
  have x40: "drop_bit 8 (XXH32 [0x40, 0x40] 0) AND 0xff = 0xC0" by (simp add: xxh_defs Let_def)
  have frame: "length [0x04, 0x22, 0x4D, 0x18, 0x60, 0x40, 0xC0 :: byte] = 7 \<and>
      [0x04, 0x22, 0x4D, 0x18, 0x60, 0x40, 0xC0 :: byte] ! 0 = c8_header ! 0 \<and>
      [0x04, 0x22, 0x4D, 0x18, 0x60, 0x40, 0xC0 :: byte] ! 1 = c8_header ! 1 \<and>
      [0x04, 0x22, 0x4D, 0x18, 0x60, 0x40, 0xC0 :: byte] ! 2 = c8_header ! 2 \<and>
      [0x04, 0x22, 0x4D, 0x18, 0x60, 0x40, 0xC0 :: byte] ! 3 = c8_header ! 3 \<and>
      [0x04, 0x22, 0x4D, 0x18, 0x60, 0x40, 0xC0 :: byte] ! 6 = c8_header ! 6"
    by (simp add: c8_header_def)
  have sums: "drop_bit 8 (XXH32 [[0x04, 0x22, 0x4D, 0x18, 0x60, 0x40, 0xC0 :: byte] ! 4,
                                  [0x04, 0x22, 0x4D, 0x18, 0x60, 0x40, 0xC0 :: byte] ! 5] 0) AND 0xff \<noteq>
              drop_bit 8 (XXH32 [c8_header ! 4, c8_header ! 5] 0) AND 0xff"
    using x60 x40 by (simp add: c8_header_def)
  note T1 = C8_header_checksum[of 16 4 0 "[0x05, 0x22, 0x4D, 0x18, 0x40, 0x40, 0xC0]" c8_header]
  note T2 = C8_header_checksum[of 16 4 0 "[0x04, 0x22, 0x4D, 0x18, 0x60, 0x40, 0xC0]" c8_header]
  have a: "fst (lz4ultra_encode_header 16 4 0) = 7"
    "lz4ultra_decode_header (snd (lz4ultra_encode_header 16 4 0)) = (LZ4ULTRA_DECODE_OK, Some (4, 0))"
    using T1 by simp_all
  have "fst (lz4ultra_decode_header [0x05, 0x22, 0x4D, 0x18, 0x40, 0x40, 0xC0]) \<noteq> LZ4ULTRA_DECODE_OK"
    using T1 ok ne same by blast
  then have b: "fst (lz4ultra_decode_header [0x05, 0x22, 0x4D, 0x18, 0x40, 0x40, 0xC0]) = LZ4ULTRA_DECODE_ERR_FORMAT \<or>
    fst (lz4ultra_decode_header [0x05, 0x22, 0x4D, 0x18, 0x40, 0x40, 0xC0]) = LZ4ULTRA_DECODE_ERR_SUM"
    using T1 by blast
  have c: "fst (lz4ultra_decode_header [0x04, 0x22, 0x4D, 0x18, 0x60, 0x40, 0xC0]) \<noteq> LZ4ULTRA_DECODE_OK"
    using T2 ok frame sums by blast
  then have d: "fst (lz4ultra_decode_header [0x04, 0x22, 0x4D, 0x18, 0x60, 0x40, 0xC0]) = LZ4ULTRA_DECODE_ERR_FORMAT \<or>
    fst (lz4ultra_decode_header [0x04, 0x22, 0x4D, 0x18, 0x60, 0x40, 0xC0]) = LZ4ULTRA_DECODE_ERR_SUM"
    using T2 by blast
  show ?thesis using a b x60 d by blast
qed

section \<open>Block size selection\<close>

text \<open>
  C9 (as stated): an 80 KB input with the block code 7 is given the code 4 (64 KiB). The driver
  stops at the code 5: 65536 is not larger than 81920.
\<close>

theorem C9_counterexample:
  "compress_stream_block_size 0 7 81920 = (5, 18, 262144)"
  by (simp add: compress_stream_block_size_def LZ4ULTRA_FLAG_LEGACY_FRAMES_def Let_def
      reduce_block_code.simps)

lemma reduce_block_code_spec:
  assumes "4 \<le> c" "0 \<le> n" "n < block_size_of_code c"
  shows "case reduce_block_code c n of (c', bits, sz) \<Rightarrow>
           4 \<le> c' \<and> c' \<le> c \<and> bits = 8 + 2 * c' \<and> sz = block_size_of_code c' \<and>
           n < block_size_of_code c' \<and> (4 < c' \<longrightarrow> block_size_of_code (c' - 1) \<le> n)"
  using assms
proof (induction c n rule: reduce_block_code.induct)
  case (1 c n)
  show ?case
  proof (cases "c > 4 \<and> block_size_of_code (c - 1) > n")
    case True
    then have eq: "reduce_block_code c n = reduce_block_code (c - 1) n"
      by (subst reduce_block_code.simps) (simp add: Let_def block_size_of_code_def)
    have "case reduce_block_code (c - 1) n of (c', bits, sz) \<Rightarrow>
           4 \<le> c' \<and> c' \<le> c - 1 \<and> bits = 8 + 2 * c' \<and> sz = block_size_of_code c' \<and>
           n < block_size_of_code c' \<and> (4 < c' \<longrightarrow> block_size_of_code (c' - 1) \<le> n)"
      using True 1(3) by (intro 1(1)[OF refl refl refl refl]) (auto simp: block_size_of_code_def)
    then show ?thesis unfolding eq by auto
  next
    case False
    then have eq: "reduce_block_code c n = (c, 8 + 2 * c, block_size_of_code c)"
      by (subst reduce_block_code.simps) (auto simp: Let_def block_size_of_code_def)
    show ?thesis unfolding eq using False 1(2,4) by auto
  qed
qed


lemma block_size_of_code_mono: "0 \<le> c \<Longrightarrow> c \<le> d \<Longrightarrow> block_size_of_code c \<le> block_size_of_code d"
  by (simp add: block_size_of_code_def push_bit_eq_mult)

text \<open>
  At an input of exactly 64 KiB the loop stops at the code 5: the block size of the code 4 is not
  strictly larger than the input.
\<close>

lemma block_code_at_block_size:
  "compress_stream_block_size 0 7 65536 = (5, 18, 262144)"
  by (simp add: compress_stream_block_size_def LZ4ULTRA_FLAG_LEGACY_FRAMES_def Let_def
      reduce_block_code.simps)

text \<open>
  C9 (amended): for every non-legacy compression with a legal block code whose whole input is
  shorter than the requested block size, and is not exactly as long as the block of a smaller
  code, the streaming driver selects the smallest code \<open>\<ge> 4\<close> whose block size covers the input
  read in the first preload (an 80 KB input with the code 7 gets the code 5, 256 KiB: 64 KiB do
  not cover it). When \<open>LZ4ULTRA_FLAG_RAW_BLOCK\<close> is clear the code it selects is the one given to the
  header encoder, stored in byte 5 of the stream header and returned by the header decoder; a
  raw-block compression encodes no header.
\<close>

theorem C9_block_code_selection:
  assumes "nFlags AND LZ4ULTRA_FLAG_LEGACY_FRAMES = 0"
    and "4 \<le> nBlockMaxCode" and "nBlockMaxCode \<le> 7"
    and "0 \<le> nInputSize" and "nInputSize < block_size_of_code nBlockMaxCode"
    and "\<forall>c. 4 \<le> c \<and> c < nBlockMaxCode \<longrightarrow> nInputSize \<noteq> block_size_of_code c"
  shows "case compress_stream_block_size nFlags nBlockMaxCode nInputSize of (c', bits, sz) \<Rightarrow>
           4 \<le> c' \<and> c' \<le> nBlockMaxCode \<and> sz = block_size_of_code c' \<and> nInputSize \<le> sz \<and>
           (\<forall>c. 4 \<le> c \<and> c < c' \<longrightarrow> block_size_of_code c < nInputSize) \<and>
           (nFlags AND LZ4ULTRA_FLAG_RAW_BLOCK = 0 \<longrightarrow>
              (\<exists>H. compress_stream_header nFlags nBlockMaxCode nInputSize = Some (7, H) \<and>
                   H ! 5 = word_of_int (push_bit 4 c') \<and>
                   lz4ultra_decode_header H =
                     (LZ4ULTRA_DECODE_OK,
                      Some (c', if nFlags AND LZ4ULTRA_FLAG_INDEP_BLOCKS \<noteq> 0 then 1 else 0)))) \<and>
           (nFlags AND LZ4ULTRA_FLAG_RAW_BLOCK \<noteq> 0 \<longrightarrow>
              compress_stream_header nFlags nBlockMaxCode nInputSize = None)"
proof -
  obtain c' bits sz where r: "reduce_block_code nBlockMaxCode nInputSize = (c', bits, sz)"
    by (metis prod_cases3)
  have sel: "compress_stream_block_size nFlags nBlockMaxCode nInputSize = (c', bits, sz)"
    using assms(1,5) r
    by (simp add: compress_stream_block_size_def Let_def block_size_of_code_def min_def)
  from reduce_block_code_spec[OF assms(2,4,5)] r
  have p: "4 \<le> c'" "c' \<le> nBlockMaxCode" "sz = block_size_of_code c'"
    "nInputSize < block_size_of_code c'" "4 < c' \<longrightarrow> block_size_of_code (c' - 1) \<le> nInputSize"
    by auto
  have least: "\<forall>c. 4 \<le> c \<and> c < c' \<longrightarrow> block_size_of_code c < nInputSize"
  proof (intro allI impI)
    fix c assume c: "4 \<le> c \<and> c < c'"
    then have "block_size_of_code c \<le> block_size_of_code (c' - 1)"
      by (intro block_size_of_code_mono) auto
    moreover have "block_size_of_code (c' - 1) \<le> nInputSize" using p(5) c by auto
    moreover have "nInputSize \<noteq> block_size_of_code c" using assms(6) c p(2) by auto
    ultimately show "block_size_of_code c < nInputSize" by simp
  qed
  let ?indep = "if nFlags AND LZ4ULTRA_FLAG_INDEP_BLOCKS \<noteq> 0 then 1 else (0::int)"
  let ?H = "snd (lz4ultra_encode_header 16 c' ?indep)"
  have c7: "c' \<le> 7" using p(2) assms(3) by simp
  have enc: "lz4ultra_encode_header 16 c' ?indep = (7, ?H)"
    by (simp add: lz4ultra_encode_header_def Let_def)
  have hdr: "nFlags AND LZ4ULTRA_FLAG_RAW_BLOCK = 0 \<Longrightarrow>
             compress_stream_header nFlags nBlockMaxCode nInputSize = Some (7, ?H)"
    using assms(1) enc
    by (simp add: compress_stream_header_def lz4ultra_encode_header_flags_def sel Let_def)
  have nohdr: "nFlags AND LZ4ULTRA_FLAG_RAW_BLOCK \<noteq> 0 \<Longrightarrow>
             compress_stream_header nFlags nBlockMaxCode nInputSize = None"
    using assms(1) by (simp add: compress_stream_header_def Let_def)
  have dec: "lz4ultra_decode_header ?H = (LZ4ULTRA_DECODE_OK, Some (c', ?indep))"
    using encode_header_accepted[of 16 c' ?indep, OF _ p(1) c7] by simp
  have b5: "?H ! 5 = word_of_int (push_bit 4 c')"
    by (simp add: lz4ultra_encode_header_def Let_def)
  have h: "nFlags AND LZ4ULTRA_FLAG_RAW_BLOCK = 0 \<longrightarrow>
              (\<exists>H. compress_stream_header nFlags nBlockMaxCode nInputSize = Some (7, H) \<and>
                   H ! 5 = word_of_int (push_bit 4 c') \<and>
                   lz4ultra_decode_header H = (LZ4ULTRA_DECODE_OK, Some (c', ?indep)))"
    using hdr dec b5 by blast
  show ?thesis unfolding sel using p least h nohdr by simp
qed

theorem C9_block_code_selection_witness:
  "fst (compress_stream_block_size 0 7 81920) = 5 \<and>
   block_size_of_code 4 < 81920 \<and> 81920 \<le> block_size_of_code 5 \<and>
   (\<exists>H. compress_stream_header 0 7 81920 = Some (7, H) \<and> H ! 5 = word_of_int (push_bit 4 5) \<and>
        lz4ultra_decode_header H = (LZ4ULTRA_DECODE_OK, Some (5, 0)))"
proof -
  have h1: "(0::int) AND LZ4ULTRA_FLAG_LEGACY_FRAMES = 0" by simp
  have h: "(4::int) \<le> 7" "(7::int) \<le> 7" "(0::int) \<le> 81920" by simp_all
  have h5: "81920 < block_size_of_code 7" by (simp add: block_size_of_code_def)
  have h6: "\<forall>c. 4 \<le> c \<and> c < 7 \<longrightarrow> 81920 \<noteq> block_size_of_code c"
  proof (intro allI impI)
    fix c :: int assume "4 \<le> c \<and> c < 7"
    then have "c = 4 \<or> c = 5 \<or> c = 6" by arith
    then show "81920 \<noteq> block_size_of_code c" by (auto simp: block_size_of_code_def)
  qed
  have v: "compress_stream_block_size 0 7 81920 = (5, 18, 262144)"
    by (simp add: compress_stream_block_size_def LZ4ULTRA_FLAG_LEGACY_FRAMES_def Let_def
      reduce_block_code.simps)
  have c: "(4::int) \<le> 4 \<and> (4::int) < 5" by simp
  have raw: "(0::int) AND LZ4ULTRA_FLAG_RAW_BLOCK = 0" by simp
  from C9_block_code_selection[OF h1 h h5 h6] c raw show ?thesis
    unfolding v by (simp add: LZ4ULTRA_FLAG_INDEP_BLOCKS_def)
qed

section \<open>The parser over a block\<close>

text \<open>
  C2 (as stated): the parse has the minimum total cost among the sequences obtainable from the
  candidates. For the example window, in favor-ratio mode, the parser keeps the match at 4 and the
  match at 8 (cut to 5): literals 0..3, match 4, match 5, literals 13..19. Taking literals up to 6
  and the match of 6 at position 7 is obtainable too and costs one bit less (one mode switch
  fewer, the same number of bytes).
\<close>

theorem C2_counterexample:
  "parse_commands (ps_match c2_state) 0 20 =
     replicate 4 Literal @ [Match 4, Match 5] @ replicate 7 Literal \<and>
   obtainable c2_match 0 20 c2_alternative \<and>
   sequence_cost True 0 (parse_commands (ps_match c2_state) 0 20) = 146 \<and>
   sequence_cost True 0 c2_alternative = 145"
  unfolding c2_state_def c2_alternative_def parse_commands_def by code_simp

lemma parse_loop_stop: "i \<le> s - 1 \<Longrightarrow> parse_loop flags s e i st = st"
  by (subst parse_loop.simps) simp

lemma parse_loop_unfold:
  "\<not> i \<le> s - 1 \<Longrightarrow>
   parse_loop flags s e i st = parse_loop flags s e (i - 1) (parse_step flags e i st)"
  by (subst parse_loop.simps) simp

lemma parse_loop_frame:
  "i < j \<Longrightarrow> ps_cost (parse_loop flags s e i st) j = ps_cost st j \<and>
     ps_score (parse_loop flags s e i st) j = ps_score st j \<and>
     ps_match (parse_loop flags s e i st) j = ps_match st j"
proof (induction flags s e i st rule: parse_loop.induct)
  case (1 flags s e i st)
  show ?case
  proof (cases "i \<le> s - 1")
    case True
    then show ?thesis by (simp add: parse_loop_stop)
  next
    case False
    have "i - 1 < j" using 1(2) by simp
    from 1(1)[OF False this] show ?thesis
      unfolding parse_loop_unfold[OF False] using 1(2) by (simp add: parse_step_other)
  qed
qed

lemma parse_loop_below:
  "j < s \<Longrightarrow> ps_match (parse_loop flags s e i st) j = ps_match st j"
proof (induction flags s e i st rule: parse_loop.induct)
  case (1 flags s e i st)
  show ?case
  proof (cases "i \<le> s - 1")
    case True
    then show ?thesis by (simp add: parse_loop_stop)
  next
    case False
    from 1(1)[OF False 1(2)] show ?thesis
      unfolding parse_loop_unfold[OF False] using 1(2) False by (simp add: parse_step_other)
  qed
qed

lemma next_match_cong:
  "(\<And>x. j \<le> x \<Longrightarrow> ms x = ms' x) \<Longrightarrow> next_match ms j e = next_match ms' j e"
proof (induction ms j e rule: next_match.induct)
  case (1 ms j e)
  show ?case
  proof (cases "j \<ge> e")
    case True
    then show ?thesis by (simp add: next_match.simps)
  next
    case False
    have eqj: "ms j = ms' j" using 1(2) by simp
    show ?thesis
    proof (cases "length_m (ms j) \<ge> MIN_MATCH_SIZE")
      case True
      then show ?thesis using False eqj
        by (subst next_match.simps, subst (2) next_match.simps) simp
    next
      case F2: False
      have "next_match ms (j + 1) e = next_match ms' (j + 1) e"
        using 1(1)[OF False F2] 1(2) by simp
      then show ?thesis using False F2 eqj
        by (subst next_match.simps, subst (2) next_match.simps) simp
    qed
  qed
qed

lemma match_choice_cong:
  "ps_cost st (i + k) = ps_cost st' (i + k) \<Longrightarrow> ps_score st (i + k) = ps_score st' (i + k) \<Longrightarrow>
   ps_match st (i + k) = ps_match st' (i + k) \<Longrightarrow>
   match_choice st x i off k = match_choice st' x i off k"
  by (simp add: match_choice_def match_cur_cost_def)

lemma literal_choice_cong:
  "ps_cost st (i + 1) = ps_cost st' (i + 1) \<Longrightarrow> ps_score st (i + 1) = ps_score st' (i + 1) \<Longrightarrow>
   ps_match st (i + 1) = ps_match st' (i + 1) \<Longrightarrow>
   nLastLiteralsOffset st = nLastLiteralsOffset st' \<Longrightarrow>
   literal_choice st i = literal_choice st' i"
  by (simp add: literal_choice_def Let_def)


lemma examined_trims_range:
  assumes "length_m m \<ge> MIN_MATCH_SIZE \<longrightarrow> i + length_m m \<le> e - LAST_LITERALS"
    and "0 \<le> i" "e \<le> 2147483647" "k \<in> examined_trims flags e i m"
  shows "4 \<le> k \<and> k \<le> length_m m \<and> k < 2147483648"
proof -
  have ne: "length_m m \<ge> MIN_MATCH_SIZE" using assms(4)
    by (auto simp: examined_trims_def split: if_splits)
  then have l: "4 \<le> length_m m" "length_m m < 2147483648" "i + length_m m \<le> e - 5"
    using assms(1,2,3) by (auto simp: MIN_MATCH_SIZE_def LAST_LITERALS_def)
  then have s: "to_s32 (length_m m) = length_m m" by (simp add: to_s32_id)
  have c: "clamp_to_last_literals e i (length_m m) = length_m m"
    using l by (simp add: clamp_to_last_literals_def LAST_LITERALS_def)
  have sh: "shorten_for_speed flags (length_m m) \<le> length_m m"
    by (simp add: shorten_for_speed_def MATCH_RUN_LEN_def MIN_MATCH_SIZE_def)
  show ?thesis using assms(4) l sh
    by (auto simp: examined_trims_def s c MIN_MATCH_SIZE_def split: if_splits)
qed

lemma parse_step_recorded:
  assumes nl: "nLastLiteralsOffset st = next_match (ps_match st) (i + 1) e"
    and cl: "length_m (ps_match st i) \<ge> MIN_MATCH_SIZE \<longrightarrow>
             i + length_m (ps_match st i) \<le> e - LAST_LITERALS"
    and rng: "0 \<le> i" "e \<le> 2147483647"
    and F: "\<And>x. i \<le> x \<Longrightarrow> ps_cost F x = ps_cost (parse_step flags e i st) x \<and>
              ps_score F x = ps_score (parse_step flags e i st) x \<and>
              ps_match F x = ps_match (parse_step flags e i st) x"
  shows "recorded_choice_optimal flags e (ps_match st) F i"
proof -
  let ?st' = "parse_step flags e i st"
  let ?b = "best_at flags e i st"
  let ?T = "examined_trims flags e i (ps_match st i)"
  let ?off = "to_s32 (offset_m (ps_match st i))"
  let ?x = "extra_match_score flags"
  have agree: "\<And>x. i < x \<Longrightarrow> ps_cost F x = ps_cost st x \<and> ps_score F x = ps_score st x \<and>
      ps_match F x = ps_match st x"
    using F by (simp add: parse_step_other)
  have key: "(ps_cost F i, ps_score F i) = choice_key ?b"
    using F[of i] by (simp add: parse_step_at choice_key_def)
  have nm: "next_match (ps_match F) (i + 1) e = nLastLiteralsOffset st"
    unfolding nl by (rule next_match_cong) (use agree in simp)
  have lit: "literal_choice (F\<lparr>nLastLiteralsOffset := next_match (ps_match F) (i + 1) e\<rparr>) i =
             literal_choice st i"
    by (rule literal_choice_cong) (use agree[of "i + 1"] nm in simp_all)
  have opt: "\<And>k. k \<in> ?T \<Longrightarrow> match_choice F ?x i ?off k = match_choice st ?x i ?off k"
  proof -
    fix k assume "k \<in> ?T"
    then have "4 \<le> k" using examined_trims_range[OF cl rng] by blast
    then have "i < i + k" by simp
    from agree[OF this] show "match_choice F ?x i ?off k = match_choice st ?x i ?off k"
      by (intro match_choice_cong) simp_all
  qed
  have len: "length_m (ps_match F i) = to_u32 (nBestMatchLen ?b)"
    and off: "offset_m (ps_match F i) = to_u32 (nBestMatchOffset ?b)"
    using F[of i] by (simp_all add: parse_step_at)
  have A: "lex_le (choice_key ?b) (choice_key (literal_choice st i))"
    by (rule best_at_spec(1))
  have B: "\<forall>k \<in> ?T. lex_le (choice_key ?b) (choice_key (match_choice st ?x i ?off k))"
    by (rule best_at_spec(2))
  have C: "?b = literal_choice st i \<or> (\<exists>k \<in> ?T. ?b = match_choice st ?x i ?off k)"
    by (rule best_at_spec(3))
  have C': "(choice_key ?b = choice_key (literal_choice st i) \<and> length_m (ps_match F i) = 0) \<or>
      (\<exists>k \<in> ?T. choice_key ?b = choice_key (match_choice st ?x i ?off k) \<and>
          length_m (ps_match F i) = k \<and> offset_m (ps_match F i) = to_u32 ?off)"
  proof -
    from C consider (l) "?b = literal_choice st i"
      | (m) k where "k \<in> ?T" "?b = match_choice st ?x i ?off k" by blast
    then show ?thesis
    proof cases
      case l
      then have "nBestMatchLen ?b = 0" by (simp add: literal_choice_def Let_def)
      then show ?thesis using l len by (simp add: to_u32_def)
    next
      case m
      have r: "4 \<le> k \<and> k < 2147483648" using examined_trims_range[OF cl rng m(1)] by simp
      have "nBestMatchLen ?b = k" "nBestMatchOffset ?b = ?off"
        using m(2) by (simp_all add: match_choice_def)
      then have "length_m (ps_match F i) = k" "offset_m (ps_match F i) = to_u32 ?off"
        using len off r by (simp_all add: to_u32_id)
      then show ?thesis using m by (intro disjI2 bexI[of _ k]) simp_all
    qed
  qed
  show ?thesis
    unfolding recorded_choice_optimal_def Let_def key lit
    using A B C' opt by auto
qed

lemma parse_step_last_literals:
  assumes nl: "nLastLiteralsOffset st = next_match (ps_match st) (i + 1) e"
    and cl: "length_m (ps_match st i) \<ge> MIN_MATCH_SIZE \<longrightarrow>
             i + length_m (ps_match st i) \<le> e - LAST_LITERALS"
    and rng: "0 \<le> i" "e \<le> 2147483647" "i < e"
  shows "nLastLiteralsOffset (parse_step flags e i st) =
         next_match (ps_match (parse_step flags e i st)) i e"
proof -
  let ?st' = "parse_step flags e i st"
  let ?b = "best_at flags e i st"
  let ?T = "examined_trims flags e i (ps_match st i)"
  have C: "?b = literal_choice st i \<or>
     (\<exists>k \<in> ?T. ?b = match_choice st (extra_match_score flags) i (to_s32 (offset_m (ps_match st i))) k)"
    by (rule best_at_spec(3))
  have r: "nBestMatchLen ?b = 0 \<or> (4 \<le> nBestMatchLen ?b \<and> nBestMatchLen ?b < 2147483648)"
    using C examined_trims_range[OF cl rng(1,2)]
    by (auto simp: literal_choice_def Let_def match_choice_def)
  then have len: "length_m (ps_match ?st' i) = nBestMatchLen ?b"
    by (auto simp: parse_step_at to_u32_id)
  have same: "next_match (ps_match ?st') (i + 1) e = next_match (ps_match st) (i + 1) e"
    by (rule next_match_cong) (simp add: parse_step_other)
  have nm: "next_match (ps_match ?st') i e =
      (if length_m (ps_match ?st' i) \<ge> MIN_MATCH_SIZE then i
       else next_match (ps_match ?st') (i + 1) e)"
    using rng(3) by (subst next_match.simps) simp
  have "nLastLiteralsOffset ?st' =
      (if nBestMatchLen ?b \<ge> MIN_MATCH_SIZE then i else nLastLiteralsOffset st)"
    by (simp add: parse_step_def Let_def)
  then show ?thesis unfolding nm len same nl by simp
qed

lemma recorded_choice_optimal_cong:
  assumes "cand j = cand' j"
  shows "recorded_choice_optimal flags e cand F j = recorded_choice_optimal flags e cand' F j"
  by (simp add: recorded_choice_optimal_def assms)

lemma parse_loop_recorded:
  assumes "i \<le> e - 2" "0 \<le> s" "e \<le> 2147483647"
    and "nLastLiteralsOffset st = next_match (ps_match st) (i + 1) e"
    and "\<forall>x. s \<le> x \<and> x \<le> i \<longrightarrow> (length_m (ps_match st x) \<ge> MIN_MATCH_SIZE \<longrightarrow>
             x + length_m (ps_match st x) \<le> e - LAST_LITERALS)"
    and "s \<le> j" "j \<le> i"
  shows "recorded_choice_optimal flags e (ps_match st) (parse_loop flags s e i st) j"
  using assms
proof (induction flags s e i st rule: parse_loop.induct)
  case (1 flags s e i st)
  have go: "\<not> i \<le> s - 1" using 1(7,8) by simp
  let ?st' = "parse_step flags e i st"
  let ?F = "parse_loop flags s e (i - 1) ?st'"
  have eq: "parse_loop flags s e i st = ?F" by (rule parse_loop_unfold[OF go])
  have i0: "0 \<le> i" using 1(3,7,8) by simp
  have cl: "length_m (ps_match st i) \<ge> MIN_MATCH_SIZE \<longrightarrow>
             i + length_m (ps_match st i) \<le> e - LAST_LITERALS"
    using 1(6,7,8) by simp
  show ?case
  proof (cases "j = i")
    case True
    have "recorded_choice_optimal flags e (ps_match st) ?F i"
    proof (rule parse_step_recorded[OF 1(5) cl i0 1(4)])
      fix x assume "i \<le> x"
      then have "i - 1 < x" by simp
      from parse_loop_frame[OF this, of flags s e ?st']
      show "ps_cost ?F x = ps_cost ?st' x \<and> ps_score ?F x = ps_score ?st' x \<and>
            ps_match ?F x = ps_match ?st' x" .
    qed
    then show ?thesis unfolding eq True .
  next
    case False
    then have j: "j \<le> i - 1" using 1(8) by simp
    have ie: "i < e" using 1(2) by simp
    have nl': "nLastLiteralsOffset ?st' = next_match (ps_match ?st') (i - 1 + 1) e"
      using parse_step_last_literals[OF 1(5) cl i0 1(4) ie, of flags] by simp
    have cl': "\<forall>x. s \<le> x \<and> x \<le> i - 1 \<longrightarrow> (length_m (ps_match ?st' x) \<ge> MIN_MATCH_SIZE \<longrightarrow>
             x + length_m (ps_match ?st' x) \<le> e - LAST_LITERALS)"
      using 1(6) by (simp add: parse_step_other)
    have "recorded_choice_optimal flags e (ps_match ?st') ?F j"
      using 1(1)[OF go _ 1(3) 1(4) nl' cl' 1(7) j] 1(2) by simp
    moreover have "ps_match ?st' j = ps_match st j" using False by (simp add: parse_step_other)
    ultimately show ?thesis unfolding eq
      using recorded_choice_optimal_cong[of "ps_match ?st'" j "ps_match st" flags e ?F] by simp
  qed
qed


lemma optimize_matches_recorded:
  assumes "0 \<le> nStartOffset" and "nStartOffset < nEndOffset" and "nEndOffset \<le> 2147483647"
    and "clamped_candidates cand nStartOffset nEndOffset"
    and "F = lz4ultra_optimize_matches_lz4 flags cand cost score nStartOffset nEndOffset"
    and "nStartOffset \<le> j" and "j \<le> nEndOffset - 2"
  shows "recorded_choice_optimal flags nEndOffset cand F j"
proof -
  let ?st = "\<lparr>ps_match = cand, ps_cost = cost(nEndOffset - 1 := 8),
              ps_score = score(nEndOffset - 1 := 0), nLastLiteralsOffset = nEndOffset\<rparr>"
  have F: "F = parse_loop flags nStartOffset nEndOffset (nEndOffset - 2) ?st"
    by (simp add: assms(5) lz4ultra_optimize_matches_lz4_def)
  have last: "\<not> length_m (cand (nEndOffset - 1)) \<ge> MIN_MATCH_SIZE"
  proof
    assume a: "length_m (cand (nEndOffset - 1)) \<ge> MIN_MATCH_SIZE"
    have "nEndOffset - 1 \<in> {nStartOffset ..< nEndOffset}" using assms(2) by simp
    with assms(4) a have "nEndOffset - 1 + length_m (cand (nEndOffset - 1)) \<le> nEndOffset - LAST_LITERALS"
      unfolding clamped_candidates_def by blast
    with a show False by (simp add: MIN_MATCH_SIZE_def LAST_LITERALS_def)
  qed
  have "next_match cand (nEndOffset - 1) nEndOffset = next_match cand nEndOffset nEndOffset"
    using last by (subst next_match.simps) simp
  also have "\<dots> = nEndOffset" by (subst next_match.simps) simp
  finally have nl: "nLastLiteralsOffset ?st = next_match (ps_match ?st) (nEndOffset - 2 + 1) nEndOffset"
    by simp
  have cl: "\<forall>x. nStartOffset \<le> x \<and> x \<le> nEndOffset - 2 \<longrightarrow>
      (length_m (ps_match ?st x) \<ge> MIN_MATCH_SIZE \<longrightarrow>
         x + length_m (ps_match ?st x) \<le> nEndOffset - LAST_LITERALS)"
    using assms(4) by (simp add: clamped_candidates_def)
  have "recorded_choice_optimal flags nEndOffset (ps_match ?st) F j"
    unfolding F by (rule parse_loop_recorded[OF _ assms(1,3) nl cl assms(6,7)]) simp
  then show ?thesis by simp
qed


text \<open>
  C2 (amended): for candidates that end at least \<open>LAST_LITERALS\<close> bytes before the end of the
  block, what \<open>lz4ultra_optimize_matches_lz4\<close> records at each position \<open>j\<close> of the parse range is
  the choice of least cost, and among those of equal cost of least score, among taking a literal
  and keeping the candidate of \<open>j\<close> at each length the parser examines (every length from
  \<open>MIN_MATCH_SIZE\<close> to \<open>l\<close> when \<open>l < 1000\<close>, after the favor-speed cut; \<open>l\<close> alone otherwise), each
  choice being continued by what is recorded for the positions after it. The recorded cost and
  score are those of the recorded choice.
\<close>

theorem C2_recorded_choices_optimal:
  assumes "0 \<le> nStartOffset" and "nStartOffset < nEndOffset" and "nEndOffset \<le> 2147483647"
    and "clamped_candidates cand nStartOffset nEndOffset"
    and "F = lz4ultra_optimize_matches_lz4 flags cand cost score nStartOffset nEndOffset"
    and "nStartOffset \<le> j" and "j \<le> nEndOffset - 2"
  shows "lex_le (ps_cost F j, ps_score F j)
           (choice_key (literal_choice
              (F\<lparr>nLastLiteralsOffset := next_match (ps_match F) (j + 1) nEndOffset\<rparr>) j)) \<and>
         (\<forall>k \<in> examined_trims flags nEndOffset j (cand j).
            lex_le (ps_cost F j, ps_score F j)
              (choice_key (match_choice F (extra_match_score flags) j (to_s32 (offset_m (cand j))) k))) \<and>
         (((ps_cost F j, ps_score F j) =
             choice_key (literal_choice
               (F\<lparr>nLastLiteralsOffset := next_match (ps_match F) (j + 1) nEndOffset\<rparr>) j) \<and>
           length_m (ps_match F j) = 0) \<or>
          (\<exists>k \<in> examined_trims flags nEndOffset j (cand j).
             (ps_cost F j, ps_score F j) =
               choice_key (match_choice F (extra_match_score flags) j (to_s32 (offset_m (cand j))) k) \<and>
             length_m (ps_match F j) = k \<and>
             offset_m (ps_match F j) = to_u32 (to_s32 (offset_m (cand j)))))"
  using optimize_matches_recorded[OF assms]
  by (simp add: recorded_choice_optimal_def Let_def)

lemma c2_match_clamped: "clamped_candidates c2_match 0 20"
  by (simp add: clamped_candidates_def c2_match_def no_matches_def MIN_MATCH_SIZE_def
      LAST_LITERALS_def)

theorem C2_recorded_choices_optimal_witness:
  "lex_le (ps_cost c2_state 4, ps_score c2_state 4)
           (choice_key (literal_choice
              (c2_state\<lparr>nLastLiteralsOffset := next_match (ps_match c2_state) (4 + 1) 20\<rparr>) 4)) \<and>
   lex_le (ps_cost c2_state 4, ps_score c2_state 4)
              (choice_key (match_choice c2_state (extra_match_score LZ4ULTRA_FLAG_FAVOR_RATIO) 4
                 (to_s32 (offset_m (c2_match 4))) 4)) \<and>
         (((ps_cost c2_state 4, ps_score c2_state 4) =
             choice_key (literal_choice
               (c2_state\<lparr>nLastLiteralsOffset := next_match (ps_match c2_state) (4 + 1) 20\<rparr>) 4) \<and>
           length_m (ps_match c2_state 4) = 0) \<or>
          (\<exists>k \<in> examined_trims LZ4ULTRA_FLAG_FAVOR_RATIO 20 4 (c2_match 4).
             (ps_cost c2_state 4, ps_score c2_state 4) =
               choice_key (match_choice c2_state (extra_match_score LZ4ULTRA_FLAG_FAVOR_RATIO) 4
                 (to_s32 (offset_m (c2_match 4))) k) \<and>
             length_m (ps_match c2_state 4) = k \<and>
             offset_m (ps_match c2_state 4) = to_u32 (to_s32 (offset_m (c2_match 4)))))"
proof -
  have m: "4 \<in> examined_trims LZ4ULTRA_FLAG_FAVOR_RATIO 20 4 (c2_match 4)"
    by (simp add: examined_trims_def c2_match_def MIN_MATCH_SIZE_def LEAVE_ALONE_MATCH_SIZE_def
        clamp_to_last_literals_def shorten_for_speed_def to_s32_def LAST_LITERALS_def
        LZ4ULTRA_FLAG_FAVOR_RATIO_def MATCH_RUN_LEN_def)
  have h: "(0::int) \<le> 0" "(0::int) < 20" "(20::int) \<le> 2147483647" "(0::int) \<le> 4" "(4::int) \<le> 20 - 2"
    by simp_all
  from C2_recorded_choices_optimal[OF h(1,2,3) c2_match_clamped c2_state_def h(4,5)] m
  show ?thesis by blast
qed

section \<open>Validity through the parser\<close>

lemma window_eq_trim:
  "window_eq W a b n \<Longrightarrow> k \<le> n \<Longrightarrow> window_eq W a b k"
proof -
  assume h: "window_eq W a b n" "k \<le> n"
  have "take (nat k) (take (nat n) (drop (nat a) W)) = take (nat k) (take (nat n) (drop (nat b) W))"
    using h(1) by (simp add: window_eq_def)
  moreover have "min (nat k) (nat n) = nat k" using h(2) by simp
  ultimately show ?thesis by (simp add: window_eq_def)
qed

lemma valid_match_range:
  assumes "valid_match W e p m" "e \<le> 2147483647" "0 \<le> p"
  shows "4 \<le> length_m m" "length_m m < 2147483648" "1 \<le> offset_m m" "offset_m m \<le> 65535"
    "to_s32 (length_m m) = length_m m" "to_s32 (offset_m m) = offset_m m"
    "to_u32 (offset_m m) = offset_m m"
  using assms
  by (auto simp: valid_match_def to_s32_id to_u32_id MIN_MATCH_SIZE_def MIN_OFFSET_def
      MAX_OFFSET_def LAST_LITERALS_def)

lemma valid_candidates_clamped:
  "valid_candidates W cand s e \<Longrightarrow> clamped_candidates cand s e"
  by (auto simp: valid_candidates_def clamped_candidates_def valid_match_def)

lemma shorten_for_speed_le: "shorten_for_speed flags n \<le> n"
  by (simp add: shorten_for_speed_def MATCH_RUN_LEN_def MIN_MATCH_SIZE_def)

lemma parser_output_valid:
  assumes "0 \<le> s" "s < e" "e \<le> 2147483647"
    and vc: "valid_candidates W cand s e"
    and F: "F = lz4ultra_optimize_matches_lz4 flags cand cost score s e"
    and j: "s \<le> j" "j < e"
  shows "(length_m (ps_match F j) \<ge> MIN_MATCH_SIZE \<longrightarrow> valid_match W e j (ps_match F j)) \<and>
         (j < e - 1 \<longrightarrow> length_m (ps_match F j) < MIN_MATCH_SIZE \<longrightarrow> length_m (ps_match F j) = 0)"
proof (cases "j \<le> e - 2")
  case True
  let ?T = "examined_trims flags e j (cand j)"
  from optimize_matches_recorded[OF assms(1,2,3) valid_candidates_clamped[OF vc] F j(1) True]
  have "length_m (ps_match F j) = 0 \<or>
        (\<exists>k \<in> ?T. length_m (ps_match F j) = k \<and>
           offset_m (ps_match F j) = to_u32 (to_s32 (offset_m (cand j))))"
    unfolding recorded_choice_optimal_def Let_def by blast
  then consider (lit) "length_m (ps_match F j) = 0"
    | (mat) k where "k \<in> ?T" "length_m (ps_match F j) = k"
        "offset_m (ps_match F j) = to_u32 (to_s32 (offset_m (cand j)))"
    by blast
  then show ?thesis
  proof cases
    case lit
    then show ?thesis by (simp add: MIN_MATCH_SIZE_def)
  next
    case mat
    have ne: "length_m (cand j) \<ge> MIN_MATCH_SIZE" using mat(1)
      by (auto simp: examined_trims_def split: if_splits)
    have v: "valid_match W e j (cand j)" using vc ne j by (simp add: valid_candidates_def)
    have j0: "0 \<le> j" using assms(1) j by simp
    have cl: "length_m (cand j) \<ge> MIN_MATCH_SIZE \<longrightarrow> j + length_m (cand j) \<le> e - LAST_LITERALS"
      using v by (simp add: valid_match_def)
    have r: "4 \<le> k \<and> k \<le> length_m (cand j) \<and> k < 2147483648"
      by (rule examined_trims_range[OF cl j0 assms(3) mat(1)])
    have off: "offset_m (ps_match F j) = offset_m (cand j)"
      using mat(3) valid_match_range(6,7)[OF v assms(3) j0] by simp
    have "valid_match W e j (ps_match F j)"
      using v r window_eq_trim[of W j "j - offset_m (cand j)" "length_m (cand j)" k]
      by (simp add: valid_match_def mat(2) off MIN_MATCH_SIZE_def)
    then show ?thesis using r mat(2) by (simp add: MIN_MATCH_SIZE_def)
  qed
next
  case False
  then have je: "j = e - 1" using j by simp
  have "e - 2 < j" using je by simp
  from parse_loop_frame[OF this]
  have same: "ps_match F j = cand j"
    by (simp add: F lz4ultra_optimize_matches_lz4_def)
  show ?thesis using vc j je same by (auto simp: valid_candidates_def)
qed


section \<open>Validity through the peephole pass\<close>

lemma walk_valid_refl: "walk_valid W ms e t t"
  by (subst walk_valid.simps) simp

lemma walk_valid_lit:
  "a < t \<Longrightarrow> \<not> length_m (ms a) \<ge> MIN_MATCH_SIZE \<Longrightarrow>
   walk_valid W ms e t a = walk_valid W ms e t (a + 1)"
  by (subst walk_valid.simps) simp

lemma walk_valid_match:
  "a < t \<Longrightarrow> length_m (ms a) \<ge> MIN_MATCH_SIZE \<Longrightarrow>
   walk_valid W ms e t a =
     (valid_match W e a (ms a) \<and> walk_valid W ms e t (a + length_m (ms a)))"
  by (subst walk_valid.simps) simp

lemma walk_valid_le: "walk_valid W ms e t a \<Longrightarrow> a \<le> t"
proof (induction W ms e t a rule: walk_valid.induct)
  case (1 W ms e t a)
  show ?case
  proof (cases "a \<ge> t")
    case True
    then show ?thesis using 1(3) by (subst (asm) walk_valid.simps) simp
  next
    case False
    then show ?thesis by simp
  qed
qed

lemma walk_valid_append:
  "walk_valid W ms e b a \<Longrightarrow> walk_valid W ms e c b \<Longrightarrow> walk_valid W ms e c a"
proof (induction W ms e b a rule: walk_valid.induct)
  case (1 W ms e b a)
  have bc: "b \<le> c" using walk_valid_le[OF 1(4)] .
  show ?case
  proof (cases "a \<ge> b")
    case True
    then have "a = b" using 1(3) by (subst (asm) walk_valid.simps) simp
    then show ?thesis using 1(4) by simp
  next
    case False
    then have ac: "a < c" "a < b" using bc by auto
    show ?thesis
    proof (cases "length_m (ms a) \<ge> MIN_MATCH_SIZE")
      case True
      have v: "valid_match W e a (ms a)" "walk_valid W ms e b (a + length_m (ms a))"
        using 1(3) walk_valid_match[where ms=ms and a=a and W=W and e=e, OF ac(2) True] by auto
      from 1(1)[OF False True v(1) v(2) 1(4)] v(1) show ?thesis
        using walk_valid_match[where ms=ms and a=a and W=W and e=e, OF ac(1) True] by simp
    next
      case F2: False
      have "walk_valid W ms e b (a + 1)" using 1(3) walk_valid_lit[where ms=ms and a=a and W=W and e=e, OF ac(2) F2] by simp
      from 1(2)[OF False F2 this 1(4)] show ?thesis
        using walk_valid_lit[where ms=ms and a=a and W=W and e=e, OF ac(1) F2] by simp
    qed
  qed
qed

lemma walk_valid_cong:
  "(\<And>x. a \<le> x \<Longrightarrow> x < t \<Longrightarrow> ms x = ms' x) \<Longrightarrow>
   walk_valid W ms e t a = walk_valid W ms' e t a"
proof (induction W ms e t a rule: walk_valid.induct)
  case (1 W ms e t a)
  show ?case
  proof (cases "a \<ge> t")
    case True
    then show ?thesis by (subst walk_valid.simps, subst (2) walk_valid.simps) simp
  next
    case False
    then have at: "a < t" by simp
    have eqa: "ms a = ms' a" using 1(3)[of a] at by simp
    show ?thesis
    proof (cases "length_m (ms a) \<ge> MIN_MATCH_SIZE")
      case True
      then have T': "length_m (ms' a) \<ge> MIN_MATCH_SIZE" using eqa by simp
      show ?thesis
      proof (cases "valid_match W e a (ms a)")
        case v: True
        have "walk_valid W ms e t (a + length_m (ms a)) = walk_valid W ms' e t (a + length_m (ms a))"
          using True 1(3) by (intro 1(1)[OF False True v]) (auto simp: MIN_MATCH_SIZE_def)
        then show ?thesis
          using walk_valid_match[where ms=ms and a=a and W=W and e=e, OF at True] walk_valid_match[where ms=ms' and a=a and W=W and e=e, OF at T'] eqa by simp
      next
        case False
        then show ?thesis
          using walk_valid_match[where ms=ms and a=a and W=W and e=e, OF at True] walk_valid_match[where ms=ms' and a=a and W=W and e=e, OF at T'] eqa by simp
      qed
    next
      case F2: False
      then have F2': "\<not> length_m (ms' a) \<ge> MIN_MATCH_SIZE" using eqa by simp
      have "walk_valid W ms e t (a + 1) = walk_valid W ms' e t (a + 1)"
        using 1(3) by (intro 1(2)[OF False F2]) auto
      then show ?thesis
        using walk_valid_lit[where ms=ms and a=a and W=W and e=e, OF at F2] walk_valid_lit[where ms=ms' and a=a and W=W and e=e, OF at F2'] by simp
    qed
  qed
qed

lemma walk_valid_literals:
  assumes "\<And>x. a \<le> x \<Longrightarrow> x < t \<Longrightarrow> \<not> length_m (ms x) \<ge> MIN_MATCH_SIZE" "a \<le> t"
  shows "walk_valid W ms e t a"
  using assms
proof (induction "nat (t - a)" arbitrary: a)
  case 0
  then have "a = t" by simp
  then show ?case by (simp add: walk_valid_refl)
next
  case (Suc n)
  then have at: "a < t" by simp
  have "walk_valid W ms e t (a + 1)"
    using Suc(2) Suc(3) at by (intro Suc(1)) auto
  then show ?case using walk_valid_lit[where ms=ms and a=a and W=W and e=e, OF at Suc(3)[OF order_refl at]] by simp
qed

lemma window_eq_sym: "window_eq W a b n \<Longrightarrow> window_eq W b a n"
  by (simp add: window_eq_def)

lemma window_eq_trans: "window_eq W a b n \<Longrightarrow> window_eq W b c n \<Longrightarrow> window_eq W a c n"
  by (simp add: window_eq_def)

lemma window_eq_join:
  assumes "window_eq W a b n" "window_eq W (a + n) (b + n) m" "0 \<le> a" "0 \<le> b" "0 \<le> n" "0 \<le> m"
  shows "window_eq W a b (n + m)"
proof -
  have nm: "nat (n + m) = nat n + nat m" using assms(5,6) by (simp add: nat_add_distrib)
  have a: "nat (a + n) = nat a + nat n" and b: "nat (b + n) = nat b + nat n"
    using assms(3,4,5) by (simp_all add: nat_add_distrib)
  have "take (nat n + nat m) (drop (nat a) W) =
        take (nat n) (drop (nat a) W) @ take (nat m) (drop (nat a + nat n) W)"
    by (simp add: take_add add.commute[of "nat n" "nat a"])
  moreover have "take (nat n + nat m) (drop (nat b) W) =
        take (nat n) (drop (nat b) W) @ take (nat m) (drop (nat b + nat n) W)"
    by (simp add: take_add add.commute[of "nat n" "nat b"])
  ultimately show ?thesis
    using assms(1,2) unfolding window_eq_def nm a b by simp
qed


lemma records_valid_from_at:
  "records_valid_from W ms e i \<Longrightarrow> i < e \<Longrightarrow> length_m (ms i) \<ge> MIN_MATCH_SIZE \<Longrightarrow>
   valid_match W e i (ms i)"
  by (simp add: records_valid_from_def in_body_def)

lemma records_valid_from_later:
  assumes "records_valid_from W ms e i" "i \<le> j"
    and "\<And>q. j \<le> q \<Longrightarrow> q < e \<Longrightarrow> \<not> in_body ms i q"
    and "\<And>q. j \<le> q \<Longrightarrow> q < e \<Longrightarrow> ms' q = ms q"
  shows "records_valid_from W ms' e j"
  using assms unfolding records_valid_from_def by (metis order_trans)

lemma peephole_step_literal:
  assumes inv: "peephole_inv W s e st" and lt: "pp_i st < e"
    and lit: "\<not> length_m (pp_match st (pp_i st)) \<ge> MIN_MATCH_SIZE"
  shows "peephole_inv W s e
           \<lparr>pp_match = pp_match st, pp_i = pp_i st + 1, pp_nNumLiterals = n'\<rparr>"
proof -
  let ?i = "pp_i st" and ?ms = "pp_match st"
  have w: "walk_valid W ?ms e ?i s" and r: "records_valid_from W ?ms e ?i" and si: "s \<le> ?i"
    using inv by (simp_all add: peephole_inv_def)
  have "walk_valid W ?ms e (?i + 1) ?i"
    using walk_valid_lit[where ms="?ms" and a="?i" and t="?i + 1" and W=W and e=e] lit
    by (simp add: walk_valid_refl)
  then have w': "walk_valid W ?ms e (?i + 1) s" using walk_valid_append[OF w] by blast
  have r': "records_valid_from W ?ms e (?i + 1)"
    by (rule records_valid_from_later[OF r]) (use lit in \<open>simp_all add: in_body_def\<close>)
  show ?thesis using si lt w' r' by (simp add: peephole_inv_def)
qed

lemma peephole_step_keep:
  assumes inv: "peephole_inv W s e st" and lt: "pp_i st < e"
    and mat: "length_m (pp_match st (pp_i st)) \<ge> MIN_MATCH_SIZE"
  shows "peephole_inv W s e
           \<lparr>pp_match = pp_match st, pp_i = pp_i st + length_m (pp_match st (pp_i st)),
            pp_nNumLiterals = n'\<rparr>"
proof -
  let ?i = "pp_i st" and ?ms = "pp_match st"
  let ?l = "length_m (?ms ?i)"
  have w: "walk_valid W ?ms e ?i s" and r: "records_valid_from W ?ms e ?i" and si: "s \<le> ?i"
    using inv by (simp_all add: peephole_inv_def)
  have v: "valid_match W e ?i (?ms ?i)" by (rule records_valid_from_at[OF r lt mat])
  then have l: "4 \<le> ?l" "?i + ?l \<le> e - 5"
    by (simp_all add: valid_match_def MIN_MATCH_SIZE_def LAST_LITERALS_def)
  have "walk_valid W ?ms e (?i + ?l) ?i"
    using walk_valid_match[where ms="?ms" and a="?i" and t="?i + ?l" and W=W and e=e] mat v l
    by (simp add: walk_valid_refl)
  then have w': "walk_valid W ?ms e (?i + ?l) s" using walk_valid_append[OF w] by blast
  have r': "records_valid_from W ?ms e (?i + ?l)"
    by (rule records_valid_from_later[OF r]) (use l in \<open>simp_all add: in_body_def\<close>)
  show ?thesis using si l w' r' by (simp add: peephole_inv_def)
qed

lemma peephole_step_reduce:
  assumes inv: "peephole_inv W s e st" and lt: "pp_i st < e"
    and mat: "length_m (pp_match st (pp_i st)) \<ge> MIN_MATCH_SIZE"
    and fits: "pp_i st + length_m (pp_match st (pp_i st)) < e"
  shows "peephole_inv W s e
           \<lparr>pp_match = clear_lengths (pp_match st) (pp_i st) (length_m (pp_match st (pp_i st))),
            pp_i = pp_i st + length_m (pp_match st (pp_i st)), pp_nNumLiterals = n'\<rparr>"
proof -
  let ?i = "pp_i st" and ?ms = "pp_match st"
  let ?l = "length_m (?ms ?i)"
  let ?ms' = "clear_lengths ?ms ?i ?l"
  have w: "walk_valid W ?ms e ?i s" and r: "records_valid_from W ?ms e ?i" and si: "s \<le> ?i"
    using inv by (simp_all add: peephole_inv_def)
  have l: "4 \<le> ?l" using mat by (simp add: MIN_MATCH_SIZE_def)
  have "walk_valid W ?ms' e ?i s = walk_valid W ?ms e ?i s"
    by (rule walk_valid_cong) (simp add: clear_lengths_def)
  then have w1: "walk_valid W ?ms' e ?i s" using w by simp
  have w2: "walk_valid W ?ms' e (?i + ?l) ?i"
    by (rule walk_valid_literals) (use l in \<open>simp_all add: clear_lengths_def MIN_MATCH_SIZE_def\<close>)
  have w': "walk_valid W ?ms' e (?i + ?l) s" by (rule walk_valid_append[OF w1 w2])
  have r': "records_valid_from W ?ms' e (?i + ?l)"
    by (rule records_valid_from_later[OF r]) (use l in \<open>simp_all add: in_body_def clear_lengths_def\<close>)
  show ?thesis using si l fits w' r' by (simp add: peephole_inv_def)
qed

lemma to_u32_neg_one: "to_u32 (- 1) = 4294967295"
  by (simp add: to_u32_def)

lemma join_test_valid:
  assumes r: "records_valid_from W ms e i" and lt: "i < e"
    and mat: "length_m (ms i) \<ge> MIN_MATCH_SIZE"
    and jt: "join_test W ms e i (length_m (ms i))"
    and rng: "0 \<le> i" "e \<le> 2147483647"
  shows "valid_match W e (i + length_m (ms i)) (ms (i + length_m (ms i)))"
    and "length_m (ms i) + length_m (ms (i + length_m (ms i))) \<le> 65535"
    and "window_eq W (i + length_m (ms i)) (i + length_m (ms i) - offset_m (ms i))
           (length_m (ms (i + length_m (ms i))))"
proof -
  let ?l = "length_m (ms i)"
  let ?q = "i + ?l"
  let ?nx = "ms ?q"
  have v: "valid_match W e i (ms i)" by (rule records_valid_from_at[OF r lt mat])
  have l: "4 \<le> ?l" "?q \<le> e - 5" "0 \<le> ?q"
    using v rng by (simp_all add: valid_match_def MIN_MATCH_SIZE_def LAST_LITERALS_def)
  have j: "?q < e" "length_m ?nx \<ge> 2" "?q + to_s32 (length_m ?nx) \<le> e"
    "to_u32 (?l + length_m ?nx) \<le> 65535"
    "window_eq W (?q - offset_m (ms i)) (?q - offset_m ?nx) (length_m ?nx)"
    using jt by (simp_all add: join_test_def Let_def)
  have nb: "\<not> in_body ms i ?q" by (simp add: in_body_def)
  have iq: "i \<le> ?q" using l by simp
  have R: "(length_m ?nx \<ge> MIN_MATCH_SIZE \<longrightarrow> valid_match W e ?q ?nx) \<and>
           (?q < e - 1 \<longrightarrow> length_m ?nx < MIN_MATCH_SIZE \<longrightarrow> length_m ?nx = 0)"
    using r iq j(1) nb unfolding records_valid_from_def by blast
  have ge4: "length_m ?nx \<ge> MIN_MATCH_SIZE"
  proof (rule ccontr)
    assume n: "\<not> length_m ?nx \<ge> MIN_MATCH_SIZE"
    then have small: "length_m ?nx < 4" by (simp add: MIN_MATCH_SIZE_def)
    then have "to_s32 (length_m ?nx) = length_m ?nx" using j(2) by (simp add: to_s32_id)
    then have "?q < e - 1" using j(2,3) by simp
    with R n have "length_m ?nx = 0" by simp
    with j(2) show False by simp
  qed
  with R show vn: "valid_match W e ?q ?nx" by simp
  have ln: "4 \<le> length_m ?nx" "?q + length_m ?nx \<le> e - 5"
    using vn by (simp_all add: valid_match_def MIN_MATCH_SIZE_def LAST_LITERALS_def)
  have "0 \<le> ?l + length_m ?nx" "?l + length_m ?nx < 4294967296"
    using l ln rng by simp_all
  then have "to_u32 (?l + length_m ?nx) = ?l + length_m ?nx" by (simp add: to_u32_id)
  with j(4) show "?l + length_m ?nx \<le> 65535" by simp
  have "window_eq W ?q (?q - offset_m ?nx) (length_m ?nx)"
    using vn by (simp add: valid_match_def)
  from window_eq_trans[OF this window_eq_sym[OF j(5)]]
  show "window_eq W ?q (?q - offset_m (ms i)) (length_m ?nx)" .
qed

lemma peephole_step_join:
  assumes inv: "peephole_inv W s e st" and lt: "pp_i st < e"
    and mat: "length_m (pp_match st (pp_i st)) \<ge> MIN_MATCH_SIZE"
    and jt: "join_test W (pp_match st) e (pp_i st) (length_m (pp_match st (pp_i st)))"
    and rng: "0 \<le> s" "e \<le> 2147483647"
  shows "peephole_inv W s e
           \<lparr>pp_match = (pp_match st)
              (pp_i st := (pp_match st (pp_i st))
                 \<lparr>length_m := to_u32 (length_m (pp_match st (pp_i st)) +
                     length_m (pp_match st (pp_i st + length_m (pp_match st (pp_i st)))))\<rparr>,
               pp_i st + length_m (pp_match st (pp_i st)) := \<lparr>length_m = to_u32 (- 1), offset_m = 0\<rparr>),
            pp_i = pp_i st, pp_nNumLiterals = n'\<rparr>"
    (is "peephole_inv W s e \<lparr>pp_match = ?ms', pp_i = _, pp_nNumLiterals = _\<rparr>")
proof -
  let ?i = "pp_i st" and ?ms = "pp_match st"
  let ?l = "length_m (?ms ?i)"
  let ?q = "?i + ?l"
  let ?l2 = "length_m (?ms ?q)"
  have w: "walk_valid W ?ms e ?i s" and r: "records_valid_from W ?ms e ?i" and si: "s \<le> ?i"
    and ie: "?i \<le> e"
    using inv by (simp_all add: peephole_inv_def)
  have i0: "0 \<le> ?i" using si rng by simp
  have v: "valid_match W e ?i (?ms ?i)" by (rule records_valid_from_at[OF r lt mat])
  note J = join_test_valid[OF r lt mat jt i0 rng(2)]
  have l: "4 \<le> ?l" "offset_m (?ms ?i) \<le> ?i"
    using v by (simp_all add: valid_match_def MIN_MATCH_SIZE_def)
  have l2: "4 \<le> ?l2" "?q + ?l2 \<le> e - 5"
    using J(1) by (simp_all add: valid_match_def MIN_MATCH_SIZE_def LAST_LITERALS_def)
  have sum: "to_u32 (?l + ?l2) = ?l + ?l2" using l l2 J(2) by (simp add: to_u32_id)
  have at_i: "?ms' ?i = (?ms ?i)\<lparr>length_m := ?l + ?l2\<rparr>" using l by (simp add: sum)
  have "window_eq W ?i (?i - offset_m (?ms ?i)) (?l + ?l2)"
  proof (rule window_eq_join)
    show "window_eq W ?i (?i - offset_m (?ms ?i)) ?l" using v by (simp add: valid_match_def)
    have "?i - offset_m (?ms ?i) + ?l = ?q - offset_m (?ms ?i)" by simp
    then show "window_eq W (?i + ?l) (?i - offset_m (?ms ?i) + ?l) ?l2" using J(3) by (simp only:)
  qed (use i0 l l2 in simp_all)
  then have vf: "valid_match W e ?i (?ms' ?i)"
    using v l l2 unfolding at_i by (simp add: valid_match_def MIN_MATCH_SIZE_def LAST_LITERALS_def)
  have "walk_valid W ?ms' e ?i s = walk_valid W ?ms e ?i s"
    by (rule walk_valid_cong) (use l in simp)
  then have w': "walk_valid W ?ms' e ?i s" using w by simp
  have r': "records_valid_from W ?ms' e ?i"
    unfolding records_valid_from_def
  proof (intro allI impI)
    fix q assume q: "?i \<le> q \<and> q < e \<and> \<not> in_body ?ms' ?i q"
    have "q = ?i \<or> ?q + ?l2 \<le> q"
      using q l l2 unfolding in_body_def at_i by (auto simp: MIN_MATCH_SIZE_def)
    then show "(length_m (?ms' q) \<ge> MIN_MATCH_SIZE \<longrightarrow> valid_match W e q (?ms' q)) \<and>
               (q < e - 1 \<longrightarrow> length_m (?ms' q) < MIN_MATCH_SIZE \<longrightarrow> length_m (?ms' q) = 0)"
    proof
      assume "q = ?i"
      then show ?thesis using vf by (simp add: valid_match_def)
    next
      assume far: "?q + ?l2 \<le> q"
      then have same: "?ms' q = ?ms q" using l l2 by simp
      have "\<not> in_body ?ms ?i q" using far l2 by (simp add: in_body_def)
      then show ?thesis using r q unfolding records_valid_from_def same by blast
    qed
  qed
  show ?thesis using si ie w' r' by (simp add: peephole_inv_def)
qed


lemma peephole_measure_advance:
  assumes "pp_i st < pp_i st'" "pp_i st' \<le> e"
  shows "peephole_measure e st' < peephole_measure e st"
proof -
  define k where "k = (let l = length_m (pp_match st (pp_i st))
           in if MIN_MATCH_SIZE \<le> l \<and> l \<le> 65535 then 65535 - l else 0)"
  define k' where "k' = (let l = length_m (pp_match st' (pp_i st'))
           in if MIN_MATCH_SIZE \<le> l \<and> l \<le> 65535 then 65535 - l else 0)"
  have k: "0 \<le> k" and k': "0 \<le> k'" "k' < 65536"
    by (auto simp: k_def k'_def Let_def MIN_MATCH_SIZE_def)
  have "(e - pp_i st') * 65536 + k' < (e - pp_i st) * 65536 + k"
    using assms k k' by simp
  moreover have "0 \<le> (e - pp_i st') * 65536 + k'" using assms(2) k' by simp
  ultimately show ?thesis unfolding peephole_measure_def k_def[symmetric] k'_def[symmetric]
    by simp
qed

lemma peephole_measure_join:
  assumes "pp_i st' = pp_i st" "pp_i st \<le> e"
    and "MIN_MATCH_SIZE \<le> length_m (pp_match st (pp_i st))"
    and "length_m (pp_match st (pp_i st)) < length_m (pp_match st' (pp_i st))"
    and "length_m (pp_match st' (pp_i st)) \<le> 65535"
  shows "peephole_measure e st' < peephole_measure e st"
  using assms unfolding peephole_measure_def Let_def by (simp add: MIN_MATCH_SIZE_def)

lemma peephole_step_inv:
  assumes inv: "peephole_inv W s e st" and lt: "pp_i st < e"
    and rng: "0 \<le> s" "e \<le> 2147483647"
  shows "peephole_inv W s e (peephole_step W e st) \<and>
         peephole_measure e (peephole_step W e st) < peephole_measure e st"
proof (cases "length_m (pp_match st (pp_i st)) \<ge> MIN_MATCH_SIZE")
  case False
  have eq: "peephole_step W e st =
      \<lparr>pp_match = pp_match st, pp_i = pp_i st + 1, pp_nNumLiterals = pp_nNumLiterals st + 1\<rparr>"
    using False by (simp add: peephole_step_def Let_def)
  show ?thesis unfolding eq
    using peephole_step_literal[OF inv lt False] lt
    by (simp add: peephole_measure_advance)
next
  case True
  let ?i = "pp_i st" and ?ms = "pp_match st"
  let ?l = "length_m (?ms ?i)"
  have r: "records_valid_from W ?ms e ?i" and si: "s \<le> ?i"
    using inv by (simp_all add: peephole_inv_def)
  have i0: "0 \<le> ?i" using si rng by simp
  have v: "valid_match W e ?i (?ms ?i)" by (rule records_valid_from_at[OF r lt True])
  have s32: "to_s32 ?l = ?l" by (rule valid_match_range(5)[OF v rng(2) i0])
  have l: "4 \<le> ?l" "?i + ?l \<le> e - 5"
    using v by (simp_all add: valid_match_def MIN_MATCH_SIZE_def LAST_LITERALS_def)
  show ?thesis
  proof (cases "reduce_test ?ms e ?i (pp_nNumLiterals st) ?l")
    case red: True
    have eq: "peephole_step W e st =
      \<lparr>pp_match = clear_lengths ?ms ?i ?l, pp_i = ?i + ?l,
       pp_nNumLiterals = pp_nNumLiterals st + ?l\<rparr>"
      using True red by (simp add: peephole_step_def Let_def s32)
    have fits: "?i + ?l < e" using l by simp
    show ?thesis unfolding eq
      using peephole_step_reduce[OF inv lt True fits] l
      by (simp add: peephole_measure_advance)
  next
    case nred: False
    show ?thesis
    proof (cases "join_test W ?ms e ?i ?l")
      case jt: True
      let ?st' = "\<lparr>pp_match = ?ms
              (?i := (?ms ?i)\<lparr>length_m := to_u32 (?l + length_m (?ms (?i + ?l)))\<rparr>,
               ?i + ?l := \<lparr>length_m = to_u32 (- 1), offset_m = 0\<rparr>),
            pp_i = ?i, pp_nNumLiterals = pp_nNumLiterals st\<rparr>"
      have eq: "peephole_step W e st = ?st'"
        using True nred jt by (simp add: peephole_step_def Let_def s32)
      note J = join_test_valid[OF r lt True jt i0 rng(2)]
      have l2: "4 \<le> length_m (?ms (?i + ?l))"
        using J(1) by (simp add: valid_match_def MIN_MATCH_SIZE_def)
      have sum: "to_u32 (?l + length_m (?ms (?i + ?l))) = ?l + length_m (?ms (?i + ?l))"
        using l l2 J(2) by (simp add: to_u32_id)
      have "peephole_measure e ?st' < peephole_measure e st"
        by (rule peephole_measure_join) (use lt True l l2 J(2) sum in simp_all)
      then show ?thesis unfolding eq
        using peephole_step_join[OF inv lt True jt rng] by simp
    next
      case njt: False
      have eq: "peephole_step W e st =
        \<lparr>pp_match = ?ms, pp_i = ?i + ?l, pp_nNumLiterals = 0\<rparr>"
        using True nred njt by (simp add: peephole_step_def Let_def s32)
      show ?thesis unfolding eq
        using peephole_step_keep[OF inv lt True] l
        by (simp add: peephole_measure_advance)
    qed
  qed
qed


lemma peephole_inv_initial:
  assumes "0 \<le> s" "s < e" "e \<le> 2147483647"
    and "valid_candidates W cand s e"
    and "F = lz4ultra_optimize_matches_lz4 flags cand cost score s e"
  shows "peephole_inv W s e \<lparr>pp_match = ps_match F, pp_i = s, pp_nNumLiterals = 0\<rparr>"
  using assms(2) parser_output_valid[OF assms]
  by (auto simp: peephole_inv_def walk_valid_refl records_valid_from_def)





lemma c2_candidates_valid: "valid_candidates c2_window c2_match 0 20"
  by (auto simp: valid_candidates_def c2_match_def no_matches_def valid_match_def window_eq_def
      c2_window_def MIN_MATCH_SIZE_def MIN_OFFSET_def MAX_OFFSET_def LAST_LITERALS_def)

section \<open>Copies in the output buffer of the decompressor\<close>

lemma length_store_bytes:
  "pos + length bytes \<le> length buf \<Longrightarrow> length (store_bytes buf pos bytes) = length buf"
  by (simp add: store_bytes_def)

lemma take_store_bytes_below:
  "a \<le> pos \<Longrightarrow> pos \<le> length buf \<Longrightarrow> take a (store_bytes buf pos bytes) = take a buf"
  by (simp add: store_bytes_def min_def)

lemma take_store_bytes_ext:
  "pos \<le> length buf \<Longrightarrow> j \<le> length bytes \<Longrightarrow>
   take (pos + j) (store_bytes buf pos bytes) = take pos buf @ take j bytes"
  by (simp add: store_bytes_def min_def)

lemma load_bytes_agree:
  assumes "take a buf = take a T" "src + m \<le> a"
  shows "load_bytes buf src m = load_bytes T src m"
proof -
  have "load_bytes buf src m = take m (drop src (take a buf))"
    using assms(2) by (simp add: load_bytes_def drop_take min_def)
  also have "\<dots> = take m (drop src (take a T))" by (simp add: assms(1))
  also have "\<dots> = load_bytes T src m"
    using assms(2) by (simp add: load_bytes_def drop_take min_def)
  finally show ?thesis .
qed

lemma length_load_bytes: "src + m \<le> length buf \<Longrightarrow> length (load_bytes buf src m) = m"
  by (simp add: load_bytes_def)

text \<open>The bytes of \<open>T\<close> from \<open>c\<close> repeat with the period \<open>off\<close> for \<open>n\<close> bytes.\<close>

lemma take_extend_periodic:
  assumes per: "\<forall>k<j. T ! (dst + k) = T ! (src + k)"
    and "j \<le> m" "src \<le> dst" "dst + j \<le> length T"
  shows "take dst T @ take j (load_bytes T src m) = take (dst + j) T"
proof (rule nth_equalityI)
  have "j \<le> length T - src" using assms by simp
  then have lj: "length (take j (load_bytes T src m)) = j"
    using assms(2) by (simp add: load_bytes_def)
  have ld: "length (take dst T) = dst" using assms by simp
  show "length (take dst T @ take j (load_bytes T src m)) = length (take (dst + j) T)"
    using assms(4) by (simp only: length_append lj ld) simp
  fix i assume "i < length (take dst T @ take j (load_bytes T src m))"
  then have i: "i < dst + j" by (simp only: length_append lj ld)
  show "(take dst T @ take j (load_bytes T src m)) ! i = take (dst + j) T ! i"
  proof (cases "i < dst")
    case True
    then show ?thesis using assms i by (simp add: nth_append)
  next
    case False
    then obtain k where k: "i = dst + k" "k < j" using i by (metis add_diff_inverse_nat nat_add_left_cancel_less)
    then show ?thesis using assms per by (simp add: nth_append load_bytes_def)
  qed
qed

text \<open>One \<open>memcpy\<close> of \<open>m\<close> bytes from \<open>src\<close> to \<open>dst\<close> extends the agreement with \<open>T\<close> by \<open>j\<close> bytes.\<close>

lemma store_chunk_extend:
  assumes agree: "take dst buf = take dst T"
    and "src + m \<le> dst" "dst + m \<le> length buf" "j \<le> m" "dst + j \<le> length T"
    and per: "\<forall>k<j. T ! (dst + k) = T ! (src + k)"
  shows "take (dst + j) (store_bytes buf dst (load_bytes buf src m)) = take (dst + j) T"
proof -
  have l: "load_bytes buf src m = load_bytes T src m"
    by (rule load_bytes_agree[OF agree assms(2)])
  have "length (load_bytes buf src m) = m" using assms by (simp add: load_bytes_def)
  then have "take (dst + j) (store_bytes buf dst (load_bytes buf src m)) =
        take dst buf @ take j (load_bytes buf src m)"
    using assms by (intro take_store_bytes_ext) simp_all
  also have "\<dots> = take dst T @ take j (load_bytes T src m)" by (simp add: agree l)
  also have "\<dots> = take (dst + j) T"
    using assms by (intro take_extend_periodic) simp_all
  finally show ?thesis .
qed

lemma agree_weaken: "take a buf = take a T \<Longrightarrow> b \<le> a \<Longrightarrow> take b buf = take b T"
  by (metis min.absorb_iff2 take_take min.commute)

text \<open>The byte-by-byte copy of a match.\<close>

lemma copy_bytewise_agree:
  assumes "off \<le> c" "1 \<le> off"
  shows "take c buf = take c T \<Longrightarrow> c + n \<le> length T \<Longrightarrow> c + n \<le> length buf \<Longrightarrow>
         \<forall>k<n. T ! (c + k) = T ! (c - off + k) \<Longrightarrow>
         take (c + n) (copy_bytewise buf c (c - off) n) = take (c + n) T \<and>
         length (copy_bytewise buf c (c - off) n) = length buf"
  using assms
proof (induction n arbitrary: buf c)
  case 0
  then show ?case by simp
next
  case (Suc n)
  let ?b = "buf[c := buf ! (c - off)]"
  have lt: "c - off < c" using Suc.prems by simp
  have "buf ! (c - off) = take c buf ! (c - off)" using lt by simp
  also have "\<dots> = T ! (c - off)" using Suc.prems(1) lt by simp
  also have "\<dots> = T ! c" using Suc.prems(4)[rule_format, of 0] by simp
  finally have b: "buf ! (c - off) = T ! c" .
  have "take (Suc c) ?b = take c ?b @ [?b ! c]"
    using Suc.prems(3) by (simp add: take_Suc_conv_app_nth)
  also have "\<dots> = take c T @ [T ! c]" using Suc.prems(1,3) b by simp
  also have "\<dots> = take (Suc c) T" using Suc.prems(2) by (simp add: take_Suc_conv_app_nth)
  finally have a: "take (Suc c) ?b = take (Suc c) T" .
  have per: "\<forall>k<n. T ! (Suc c + k) = T ! (Suc c - off + k)"
  proof (intro allI impI)
    fix k assume "k < n"
    then have "T ! (c + Suc k) = T ! (c - off + Suc k)"
      using Suc.prems(4)[rule_format, of "Suc k"] by simp
    moreover have "Suc c - off = Suc (c - off)" using Suc.prems(5) by simp
    ultimately show "T ! (Suc c + k) = T ! (Suc c - off + k)" by simp
  qed
  have "take (Suc c + n) (copy_bytewise ?b (Suc c) (Suc c - off) n) = take (Suc c + n) T \<and>
        length (copy_bytewise ?b (Suc c) (Suc c - off) n) = length ?b"
    using Suc.prems by (intro Suc.IH[OF a _ _ per]) simp_all
  moreover have "Suc c - off = Suc (c - off)" using Suc.prems(5) by simp
  ultimately show ?case by simp
qed


text \<open>The copy of a match in blocks of 16 bytes; it may write up to 15 bytes past the match.\<close>

lemma copy_16_agree:
  "take dst buf = take dst T \<Longrightarrow> src + off = dst \<Longrightarrow> 16 \<le> off \<Longrightarrow> dst < g \<Longrightarrow>
   g \<le> length T \<Longrightarrow> g + 16 \<le> length buf \<Longrightarrow>
   \<forall>k. dst + k < g \<longrightarrow> T ! (dst + k) = T ! (src + k) \<Longrightarrow>
   take g (copy_16 buf src dst g) = take g T \<and> length (copy_16 buf src dst g) = length buf"
proof (induction buf src dst g rule: copy_16.induct)
  case (1 buf src dst g)
  let ?b = "store_bytes buf dst (load_bytes buf src 16)"
  have len: "length ?b = length buf"
    using 1(3,5,7) by (simp add: length_store_bytes load_bytes_def)
  show ?case
  proof (cases "dst + 16 < g")
    case True
    have a: "take (dst + 16) ?b = take (dst + 16) T"
      using 1(2-8) True by (intro store_chunk_extend) simp_all
    have per: "\<forall>k. dst + 16 + k < g \<longrightarrow> T ! (dst + 16 + k) = T ! (src + 16 + k)"
    proof (intro allI impI)
      fix k assume "dst + 16 + k < g"
      then have "dst + (16 + k) < g" by arith
      from 1(8)[rule_format, OF this] show "T ! (dst + 16 + k) = T ! (src + 16 + k)"
        by (simp add: add.assoc)
    qed
    have "take g (copy_16 ?b (src + 16) (dst + 16) g) = take g T \<and>
          length (copy_16 ?b (src + 16) (dst + 16) g) = length ?b"
      using 1(3-7) True len by (intro 1(1)[OF refl True a _ _ _ _ _ per]) simp_all
    then show ?thesis using True len by (subst (1 2) copy_16.simps) (simp add: Let_def)
  next
    case False
    have "take (dst + (g - dst)) ?b = take (dst + (g - dst)) T"
      using 1(2-8) False by (intro store_chunk_extend) simp_all
    then have "take g ?b = take g T" using 1(5) by simp
    then show ?thesis using False len by (subst (1 2) copy_16.simps) (simp add: Let_def)
  qed
qed

text \<open>The fast path of a short match: three \<open>memcpy\<close> of 8, 8 and 2 bytes.\<close>

lemma copy_18_agree:
  assumes agree: "take c buf = take c T"
    and off: "8 \<le> off" "off \<le> c"
    and n: "n \<le> 18" "c + n \<le> length T" "c + 18 \<le> length buf"
    and per: "\<forall>k<n. T ! (c + k) = T ! (c - off + k)"
    and b1: "buf1 = store_bytes buf c (load_bytes buf (c - off) 8)"
    and b2: "buf2 = store_bytes buf1 (c + 8) (load_bytes buf1 (c - off + 8) 8)"
    and b3: "buf3 = store_bytes buf2 (c + 16) (load_bytes buf2 (c - off + 16) 2)"
  shows "take (c + n) buf3 = take (c + n) T \<and> length buf3 = length buf"
proof -
  have l1: "length buf1 = length buf"
    using n off by (simp add: b1 length_store_bytes load_bytes_def)
  have l2: "length buf2 = length buf"
    using n off l1 by (simp add: b2 length_store_bytes load_bytes_def)
  have l3: "length buf3 = length buf"
    using n off l2 by (simp add: b3 length_store_bytes load_bytes_def)
  have a1: "take (c + min 8 n) buf1 = take (c + min 8 n) T"
    unfolding b1 using agree off n per by (intro store_chunk_extend) simp_all
  have "take (c + n) buf3 = take (c + n) T"
  proof (cases "n \<le> 8")
    case True
    then have "c + n \<le> c + min 8 n" by arith
    from agree_weaken[OF a1 this] have "take (c + n) buf1 = take (c + n) T" .
    moreover have "take (c + n) buf2 = take (c + n) buf1"
      unfolding b2 using True l1 n by (intro take_store_bytes_below) simp_all
    moreover have "take (c + n) buf3 = take (c + n) buf2"
      unfolding b3 using True l2 n by (intro take_store_bytes_below) simp_all
    ultimately show ?thesis by simp
  next
    case False
    then have "c + 8 \<le> c + min 8 n" by arith
    from agree_weaken[OF a1 this] have a1': "take (c + 8) buf1 = take (c + 8) T" .
    have per2: "\<forall>k<min 8 (n - 8). T ! (c + 8 + k) = T ! (c - off + 8 + k)"
    proof (intro allI impI)
      fix k assume "k < min 8 (n - 8)"
      then have "8 + k < n" by arith
      from per[rule_format, OF this] show "T ! (c + 8 + k) = T ! (c - off + 8 + k)"
        by (simp add: add.assoc)
    qed
    have a2: "take (c + 8 + min 8 (n - 8)) buf2 = take (c + 8 + min 8 (n - 8)) T"
      unfolding b2 using a1' off n l1 per2 False by (intro store_chunk_extend) simp_all
    show ?thesis
    proof (cases "n \<le> 16")
      case True
      then have "c + n \<le> c + 8 + min 8 (n - 8)" using False by arith
      from agree_weaken[OF a2 this] have "take (c + n) buf2 = take (c + n) T" .
      moreover have "take (c + n) buf3 = take (c + n) buf2"
        unfolding b3 using True l2 n by (intro take_store_bytes_below) simp_all
      ultimately show ?thesis by simp
    next
      case F2: False
      then have "c + 16 \<le> c + 8 + min 8 (n - 8)" by arith
      from agree_weaken[OF a2 this] have a2': "take (c + 16) buf2 = take (c + 16) T" .
      have per3: "\<forall>k<n - 16. T ! (c + 16 + k) = T ! (c - off + 16 + k)"
      proof (intro allI impI)
        fix k assume "k < n - 16"
        then have "16 + k < n" by arith
        from per[rule_format, OF this] show "T ! (c + 16 + k) = T ! (c - off + 16 + k)"
          by (simp add: add.assoc)
      qed
      have "take (c + 16 + (n - 16)) buf3 = take (c + 16 + (n - 16)) T"
        unfolding b3 using a2' off n l2 per3 F2 by (intro store_chunk_extend) simp_all
      then show ?thesis using F2 by simp
    qed
  qed
  then show ?thesis using l3 by simp
qed

text \<open>The copy of the literals, with or without the 16-byte fast path.\<close>

lemma store_literals_agree:
  assumes agree: "take c buf = take c T"
    and lits: "take L inp = take L (drop c T)" "L \<le> length inp" "L \<le> m"
    and "c + L \<le> length T" "c + m \<le> length buf"
  shows "take (c + L) (store_bytes buf c (take m inp)) = take (c + L) T"
proof -
  have "take (c + L) (store_bytes buf c (take m inp)) = take c buf @ take L (take m inp)"
    using assms by (intro take_store_bytes_ext) simp_all
  also have "\<dots> = take c T @ take L (drop c T)" using assms by (simp add: min_def)
  also have "\<dots> = take (c + L) T" by (simp add: take_add)
  finally show ?thesis .
qed


section \<open>Tokens, offsets and lengths read back\<close>

lemma m4: "(0x0f :: 8 word) = mask 4" by (simp add: mask_eq_exp_minus_1)

lemma unat_byte: "0 \<le> n \<Longrightarrow> n < 256 \<Longrightarrow> unat (word_of_int n :: 8 word) = nat n"
  by (simp add: unsigned_of_int take_bit_int_eq_self)

lemma token_low:
  assumes "0 \<le> a" "a \<le> 15" "0 \<le> b" "b \<le> 15"
  shows "unat ((word_of_int (push_bit 4 a OR b) :: 8 word) AND 0x0f) = nat b"
proof -
  have "take_bit 4 (push_bit 4 a OR b) = b"
    using assms by (simp add: take_bit_or take_bit_push_bit take_bit_int_eq_self)
  then have "(word_of_int (push_bit 4 a OR b) :: 8 word) AND mask 4 = word_of_int b"
    by (simp add: take_bit_eq_mask[symmetric] take_bit_of_int)
  then show ?thesis using assms by (simp add: m4 unat_byte)
qed

lemma token_high:
  assumes "0 \<le> a" "a \<le> 15" "0 \<le> b" "b \<le> 15"
  shows "unat (drop_bit 4 ((word_of_int (push_bit 4 a OR b) :: 8 word) AND 0xf0)) = nat a"
proof -
  have "drop_bit 4 ((w :: 8 word) AND 0xf0) = drop_bit 4 w" for w
  proof -
    have "drop_bit 4 (w AND 0xf0) = drop_bit 4 w AND 0x0f" by (simp add: drop_bit_and)
    also have "\<dots> = drop_bit 4 w AND mask 4" by (simp only: m4)
    also have "\<dots> = drop_bit 4 w"
      by (rule bit_word_eqI) (auto simp: bit_simps dest: bit_imp_le_length)
    finally show ?thesis .
  qed
  moreover have "unat (drop_bit 4 (word_of_int (push_bit 4 a OR b) :: 8 word)) = nat a"
  proof -
    have lt: "push_bit 4 a OR b < 2 ^ 8"
      using assms by (intro OR_upper) (simp_all add: push_bit_eq_mult)
    have ge: "0 \<le> push_bit 4 a OR b" using assms by simp
    have "drop_bit 4 b = 0" using assms by (simp add: drop_bit_eq_div)
    then have d: "drop_bit 4 (push_bit 4 a OR b) = a"
      by (simp add: drop_bit_or drop_bit_push_bit)
    have "unat (drop_bit 4 (word_of_int (push_bit 4 a OR b) :: 8 word)) =
          drop_bit 4 (unat (word_of_int (push_bit 4 a OR b) :: 8 word))"
      by (rule unat_drop_bit_eq)
    also have "\<dots> = drop_bit 4 (nat (push_bit 4 a OR b))"
    proof -
      have "push_bit 4 a OR b < 256" using lt by simp
      from unat_byte[OF ge this] show ?thesis by (simp only:)
    qed
    also have "\<dots> = nat (drop_bit 4 (push_bit 4 a OR b))"
      using ge by (simp only: drop_bit_eq_div nat_div_distrib) simp
    finally show ?thesis by (simp only: d)
  qed
  ultimately show ?thesis by simp
qed


lemma offset_bytes:
  assumes "0 \<le> off" "off \<le> 65535"
  shows "unat (word_of_int (off AND 0xff) :: 8 word) OR
         push_bit 8 (unat (word_of_int (drop_bit 8 off) :: 8 word)) = nat off"
proof -
  have lo: "off AND 0xff = take_bit 8 off"
    by (simp add: take_bit_eq_mask mask_eq_exp_minus_1)
  have "take_bit 8 off < 256" using take_bit_int_less_exp[of 8 off] by simp
  then have u1: "unat (word_of_int (off AND 0xff) :: 8 word) = nat (take_bit 8 off)"
    by (simp only: lo) (rule unat_byte, simp_all)
  have "drop_bit 8 off < 256" using assms by (simp add: drop_bit_eq_div)
  moreover have "0 \<le> drop_bit 8 off" using assms by (simp add: drop_bit_eq_div)
  ultimately have u2: "unat (word_of_int (drop_bit 8 off) :: 8 word) = nat (drop_bit 8 off)"
    by (intro unat_byte)
  have "nat (take_bit 8 off) OR push_bit 8 (nat (drop_bit 8 off)) =
        take_bit 8 (nat off) OR push_bit 8 (drop_bit 8 (nat off))"
    using assms by (simp add: take_bit_eq_mod drop_bit_eq_div nat_mod_distrib nat_div_distrib)
  also have "\<dots> = nat off"
    by (rule bit_eqI) (auto simp: bit_simps)
  finally show ?thesis by (simp only: u1 u2)
qed

lemma build_len_varlen:
  "0 \<le> n \<Longrightarrow> build_len (varlen_bytes n @ rest) base = Some (base + nat n, rest)"
proof (induction n arbitrary: base rule: varlen_bytes.induct)
  case (1 n)
  show ?case
  proof (cases "n \<ge> 255")
    case True
    then have "build_len (varlen_bytes (n - 255) @ rest) (base + 255) = Some (base + 255 + nat (n - 255), rest)"
      using 1 by simp
    then show ?thesis using True by (subst varlen_bytes.simps) (simp add: nat_diff_distrib)
  next
    case False
    have u: "unat (word_of_int n :: 8 word) = nat n" using False 1(2) by (intro unat_byte) simp_all
    have "(word_of_int n :: 8 word) \<noteq> 255"
    proof
      assume "(word_of_int n :: 8 word) = 255"
      then have "unat (word_of_int n :: 8 word) = 255" by simp
      then show False using u False 1(2) by simp
    qed
    then show ?thesis using False u by (subst varlen_bytes.simps) simp
  qed
qed


section \<open>Decoding one command\<close>

lemma expand_literals_ok:
  assumes L: "0 \<le> L" "length lits = nat L"
    and tok: "unat (drop_bit 4 (token AND 0xf0)) = nat (if L \<ge> LITERALS_RUN_LEN then LITERALS_RUN_LEN else L)"
    and lits: "lits = take (nat L) (drop cur T)"
    and agree: "take cur buf = take cur T"
    and bounds: "cur + nat L \<le> length T" "length T \<le> oend" "oend \<le> length buf"
  shows "\<exists>buf'. expand_literals oend token (lz4ultra_write_literals_varlen [] L @ lits @ rest) buf cur =
           Some (rest, buf', cur + nat L) \<and>
         take (cur + nat L) buf' = take (cur + nat L) T \<and> length buf' = length buf"
proof (cases "L \<ge> 15")
  case True
  have inp: "lz4ultra_write_literals_varlen [] L @ lits @ rest = varlen_bytes (L - 15) @ lits @ rest"
    using True by (simp add: lz4ultra_write_literals_varlen_def LITERALS_RUN_LEN_def)
  have bl: "build_len (varlen_bytes (L - 15) @ lits @ rest) 15 = Some (nat L, lits @ rest)"
    using True build_len_varlen[of "L - 15" "lits @ rest" 15] by (simp add: nat_diff_distrib)
  have a: "take (cur + nat L) (store_bytes buf cur (take (nat L) (lits @ rest))) = take (cur + nat L) T"
    using assms by (intro store_literals_agree) simp_all
  have l: "length (store_bytes buf cur (take (nat L) (lits @ rest))) = length buf"
    using assms by (intro length_store_bytes) simp
  show ?thesis
    using True tok L bounds a l
    by (simp add: expand_literals_def inp bl LITERALS_RUN_LEN_def Let_def del: take_append)
next
  case False
  have inp: "lz4ultra_write_literals_varlen [] L @ lits @ rest = lits @ rest"
    using False by (simp add: lz4ultra_write_literals_varlen_def LITERALS_RUN_LEN_def)
  have n: "unat (drop_bit 4 (token AND 0xf0)) = nat L" "nat L \<noteq> 15"
    using False tok L by (simp_all add: LITERALS_RUN_LEN_def)
  show ?thesis
  proof (cases "cur + 18 \<le> oend \<and> 16 \<le> length (lits @ rest)")
    case T2: True
    have a: "take (cur + nat L) (store_bytes buf cur (take 16 (lits @ rest))) = take (cur + nat L) T"
      using assms False T2 by (intro store_literals_agree) simp_all
    have "length (take 16 (lits @ rest)) = 16" using T2 by (simp del: take_append)
    then have "cur + length (take 16 (lits @ rest)) \<le> length buf" using T2 bounds by linarith
    then have l: "length (store_bytes buf cur (take 16 (lits @ rest))) = length buf"
      by (rule length_store_bytes)
    show ?thesis using T2 n a l L
      by (simp add: expand_literals_def inp LITERALS_RUN_LEN_def Let_def del: take_append)
  next
    case F2: False
    have a: "take (cur + nat L) (store_bytes buf cur (take (nat L) (lits @ rest))) = take (cur + nat L) T"
      using assms by (intro store_literals_agree) simp_all
    have l: "length (store_bytes buf cur (take (nat L) (lits @ rest))) = length buf"
      using assms by (intro length_store_bytes) simp
    show ?thesis using F2 n a l L bounds
      by (auto simp add: expand_literals_def inp LITERALS_RUN_LEN_def Let_def simp del: take_append)
  qed
qed

lemma expand_match_ok:
  assumes n: "4 \<le> n" and off: "1 \<le> off" "off \<le> 65535" "nat off \<le> cur"
    and tok: "unat (token AND 0x0f) = nat (if n - MIN_MATCH_SIZE \<ge> MATCH_RUN_LEN then MATCH_RUN_LEN else n - MIN_MATCH_SIZE)"
    and agree: "take cur buf = take cur T"
    and per: "\<forall>k<nat n. T ! (cur + k) = T ! (cur - nat off + k)"
    and bounds: "cur + nat n \<le> length T" "length T \<le> oend" "oend \<le> length buf"
  shows "\<exists>buf'. expand_match oend token
           ([word_of_int (off AND 0xff), word_of_int (drop_bit 8 off)] @
            lz4ultra_write_match_varlen [] (n - MIN_MATCH_SIZE) @ rest) buf cur =
           Some (rest, buf', cur + nat n) \<and>
         take (cur + nat n) buf' = take (cur + nat n) T \<and> length buf' = length buf"
proof -
  let ?inp = "[word_of_int (off AND 0xff), word_of_int (drop_bit 8 off)] @
            lz4ultra_write_match_varlen [] (n - MIN_MATCH_SIZE) @ rest"
  have o: "unat (word_of_int (off AND 0xff) :: 8 word) OR
           push_bit 8 (unat (word_of_int (drop_bit 8 off) :: 8 word)) = nat off"
    using offset_bytes[of off] off by simp
  have d: "drop 2 ?inp = lz4ultra_write_match_varlen [] (n - MIN_MATCH_SIZE) @ rest" by simp
  show ?thesis
  proof (cases "n < 19")
    case True
    have t: "unat (token AND 0x0f) + nat MIN_MATCH_SIZE = nat n"
      using True n tok by (simp add: MIN_MATCH_SIZE_def MATCH_RUN_LEN_def nat_diff_distrib)
    have ne: "nat n \<noteq> nat (MATCH_RUN_LEN + MIN_MATCH_SIZE)"
      using True n by (simp add: MIN_MATCH_SIZE_def MATCH_RUN_LEN_def)
    have v: "lz4ultra_write_match_varlen [] (n - MIN_MATCH_SIZE) @ rest = rest"
      using True by (simp add: lz4ultra_write_match_varlen_def MIN_MATCH_SIZE_def MATCH_RUN_LEN_def)
    show ?thesis
    proof (cases "nat off \<ge> 8 \<and> cur + 18 \<le> oend")
      case T2: True
      define buf1 where "buf1 = store_bytes buf cur (load_bytes buf (cur - nat off) 8)"
      define buf2 where "buf2 = store_bytes buf1 (cur + 8) (load_bytes buf1 (cur - nat off + 8) 8)"
      define buf3 where "buf3 = store_bytes buf2 (cur + 16) (load_bytes buf2 (cur - nat off + 16) 2)"
      have "take (cur + nat n) buf3 = take (cur + nat n) T \<and> length buf3 = length buf"
        using agree T2 off True bounds per
        by (intro copy_18_agree[where T=T and off="nat off" and n="nat n" and c=cur and buf=buf,
              OF _ _ _ _ _ _ _ buf1_def buf2_def buf3_def])
           simp_all
      moreover have "expand_match oend token ?inp buf cur = Some (rest, buf3, cur + nat n)"
        unfolding expand_match_def d t Let_def using o T2 ne off v
        by (simp add: buf1_def buf2_def buf3_def)
      ultimately show ?thesis by blast
    next
      case F2: False
      have c: "\<not> (nat n \<noteq> nat (MATCH_RUN_LEN + MIN_MATCH_SIZE) \<and> 8 \<le> nat off \<and> cur + 18 \<le> oend)"
        using F2 by simp
      show ?thesis
      proof (cases "nat off \<ge> 16 \<and> cur + nat n + 18 \<le> oend")
        case T3: True
        have "take (cur + nat n) (copy_16 buf (cur - nat off) cur (cur + nat n)) = take (cur + nat n) T \<and>
              length (copy_16 buf (cur - nat off) cur (cur + nat n)) = length buf"
          using agree T3 off n bounds per by (intro copy_16_agree[where off="nat off"]) simp_all
        moreover have "expand_match oend token ?inp buf cur =
              Some (rest, copy_16 buf (cur - nat off) cur (cur + nat n), cur + nat n)"
          unfolding expand_match_def d t Let_def using o c ne off v T3 bounds
          by auto
        ultimately show ?thesis by blast
      next
        case F3: False
        have "take (cur + nat n) (copy_bytewise buf cur (cur - nat off) (nat n)) = take (cur + nat n) T \<and>
              length (copy_bytewise buf cur (cur - nat off) (nat n)) = length buf"
          using agree off n bounds per by (intro copy_bytewise_agree) simp_all
        moreover have "expand_match oend token ?inp buf cur =
              Some (rest, copy_bytewise buf cur (cur - nat off) (nat n), cur + nat n)"
          unfolding expand_match_def d t Let_def using o c ne off v F3 bounds
          by auto
        ultimately show ?thesis by blast
      qed
    qed
  next
    case False
    have t: "unat (token AND 0x0f) + nat MIN_MATCH_SIZE = nat (MATCH_RUN_LEN + MIN_MATCH_SIZE)"
      using False n tok by (simp add: MIN_MATCH_SIZE_def MATCH_RUN_LEN_def)
    have v: "lz4ultra_write_match_varlen [] (n - MIN_MATCH_SIZE) @ rest = varlen_bytes (n - 19) @ rest"
      using False by (simp add: lz4ultra_write_match_varlen_def MIN_MATCH_SIZE_def MATCH_RUN_LEN_def)
    have bl: "build_len (varlen_bytes (n - 19) @ rest) (nat (MATCH_RUN_LEN + MIN_MATCH_SIZE)) = Some (nat n, rest)"
      using False build_len_varlen[of "n - 19" rest 19]
      by (simp add: nat_diff_distrib MIN_MATCH_SIZE_def MATCH_RUN_LEN_def)
    show ?thesis
    proof (cases "nat off \<ge> 16 \<and> cur + nat n + 18 \<le> oend")
      case T3: True
      have "take (cur + nat n) (copy_16 buf (cur - nat off) cur (cur + nat n)) = take (cur + nat n) T \<and>
            length (copy_16 buf (cur - nat off) cur (cur + nat n)) = length buf"
        using agree T3 off n bounds per by (intro copy_16_agree[where off="nat off"]) simp_all
      moreover have "expand_match oend token ?inp buf cur =
            Some (rest, copy_16 buf (cur - nat off) cur (cur + nat n), cur + nat n)"
        unfolding expand_match_def d t Let_def v using o off T3 bounds bl
        by auto
      ultimately show ?thesis by blast
    next
      case F3: False
      have "take (cur + nat n) (copy_bytewise buf cur (cur - nat off) (nat n)) = take (cur + nat n) T \<and>
            length (copy_bytewise buf cur (cur - nat off) (nat n)) = length buf"
        using agree off n bounds per by (intro copy_bytewise_agree) simp_all
      moreover have "expand_match oend token ?inp buf cur =
            Some (rest, copy_bytewise buf cur (cur - nat off) (nat n), cur + nat n)"
        unfolding expand_match_def d t Let_def v using o off F3 bounds bl
        by auto
      ultimately show ?thesis by blast
    qed
  qed
qed


lemma expand_loop_match_command:
  assumes L: "0 \<le> L"
    and m: "4 \<le> length_m m" "1 \<le> offset_m m" "offset_m m \<le> 65535"
    and src: "nat (offset_m m) \<le> cur + nat L"
    and lits: "window_bytes W (i - L) L = take (nat L) (drop cur T)" "cur + nat L \<le> length T"
    and agree: "take cur buf = take cur T"
    and per: "\<forall>k<nat (length_m m). T ! (cur + nat L + k) = T ! (cur + nat L - nat (offset_m m) + k)"
    and bounds: "cur + nat L + nat (length_m m) \<le> length T" "length T \<le> oend" "oend \<le> length buf"
  shows "\<exists>buf'. expand_loop oend (match_command_bytes W m i L @ rest) buf cur =
           expand_loop oend rest buf' (cur + nat L + nat (length_m m)) \<and>
         take (cur + nat L + nat (length_m m)) buf' = take (cur + nat L + nat (length_m m)) T \<and>
         length buf' = length buf"
proof -
  define a where "a = (if L \<ge> LITERALS_RUN_LEN then LITERALS_RUN_LEN else L)"
  define b where "b = (if length_m m - MIN_MATCH_SIZE \<ge> MATCH_RUN_LEN then MATCH_RUN_LEN
                       else length_m m - MIN_MATCH_SIZE)"
  define token :: byte where "token = word_of_int (push_bit 4 a OR b)"
  define tail where "tail = [word_of_int (offset_m m AND 0xff), word_of_int (drop_bit 8 (offset_m m))] @
            lz4ultra_write_match_varlen [] (length_m m - MIN_MATCH_SIZE) @ rest"
  have ab: "0 \<le> a" "a \<le> 15" "0 \<le> b" "b \<le> 15"
    using L m by (simp_all add: a_def b_def LITERALS_RUN_LEN_def MATCH_RUN_LEN_def MIN_MATCH_SIZE_def)
  have th: "unat (drop_bit 4 (token AND 0xf0)) = nat a"
    unfolding token_def by (rule token_high[OF ab])
  have tl: "unat (token AND 0x0f) = nat b"
    unfolding token_def by (rule token_low[OF ab])
  have ll: "length (window_bytes W (i - L) L) = nat L"
    using lits by simp
  have bytes: "match_command_bytes W m i L @ rest =
        token # (lz4ultra_write_literals_varlen [] L @ window_bytes W (i - L) L @ tail)"
    by (simp add: match_command_bytes_def Let_def token_def a_def b_def tail_def)
  from expand_literals_ok[where rest=tail, OF L ll th[unfolded a_def] lits(1) agree lits(2) bounds(2,3)]
  obtain buf1 where b1: "expand_literals oend token
        (lz4ultra_write_literals_varlen [] L @ window_bytes W (i - L) L @ tail) buf cur =
        Some (tail, buf1, cur + nat L)"
      "take (cur + nat L) buf1 = take (cur + nat L) T" "length buf1 = length buf" by blast
  from expand_match_ok[where rest=rest, OF m(1,2,3) src tl[unfolded b_def] b1(2) per bounds(1,2)]
  obtain buf2 where b2: "expand_match oend token tail buf1 (cur + nat L) =
        Some (rest, buf2, cur + nat L + nat (length_m m))"
      "take (cur + nat L + nat (length_m m)) buf2 = take (cur + nat L + nat (length_m m)) T"
      "length buf2 = length buf1"
    using bounds(3) b1(3) by (auto simp: tail_def)
  have "2 \<le> length tail" by (simp add: tail_def)
  then have "expand_command oend token
        (lz4ultra_write_literals_varlen [] L @ window_bytes W (i - L) L @ tail) buf cur =
        Some (rest, buf2, cur + nat L + nat (length_m m))"
    by (simp add: expand_command_def b1(1) b2(1))
  then have "expand_loop oend (match_command_bytes W m i L @ rest) buf cur =
        expand_loop oend rest buf2 (cur + nat L + nat (length_m m))"
    by (simp add: bytes)
  then show ?thesis using b2(2,3) b1(3) by auto
qed

lemma expand_loop_last_command:
  assumes L: "0 \<le> L"
    and lits: "window_bytes W (i - L) L = take (nat L) (drop cur T)" "cur + nat L \<le> length T"
    and agree: "take cur buf = take cur T"
    and bounds: "length T \<le> oend" "oend \<le> length buf"
  shows "\<exists>buf'. expand_loop oend (last_command_bytes W i L) buf cur = Some (buf', cur + nat L) \<and>
         take (cur + nat L) buf' = take (cur + nat L) T \<and> length buf' = length buf"
proof -
  define a where "a = (if L \<ge> LITERALS_RUN_LEN then LITERALS_RUN_LEN else L)"
  define token :: byte where "token = word_of_int (push_bit 4 a OR 0)"
  have ab: "0 \<le> a" "a \<le> 15" "0 \<le> (0::int)" "(0::int) \<le> 15"
    using L by (simp_all add: a_def LITERALS_RUN_LEN_def)
  have th: "unat (drop_bit 4 (token AND 0xf0)) = nat a"
    unfolding token_def by (rule token_high[OF ab])
  have ll: "length (window_bytes W (i - L) L) = nat L"
    using lits by simp
  have bytes: "last_command_bytes W i L =
        token # (lz4ultra_write_literals_varlen [] L @ window_bytes W (i - L) L @ [])"
    by (simp add: last_command_bytes_def Let_def token_def a_def)
  from expand_literals_ok[where rest="[]", OF L ll th[unfolded a_def] lits(1) agree lits(2) bounds]
  obtain buf1 where b1: "expand_literals oend token
        (lz4ultra_write_literals_varlen [] L @ window_bytes W (i - L) L @ []) buf cur =
        Some ([], buf1, cur + nat L)"
      "take (cur + nat L) buf1 = take (cur + nat L) T" "length buf1 = length buf" by blast
  have "expand_command oend token
        (lz4ultra_write_literals_varlen [] L @ window_bytes W (i - L) L @ []) buf cur =
        Some ([], buf1, cur + nat L)"
    by (simp only: expand_command_def b1(1)) simp
  then have "expand_loop oend (last_command_bytes W i L) buf cur = Some (buf1, cur + nat L)"
    by (simp only: bytes expand_loop.simps) simp
  then show ?thesis using b1(2,3) by auto
qed


section \<open>Decoding the bytes of a block\<close>

text \<open>
  The output buffer holds \<open>pad\<close> bytes before the window: the decompressor's position for
  the window position \<open>p\<close> is \<open>length pad + p\<close>.
\<close>

lemma window_literals:
  assumes "0 \<le> L" "L \<le> i" "i \<le> e" "e \<le> int (length W)"
  shows "window_bytes W (i - L) L =
         take (nat L) (drop (length pad + nat (i - L)) (pad @ take (nat e) W))"
proof -
  have "nat L \<le> nat e - nat (i - L)" using assms by linarith
  then have "take (nat L) (drop (nat (i - L)) (take (nat e) W)) = take (nat L) (drop (nat (i - L)) W)"
    by (simp add: drop_take min_def)
  then show ?thesis by (simp add: window_bytes_def)
qed

lemma window_periodic:
  assumes v: "valid_match W e i m" and "0 \<le> i" "e \<le> int (length W)"
  shows "\<forall>k<nat (length_m m). (pad @ take (nat e) W) ! (length pad + nat i + k) =
           (pad @ take (nat e) W) ! (length pad + nat i - nat (offset_m m) + k)"
proof (intro allI impI)
  fix k assume k: "k < nat (length_m m)"
  have r: "4 \<le> length_m m" "1 \<le> offset_m m" "offset_m m \<le> i" "i + length_m m \<le> e - 5"
    and eq: "take (nat (length_m m)) (drop (nat i) W) =
             take (nat (length_m m)) (drop (nat (i - offset_m m)) W)"
    using v by (simp_all add: valid_match_def window_eq_def format_defs)
  have i1: "nat i + k < nat e" using k r assms by linarith
  have i2: "nat (i - offset_m m) + k < nat e" using k r assms by linarith
  have le: "nat e \<le> length W" using assms by linarith
  have "take (nat (length_m m)) (drop (nat i) W) ! k = W ! (nat i + k)"
    using k i1 le by simp
  moreover have "take (nat (length_m m)) (drop (nat (i - offset_m m)) W) ! k =
                 W ! (nat (i - offset_m m) + k)"
    using k i2 le by simp
  ultimately have w: "W ! (nat i + k) = W ! (nat (i - offset_m m) + k)" using eq by simp
  have s: "length pad + nat i - nat (offset_m m) + k = length pad + (nat (i - offset_m m) + k)"
    using r assms by linarith
  have "(pad @ take (nat e) W) ! (length pad + (nat i + k)) = W ! (nat i + k)"
    using i1 by (simp add: nth_append)
  moreover have "(pad @ take (nat e) W) ! (length pad + (nat (i - offset_m m) + k)) =
                 W ! (nat (i - offset_m m) + k)"
    using i2 by (simp add: nth_append)
  ultimately show "(pad @ take (nat e) W) ! (length pad + nat i + k) =
           (pad @ take (nat e) W) ! (length pad + nat i - nat (offset_m m) + k)"
    using w by (simp only: s add.assoc)
qed

lemma expand_loop_encode_block:
  "walk_valid W ms e t i \<Longrightarrow> t = e \<Longrightarrow> 0 \<le> L \<Longrightarrow> L \<le> i \<Longrightarrow> e \<le> int (length W) \<Longrightarrow>
   take (length pad + nat (i - L)) buf = take (length pad + nat (i - L)) (pad @ take (nat e) W) \<Longrightarrow>
   length pad + nat e \<le> oend \<Longrightarrow> oend \<le> length buf \<Longrightarrow>
   \<exists>buf'. expand_loop oend (encode_block W ms e i L) buf (length pad + nat (i - L)) =
            Some (buf', length pad + nat e) \<and>
          take (length pad + nat e) buf' = pad @ take (nat e) W \<and> length buf' = length buf"
proof (induction W ms e t i arbitrary: L buf rule: walk_valid.induct)
  case (1 W ms e t i)
  note wk = 1(3) and te = 1(4) and L0 = 1(5) and Li = 1(6) and eW = 1(7) and agree = 1(8)
    and oe = 1(9) and ob = 1(10)
  let ?T = "pad @ take (nat e) W"
  let ?cur = "length pad + nat (i - L)"
  have lT: "length ?T = length pad + nat e" using eW by simp
  have ie: "i \<le> e" using walk_valid_le[OF wk] te by simp
  have i0: "0 \<le> i" using L0 Li by simp
  show ?case
  proof (cases "i \<ge> e")
    case True
    then have ieq: "i = e" using ie by simp
    have enc: "encode_block W ms e i L = last_command_bytes W i L"
      using True by (subst encode_block.simps) simp
    have c: "?cur + nat L = length pad + nat e" using ieq L0 Li by linarith
    have b2: "?cur + nat L \<le> length ?T" using c lT by simp
    have b4: "length ?T \<le> oend" using lT oe by simp
    have tT: "take (length pad + nat e) ?T = ?T" using lT by simp
    from expand_loop_last_command[where buf=buf and oend=oend and T="?T" and cur="?cur" and i=i
        and W=W, OF L0 window_literals[OF L0 Li ie eW] b2 agree b4 ob]
    obtain buf' where "expand_loop oend (last_command_bytes W i L) buf ?cur = Some (buf', ?cur + nat L)"
      "take (?cur + nat L) buf' = take (?cur + nat L) ?T" "length buf' = length buf"
      by blast
    then have "expand_loop oend (encode_block W ms e i L) buf ?cur = Some (buf', length pad + nat e)"
      "take (length pad + nat e) buf' = ?T" "length buf' = length buf"
      by (simp_all only: enc c tT)
    then show ?thesis by blast
  next
    case False
    then have nt: "\<not> t \<le> i" and lt: "i < t" using te by simp_all
    show ?thesis
    proof (cases "length_m (ms i) \<ge> MIN_MATCH_SIZE")
      case True
      have v: "valid_match W e i (ms i)" "walk_valid W ms e t (i + length_m (ms i))"
        using wk walk_valid_match[where ms=ms and a=i and t=t and W=W and e=e, OF lt True] by auto
      have r: "4 \<le> length_m (ms i)" "1 \<le> offset_m (ms i)" "offset_m (ms i) \<le> 65535"
        "offset_m (ms i) \<le> i" "i + length_m (ms i) \<le> e - 5"
        using v(1) by (simp_all add: valid_match_def format_defs)
      have enc: "encode_block W ms e i L =
          match_command_bytes W (ms i) i L @ encode_block W ms e (i + length_m (ms i)) 0"
        using False True by (subst encode_block.simps) simp
      have cL: "?cur + nat L = length pad + nat i" using L0 Li by linarith
      have c2: "?cur + nat L + nat (length_m (ms i)) = length pad + nat (i + length_m (ms i) - 0)"
        using L0 Li r by linarith
      have per: "\<forall>k<nat (length_m (ms i)). ?T ! (?cur + nat L + k) =
                   ?T ! (?cur + nat L - nat (offset_m (ms i)) + k)"
        using window_periodic[OF v(1) i0 eW, of pad] by (simp only: cL)
      have b1: "nat (offset_m (ms i)) \<le> ?cur + nat L" using r i0 cL by linarith
      have b2: "?cur + nat L \<le> length ?T" using lT cL ie i0 by linarith
      have b3: "?cur + nat L + nat (length_m (ms i)) \<le> length ?T" using lT c2 r i0 by linarith
      have b4: "length ?T \<le> oend" using lT oe by simp
      from expand_loop_match_command[where rest="encode_block W ms e (i + length_m (ms i)) 0"
          and W=W and i=i, OF L0 r(1,2,3) b1 window_literals[OF L0 Li ie eW] b2 agree per b3 b4 ob]
      obtain buf1 where b: "expand_loop oend (match_command_bytes W (ms i) i L @
            encode_block W ms e (i + length_m (ms i)) 0) buf ?cur =
          expand_loop oend (encode_block W ms e (i + length_m (ms i)) 0) buf1
            (?cur + nat L + nat (length_m (ms i)))"
        "take (?cur + nat L + nat (length_m (ms i))) buf1 =
         take (?cur + nat L + nat (length_m (ms i))) ?T"
        "length buf1 = length buf" by blast
      have a1: "take (length pad + nat (i + length_m (ms i) - 0)) buf1 =
                take (length pad + nat (i + length_m (ms i) - 0)) ?T"
        using b(2) by (simp only: c2)
      have il0: "0 \<le> i + length_m (ms i)" using i0 r by simp
      have ob1: "oend \<le> length buf1" using b(3) ob by simp
      have z: "(0::int) \<le> 0" by simp
      from 1(1)[OF nt True v(1) v(2) te z il0 eW a1 oe ob1]
      obtain buf' where b': "expand_loop oend (encode_block W ms e (i + length_m (ms i)) 0) buf1
            (length pad + nat (i + length_m (ms i) - 0)) = Some (buf', length pad + nat e)"
        "take (length pad + nat e) buf' = ?T" "length buf' = length buf1" by blast
      have "expand_loop oend (encode_block W ms e i L) buf ?cur = Some (buf', length pad + nat e)"
        using b(1) b'(1) by (simp only: enc c2)
      then show ?thesis using b'(2,3) b(3) by auto
    next
      case F2: False
      have w: "walk_valid W ms e t (i + 1)"
        using wk walk_valid_lit[where ms=ms and a=i and t=t and W=W and e=e, OF lt F2] by simp
      have enc: "encode_block W ms e i L = encode_block W ms e (i + 1) (L + 1)"
        using False F2 by (subst encode_block.simps) simp
      have c: "i + 1 - (L + 1) = i - L" by simp
      have l1: "0 \<le> L + 1" "L + 1 \<le> i + 1" using L0 Li by simp_all
      have a1: "take (length pad + nat (i + 1 - (L + 1))) buf =
                take (length pad + nat (i + 1 - (L + 1))) ?T"
        using agree by (simp only: c)
      have "\<exists>buf'. expand_loop oend (encode_block W ms e (i + 1) (L + 1)) buf
              (length pad + nat (i + 1 - (L + 1))) = Some (buf', length pad + nat e) \<and>
            take (length pad + nat e) buf' = ?T \<and> length buf' = length buf"
        by (rule 1(2)[OF nt F2 w te l1 eW a1 oe ob])
      then show ?thesis by (simp only: enc c)
    qed
  qed
qed


section \<open>The emitter writes the bytes of the block\<close>

lemma write_literals_varlen_append:
  "lz4ultra_write_literals_varlen out n = out @ lz4ultra_write_literals_varlen [] n"
  by (simp add: lz4ultra_write_literals_varlen_def)

lemma write_match_varlen_append:
  "lz4ultra_write_match_varlen out n = out @ lz4ultra_write_match_varlen [] n"
  by (simp add: lz4ultra_write_match_varlen_def)

lemma literals_varlen_size_bytes:
  "0 \<le> n \<Longrightarrow> lz4ultra_get_literals_varlen_size n = 8 * int (length (lz4ultra_write_literals_varlen [] n))"
  by (cases "15 \<le> n")
     (simp_all add: literals_varlen_size_ge literals_varlen_size_lt lz4ultra_write_literals_varlen_def
        LITERALS_RUN_LEN_def length_varlen_bytes)

lemma match_varlen_size_bytes:
  "0 \<le> n \<Longrightarrow> lz4ultra_get_match_varlen_size n = 8 * int (length (lz4ultra_write_match_varlen [] n))"
  by (cases "15 \<le> n")
     (simp_all add: match_varlen_size_ge match_varlen_size_lt lz4ultra_write_match_varlen_def
        MATCH_RUN_LEN_def length_varlen_bytes)

lemma length_window_bytes:
  "0 \<le> a \<Longrightarrow> 0 \<le> n \<Longrightarrow> a + n \<le> int (length W) \<Longrightarrow> int (length (window_bytes W a n)) = n"
  by (simp add: window_bytes_def min_def) linarith

lemma length_match_command_bytes:
  assumes "0 \<le> L" "L \<le> i" "i \<le> int (length W)" "4 \<le> length_m m"
  shows "int (length (match_command_bytes W m i L)) =
         drop_bit 3 (8 + lz4ultra_get_literals_varlen_size L + push_bit 3 L + 16 +
                     lz4ultra_get_match_varlen_size (length_m m - MIN_MATCH_SIZE))"
proof -
  have w: "int (length (window_bytes W (i - L) L)) = L"
    using assms by (intro length_window_bytes) simp_all
  have "8 + lz4ultra_get_literals_varlen_size L + push_bit 3 L + 16 +
        lz4ultra_get_match_varlen_size (length_m m - MIN_MATCH_SIZE) =
        8 * (3 + int (length (lz4ultra_write_literals_varlen [] L)) + L +
             int (length (lz4ultra_write_match_varlen [] (length_m m - MIN_MATCH_SIZE))))"
    using assms
    by (simp add: literals_varlen_size_bytes match_varlen_size_bytes MIN_MATCH_SIZE_def push_bit_eq_mult)
  then show ?thesis using w
    by (simp add: match_command_bytes_def Let_def drop_bit_eq_div)
qed

lemma length_last_command_bytes:
  assumes "0 \<le> L" "L \<le> i" "i \<le> int (length W)"
  shows "int (length (last_command_bytes W i L)) =
         drop_bit 3 (8 + lz4ultra_get_literals_varlen_size L + push_bit 3 L)"
proof -
  have w: "int (length (window_bytes W (i - L) L)) = L"
    using assms by (intro length_window_bytes) simp_all
  have "8 + lz4ultra_get_literals_varlen_size L + push_bit 3 L =
        8 * (1 + int (length (lz4ultra_write_literals_varlen [] L)) + L)"
    using assms by (simp add: literals_varlen_size_bytes push_bit_eq_mult)
  then show ?thesis using w
    by (simp add: last_command_bytes_def Let_def drop_bit_eq_div)
qed

text \<open>The body of the emitter's loop at a valid match.\<close>

lemma write_match_command_valid:
  assumes v: "valid_match W e i (ms i)" and e31: "e \<le> 2147483647" and i0: "0 \<le> i"
    and st: "ws_i st = i" "0 \<le> ws_nNumLiterals st" "ws_nNumLiterals st \<le> i"
      "ws_nNumLiterals st \<noteq> 0 \<longrightarrow> ws_nInFirstLiteralOffset st = i - ws_nNumLiterals st"
    and eW: "e \<le> int (length W)"
  shows "write_match_command W ms mx st =
     (if int (length (ws_out st)) + int (length (match_command_bytes W (ms i) i (ws_nNumLiterals st))) > mx
      then Inl st
      else Inr (st\<lparr>ws_i := i + length_m (ms i), ws_nNumLiterals := 0,
                   ws_out := ws_out st @ match_command_bytes W (ms i) i (ws_nNumLiterals st),
                   ws_num_commands := ws_num_commands st + 1\<rparr>))"
proof -
  have r: "4 \<le> length_m (ms i)" "1 \<le> offset_m (ms i)" "offset_m (ms i) \<le> 65535"
    "offset_m (ms i) \<le> i" "i + length_m (ms i) \<le> e - 5"
    using v by (simp_all add: valid_match_def format_defs)
  have s32: "to_s32 (length_m (ms i)) = length_m (ms i)" "to_s32 (offset_m (ms i)) = offset_m (ms i)"
    using r e31 i0 by (simp_all add: to_s32_def)
  have ie: "i \<le> int (length W)" using r eW by simp
  have len: "int (length (match_command_bytes W (ms i) i (ws_nNumLiterals st))) =
         drop_bit 3 (8 + lz4ultra_get_literals_varlen_size (ws_nNumLiterals st) +
                     push_bit 3 (ws_nNumLiterals st) + 16 +
                     lz4ultra_get_match_varlen_size (length_m (ms i) - MIN_MATCH_SIZE))"
    by (rule length_match_command_bytes[OF st(2,3) ie r(1)])
  have lit0: "ws_nNumLiterals st = 0 \<Longrightarrow> window_bytes W (i - ws_nNumLiterals st) (ws_nNumLiterals st) = []"
    by (simp add: window_bytes_def)
  show ?thesis
    unfolding write_match_command_def Let_def st(1) s32 len
    using r st(4) lit0
    by (simp add: match_command_bytes_def Let_def MIN_OFFSET_def MAX_OFFSET_def
        write_literals_varlen_append[of "_ @ _"] write_match_varlen_append[of "_ @ _"])
qed


lemma encode_block_stop:
  "i \<ge> e \<Longrightarrow> encode_block W ms e i L = last_command_bytes W i L"
  by (subst encode_block.simps) simp

lemma encode_block_match:
  "i < e \<Longrightarrow> length_m (ms i) \<ge> MIN_MATCH_SIZE \<Longrightarrow>
   encode_block W ms e i L = match_command_bytes W (ms i) i L @ encode_block W ms e (i + length_m (ms i)) 0"
  by (subst encode_block.simps) simp

lemma encode_block_literal:
  "i < e \<Longrightarrow> \<not> length_m (ms i) \<ge> MIN_MATCH_SIZE \<Longrightarrow>
   encode_block W ms e i L = encode_block W ms e (i + 1) (L + 1)"
  by (subst encode_block.simps) simp

lemma command_count_stop: "i \<ge> e \<Longrightarrow> command_count ms e i = 1"
  by (subst command_count.simps) simp

lemma command_count_match:
  "i < e \<Longrightarrow> length_m (ms i) \<ge> MIN_MATCH_SIZE \<Longrightarrow>
   command_count ms e i = 1 + command_count ms e (i + length_m (ms i))"
  by (subst command_count.simps) simp

lemma command_count_literal:
  "i < e \<Longrightarrow> \<not> length_m (ms i) \<ge> MIN_MATCH_SIZE \<Longrightarrow>
   command_count ms e i = command_count ms e (i + 1)"
  by (subst command_count.simps) simp

text \<open>
  The emitter's loop on a valid walk returns: either with \<open>- 1\<close>, and then the bytes of the
  block do not fit, or before the last command with all the bytes but those of the last command.
\<close>

lemma write_loop_spec:
  "walk_valid W ms e t i \<Longrightarrow> t = e \<Longrightarrow> e \<le> 2147483647 \<Longrightarrow> e \<le> int (length W) \<Longrightarrow>
   ws_i st = i \<Longrightarrow> 0 \<le> ws_nNumLiterals st \<Longrightarrow> ws_nNumLiterals st \<le> i \<Longrightarrow>
   (ws_nNumLiterals st \<noteq> 0 \<longrightarrow> ws_nInFirstLiteralOffset st = i - ws_nNumLiterals st) \<Longrightarrow>
   \<exists>r. write_loop W ms e mx st = Some r \<and>
     (case r of
        Inl st' \<Rightarrow> int (length (ws_out st)) + int (length (encode_block W ms e i (ws_nNumLiterals st))) > mx
      | Inr st' \<Rightarrow>
          ws_out st' @ last_command_bytes W e (ws_nNumLiterals st') =
            ws_out st @ encode_block W ms e i (ws_nNumLiterals st) \<and>
          ws_num_commands st' + 1 = ws_num_commands st + command_count ms e i \<and>
          0 \<le> ws_nNumLiterals st' \<and> ws_nNumLiterals st' \<le> e \<and>
          (ws_nNumLiterals st' \<noteq> 0 \<longrightarrow> ws_nInFirstLiteralOffset st' = e - ws_nNumLiterals st'))"
proof (induction W ms e t i arbitrary: st rule: walk_valid.induct)
  case (1 W ms e t i)
  note wk = 1(3) and te = 1(4) and e31 = 1(5) and eW = 1(6) and si = 1(7) and L0 = 1(8)
    and Li = 1(9) and first = 1(10)
  let ?L = "ws_nNumLiterals st"
  have ie: "i \<le> e" using walk_valid_le[OF wk] te by simp
  have i0: "0 \<le> i" using L0 Li by simp
  show ?case
  proof (cases "i \<ge> e")
    case True
    then have ieq: "i = e" using ie by simp
    have "write_loop W ms e mx st = Some (Inr st)"
      using True si by (subst write_loop.simps) simp
    then show ?thesis
      using ieq L0 Li first by (simp add: encode_block_stop command_count_stop)
  next
    case False
    then have nt: "\<not> t \<le> i" and lt: "i < t" and lte: "i < e" using te by simp_all
    show ?thesis
    proof (cases "length_m (ms i) \<ge> MIN_MATCH_SIZE")
      case True
      have v: "valid_match W e i (ms i)" "walk_valid W ms e t (i + length_m (ms i))"
        using wk walk_valid_match[where ms=ms and a=i and t=t and W=W and e=e, OF lt True] by auto
      have r: "4 \<le> length_m (ms i)" using v(1) by (simp add: valid_match_def format_defs)
      let ?cmd = "match_command_bytes W (ms i) i ?L"
      let ?st1 = "st\<lparr>ws_i := i + length_m (ms i), ws_nNumLiterals := 0,
                   ws_out := ws_out st @ ?cmd, ws_num_commands := ws_num_commands st + 1\<rparr>"
      have wm: "write_match_command W ms mx st =
          (if int (length (ws_out st)) + int (length ?cmd) > mx then Inl st else Inr ?st1)"
        by (rule write_match_command_valid[where ms=ms and i=i and st=st, OF v(1) e31 i0 si L0 Li first eW])
      have enc: "encode_block W ms e i ?L = ?cmd @ encode_block W ms e (i + length_m (ms i)) 0"
        by (rule encode_block_match[where ms=ms and i=i, OF lte True])
      show ?thesis
      proof (cases "int (length (ws_out st)) + int (length ?cmd) > mx")
        case T2: True
        have "write_loop W ms e mx st = Some (Inl st)"
          using lte si True wm T2 by (subst write_loop.simps) simp
        then show ?thesis using T2 enc by simp
      next
        case F2: False
        have wl: "write_loop W ms e mx st = write_loop W ms e mx ?st1"
          using lte si True wm F2 by (subst write_loop.simps) simp
        have "\<exists>r. write_loop W ms e mx ?st1 = Some r \<and>
           (case r of
              Inl st' \<Rightarrow> int (length (ws_out ?st1)) +
                 int (length (encode_block W ms e (i + length_m (ms i)) (ws_nNumLiterals ?st1))) > mx
            | Inr st' \<Rightarrow>
                ws_out st' @ last_command_bytes W e (ws_nNumLiterals st') =
                  ws_out ?st1 @ encode_block W ms e (i + length_m (ms i)) (ws_nNumLiterals ?st1) \<and>
                ws_num_commands st' + 1 = ws_num_commands ?st1 + command_count ms e (i + length_m (ms i)) \<and>
                0 \<le> ws_nNumLiterals st' \<and> ws_nNumLiterals st' \<le> e \<and>
                (ws_nNumLiterals st' \<noteq> 0 \<longrightarrow> ws_nInFirstLiteralOffset st' = e - ws_nNumLiterals st'))"
          using i0 r by (intro 1(1)[OF nt True v(1) v(2) te e31 eW]) simp_all
        then obtain r where rr: "write_loop W ms e mx ?st1 = Some r"
          and rc: "(case r of
              Inl st' \<Rightarrow> int (length (ws_out ?st1)) +
                 int (length (encode_block W ms e (i + length_m (ms i)) (ws_nNumLiterals ?st1))) > mx
            | Inr st' \<Rightarrow>
                ws_out st' @ last_command_bytes W e (ws_nNumLiterals st') =
                  ws_out ?st1 @ encode_block W ms e (i + length_m (ms i)) (ws_nNumLiterals ?st1) \<and>
                ws_num_commands st' + 1 = ws_num_commands ?st1 + command_count ms e (i + length_m (ms i)) \<and>
                0 \<le> ws_nNumLiterals st' \<and> ws_nNumLiterals st' \<le> e \<and>
                (ws_nNumLiterals st' \<noteq> 0 \<longrightarrow> ws_nInFirstLiteralOffset st' = e - ws_nNumLiterals st'))"
          by blast
        have cc: "command_count ms e i = 1 + command_count ms e (i + length_m (ms i))"
          by (rule command_count_match[where ms=ms and i=i, OF lte True])
        show ?thesis
          using rr rc by (cases r) (simp_all add: wl enc cc)
      qed
    next
      case F3: False
      let ?st1 = "st\<lparr>ws_nInFirstLiteralOffset :=
                      (if ws_nNumLiterals st = 0 then ws_i st else ws_nInFirstLiteralOffset st),
                    ws_nNumLiterals := ws_nNumLiterals st + 1,
                    ws_i := ws_i st + 1\<rparr>"
      have w: "walk_valid W ms e t (i + 1)"
        using wk walk_valid_lit[where ms=ms and a=i and t=t and W=W and e=e, OF lt F3] by simp
      have wl: "write_loop W ms e mx st = write_loop W ms e mx ?st1"
        using lte si F3 by (subst write_loop.simps) simp
      have "\<exists>r. write_loop W ms e mx ?st1 = Some r \<and>
           (case r of
              Inl st' \<Rightarrow> int (length (ws_out ?st1)) +
                 int (length (encode_block W ms e (i + 1) (ws_nNumLiterals ?st1))) > mx
            | Inr st' \<Rightarrow>
                ws_out st' @ last_command_bytes W e (ws_nNumLiterals st') =
                  ws_out ?st1 @ encode_block W ms e (i + 1) (ws_nNumLiterals ?st1) \<and>
                ws_num_commands st' + 1 = ws_num_commands ?st1 + command_count ms e (i + 1) \<and>
                0 \<le> ws_nNumLiterals st' \<and> ws_nNumLiterals st' \<le> e \<and>
                (ws_nNumLiterals st' \<noteq> 0 \<longrightarrow> ws_nInFirstLiteralOffset st' = e - ws_nNumLiterals st'))"
        using si L0 Li first by (intro 1(2)[OF nt F3 w te e31 eW]) auto
      then obtain r where rr: "write_loop W ms e mx ?st1 = Some r"
          and rc: "(case r of
              Inl st' \<Rightarrow> int (length (ws_out ?st1)) +
                 int (length (encode_block W ms e (i + 1) (ws_nNumLiterals ?st1))) > mx
            | Inr st' \<Rightarrow>
                ws_out st' @ last_command_bytes W e (ws_nNumLiterals st') =
                  ws_out ?st1 @ encode_block W ms e (i + 1) (ws_nNumLiterals ?st1) \<and>
                ws_num_commands st' + 1 = ws_num_commands ?st1 + command_count ms e (i + 1) \<and>
                0 \<le> ws_nNumLiterals st' \<and> ws_nNumLiterals st' \<le> e \<and>
                (ws_nNumLiterals st' \<noteq> 0 \<longrightarrow> ws_nInFirstLiteralOffset st' = e - ws_nNumLiterals st'))"
        by blast
      have sel: "ws_out ?st1 = ws_out st" "ws_nNumLiterals ?st1 = ?L + 1"
        "ws_num_commands ?st1 = ws_num_commands st" by simp_all
      have enc: "encode_block W ms e i ?L = encode_block W ms e (i + 1) (?L + 1)"
        by (rule encode_block_literal[where ms=ms and i=i, OF lte F3])
      have cc: "command_count ms e i = command_count ms e (i + 1)"
        by (rule command_count_literal[where ms=ms and i=i, OF lte F3])
      have "write_loop W ms e mx st = Some r" using wl rr by (simp only:)
      then show ?thesis
        using rc unfolding sel enc cc by (cases r) simp_all
    qed
  qed
qed

section \<open>The emitter's result\<close>

lemma encode_block_nonempty: "encode_block W ms e i L \<noteq> []"
proof (induction W ms e i L rule: encode_block.induct)
  case (1 W ms e i L)
  show ?case
  proof (cases "i \<ge> e")
    case True
    then show ?thesis by (simp add: encode_block_stop last_command_bytes_def Let_def)
  next
    case False
    then show ?thesis using 1
      by (cases "length_m (ms i) \<ge> MIN_MATCH_SIZE")
         (simp_all add: encode_block_match encode_block_literal match_command_bytes_def Let_def)
  qed
qed

lemma write_block_spec:
  assumes wk: "walk_valid W ms e e s" and s0: "0 \<le> s" and e31: "e \<le> 2147483647"
    and eW: "e \<le> int (length W)"
  shows "\<exists>r. lz4ultra_write_block_lz4 flags nc ms W s e mx = Some r \<and>
     (let out = encode_block W ms e s 0 @ (if flags AND LZ4ULTRA_FLAG_RAW_BLOCK \<noteq> 0 then [0, 0] else [])
      in if int (length out) \<le> mx then r = (int (length out), out, nc + command_count ms e s)
         else fst r = - 1)"
proof -
  let ?st0 = "\<lparr>ws_i = s, ws_nNumLiterals = 0, ws_nInFirstLiteralOffset = 0,
              ws_out = [], ws_num_commands = nc\<rparr>"
  let ?enc = "encode_block W ms e s 0"
  have h: "ws_i ?st0 = s" "0 \<le> ws_nNumLiterals ?st0" "ws_nNumLiterals ?st0 \<le> s"
    "ws_nNumLiterals ?st0 \<noteq> 0 \<longrightarrow> ws_nInFirstLiteralOffset ?st0 = s - ws_nNumLiterals ?st0"
    using s0 by simp_all
  from write_loop_spec[where st="?st0" and mx=mx, OF wk refl e31 eW h]
  obtain r where r: "write_loop W ms e mx ?st0 = Some r"
    and rc: "(case r of
        Inl st' \<Rightarrow> int (length (ws_out ?st0)) + int (length (encode_block W ms e s (ws_nNumLiterals ?st0))) > mx
      | Inr st' \<Rightarrow>
          ws_out st' @ last_command_bytes W e (ws_nNumLiterals st') =
            ws_out ?st0 @ encode_block W ms e s (ws_nNumLiterals ?st0) \<and>
          ws_num_commands st' + 1 = ws_num_commands ?st0 + command_count ms e s \<and>
          0 \<le> ws_nNumLiterals st' \<and> ws_nNumLiterals st' \<le> e \<and>
          (ws_nNumLiterals st' \<noteq> 0 \<longrightarrow> ws_nInFirstLiteralOffset st' = e - ws_nNumLiterals st'))"
    by blast
  show ?thesis
  proof (cases r)
    case (Inl st')
    then show ?thesis using r rc
      by (auto simp: lz4ultra_write_block_lz4_def Let_def)
  next
    case (Inr st')
    let ?L = "ws_nNumLiterals st'"
    have p: "ws_out st' @ last_command_bytes W e ?L = ?enc"
      "ws_num_commands st' + 1 = nc + command_count ms e s"
      "0 \<le> ?L" "?L \<le> e" "?L \<noteq> 0 \<longrightarrow> ws_nInFirstLiteralOffset st' = e - ?L"
      using rc Inr by simp_all
    have len: "int (length (last_command_bytes W e ?L)) =
         drop_bit 3 (8 + lz4ultra_get_literals_varlen_size ?L + push_bit 3 ?L)"
      by (rule length_last_command_bytes[OF p(3,4) eW])
    have lit0: "?L = 0 \<Longrightarrow> window_bytes W (e - ?L) ?L = []"
      by (simp add: window_bytes_def)
    let ?tok = "word_of_int (push_bit 4 (if ?L \<ge> LITERALS_RUN_LEN then LITERALS_RUN_LEN else ?L)) :: byte"
    have o2: "?L \<noteq> 0 \<Longrightarrow> lz4ultra_write_literals_varlen (ws_out st' @ [?tok]) ?L @
                window_bytes W (ws_nInFirstLiteralOffset st') ?L = ?enc"
      using p(5) p(1)[symmetric]
      by (simp add: Let_def last_command_bytes_def write_literals_varlen_append[of "_ @ _"])
    have o3: "?L = 0 \<Longrightarrow> lz4ultra_write_literals_varlen (ws_out st' @ [?tok]) ?L = ?enc"
      using lit0 p(1)[symmetric]
      by (simp add: Let_def last_command_bytes_def write_literals_varlen_append[of "_ @ _"])
    have tot: "int (length (ws_out st')) +
         drop_bit 3 (8 + lz4ultra_get_literals_varlen_size ?L + push_bit 3 ?L) = int (length ?enc)"
      using len p(1)[symmetric] by simp
    have wl: "write_last_command flags W mx st' =
        (if int (length ?enc) > mx then Inl st'
         else if flags AND LZ4ULTRA_FLAG_RAW_BLOCK \<noteq> 0 then
           (if int (length ?enc) + 2 > mx then Inl (st'\<lparr>ws_nNumLiterals := 0, ws_out := ?enc\<rparr>)
            else Inr (st'\<lparr>ws_nNumLiterals := 0, ws_out := ?enc @ [0, 0],
                          ws_num_commands := ws_num_commands st' + 1\<rparr>))
         else Inr (st'\<lparr>ws_nNumLiterals := 0, ws_out := ?enc,
                        ws_num_commands := ws_num_commands st' + 1\<rparr>))"
    proof (cases "?L = 0")
      case True
      show ?thesis unfolding write_last_command_def Let_def tot
        using True o3[OF True] by simp
    next
      case False
      show ?thesis unfolding write_last_command_def Let_def tot
        using False o2[OF False] by simp
    qed
    show ?thesis
      using r Inr p(2) by (auto simp: lz4ultra_write_block_lz4_def wl Let_def)
  qed
qed


section \<open>Block frames read back\<close>

lemma uint_byte_and: "uint (word_of_int (x AND 0xff) :: 8 word) = take_bit 8 x"
proof -
  have "x AND 0xff = take_bit 8 x" by (simp add: take_bit_eq_mask mask_eq_exp_minus_1)
  then show ?thesis by (simp add: uint_word_of_int_eq)
qed

lemma frame_size_bits:
  assumes "0 \<le> (n::int)" "n < 2147483648"
  shows "take_bit 8 n OR push_bit 8 (take_bit 8 (drop_bit 8 n)) OR
         push_bit 16 (take_bit 8 (drop_bit 16 n)) OR push_bit 24 (take_bit 7 (drop_bit 24 n)) = n"
proof -
  have "take_bit 31 n = n" using assms by (simp add: take_bit_int_eq_self)
  moreover have "take_bit 8 n OR push_bit 8 (take_bit 8 (drop_bit 8 n)) OR
         push_bit 16 (take_bit 8 (drop_bit 16 n)) OR push_bit 24 (take_bit 7 (drop_bit 24 n)) =
         take_bit 31 n"
  proof (rule bit_eqI)
    fix k :: nat
    consider "k < 8" | "8 \<le> k" "k < 16" | "16 \<le> k" "k < 24" | "24 \<le> k" "k < 31" | "31 \<le> k"
      by linarith
    then show "bit (take_bit 8 n OR push_bit 8 (take_bit 8 (drop_bit 8 n)) OR
         push_bit 16 (take_bit 8 (drop_bit 16 n)) OR push_bit 24 (take_bit 7 (drop_bit 24 n))) k =
         bit (take_bit 31 n) k"
    proof cases
      case 1 then show ?thesis by (simp add: bit_simps)
    next
      case 2 then show ?thesis by (auto simp add: bit_simps)
    next
      case 3 then show ?thesis by (auto simp add: bit_simps)
    next
      case 4 then show ?thesis by (auto simp add: bit_simps)
    next
      case 5 then show ?thesis by (auto simp add: bit_simps)
    qed
  qed
  ultimately show ?thesis by simp
qed

lemma frame_high_bit: "0 \<le> (n::int) \<Longrightarrow> n < 2147483648 \<Longrightarrow> n AND 0x80000000 = 0"
proof -
  assume a: "0 \<le> n" "n < 2147483648"
  have "take_bit 31 n = n" using a by (simp add: take_bit_int_eq_self)
  then have "\<not> bit n 31" by (metis bit_take_bit_iff less_irrefl)
  moreover have "(0x80000000::int) = 2 ^ 31" by simp
  ultimately show ?thesis
    by (simp only: and_exp_eq_0_iff_not_bit) simp
qed

lemma uint_byte_and7f: "uint (word_of_int (x AND 0x7f) :: 8 word) = take_bit 7 x"
proof -
  have "x AND 0x7f = take_bit 7 x" by (simp add: take_bit_eq_mask mask_eq_exp_minus_1)
  then show ?thesis by (simp add: uint_word_of_int_eq min_def)
qed

lemma uint_byte_and7f_or80:
  "uint (word_of_int ((x AND 0x7f) OR 0x80) :: 8 word) = take_bit 7 x OR 128"
proof -
  have a: "x AND 0x7f = take_bit 7 x" by (simp add: take_bit_eq_mask mask_eq_exp_minus_1)
  have "take_bit 8 (take_bit 7 x OR 128) = take_bit 7 x OR 128"
    by (rule bit_eqI) (auto simp: bit_simps)
  then show ?thesis by (simp only: a uint_word_of_int_eq) simp
qed

lemma decode_compressed_block_frame:
  assumes "0 \<le> n" "n < 2147483648"
  shows "\<exists>fr. lz4ultra_encode_compressed_block_frame 16 n = Some fr \<and> length fr = 4 \<and>
              lz4ultra_decode_frame fr = Some (n, False)"
proof -
  have h: "n AND 0x80000000 = 0" by (rule frame_high_bit[OF assms])
  have m: "n AND 0x7fffffff = n"
  proof -
    have "n AND 0x7fffffff = take_bit 31 n" by (simp add: take_bit_eq_mask mask_eq_exp_minus_1)
    then show ?thesis using assms by (simp add: take_bit_int_eq_self)
  qed
  let ?fr = "[word_of_int (n AND 0xff), word_of_int (drop_bit 8 n AND 0xff),
              word_of_int (drop_bit 16 n AND 0xff), word_of_int (drop_bit 24 n AND 0x7f)] :: byte list"
  have e: "lz4ultra_encode_compressed_block_frame 16 n = Some ?fr"
    using h by (simp add: lz4ultra_encode_compressed_block_frame_def)
  have "uint (?fr ! 0) OR push_bit 8 (uint (?fr ! 1)) OR push_bit 16 (uint (?fr ! 2)) OR
        push_bit 24 (uint (?fr ! 3)) =
        take_bit 8 n OR push_bit 8 (take_bit 8 (drop_bit 8 n)) OR
         push_bit 16 (take_bit 8 (drop_bit 16 n)) OR push_bit 24 (take_bit 7 (drop_bit 24 n))"
    by (simp only: nth_Cons_0 nth_Cons_Suc One_nat_def numeral_2_eq_2 numeral_3_eq_3
        uint_byte_and uint_byte_and7f)
  then have v: "uint (?fr ! 0) OR push_bit 8 (uint (?fr ! 1)) OR push_bit 16 (uint (?fr ! 2)) OR
        push_bit 24 (uint (?fr ! 3)) = n"
    by (simp only: frame_size_bits[OF assms])
  have l: "length ?fr = 4" by simp
  have "lz4ultra_decode_frame ?fr = Some (n, False)"
    unfolding lz4ultra_decode_frame_def Let_def v h m using l by simp
  then show ?thesis using e l by blast
qed


lemma decode_uncompressed_block_frame:
  assumes "0 \<le> n" "n < 2147483648"
  shows "\<exists>fr. lz4ultra_encode_uncompressed_block_frame 16 n = Some fr \<and> length fr = 4 \<and>
              lz4ultra_decode_frame fr = Some (n, True)"
proof -
  have h: "n AND 0x80000000 = 0" by (rule frame_high_bit[OF assms])
  have t: "take_bit 31 n = n" using assms by (simp add: take_bit_int_eq_self)
  let ?fr = "[word_of_int (n AND 0xff), word_of_int (drop_bit 8 n AND 0xff),
              word_of_int (drop_bit 16 n AND 0xff),
              word_of_int ((drop_bit 24 n AND 0x7f) OR 0x80)] :: byte list"
  have e: "lz4ultra_encode_uncompressed_block_frame 16 n = Some ?fr"
    using h by (simp add: lz4ultra_encode_uncompressed_block_frame_def)
  let ?A = "take_bit 8 n" and ?B = "push_bit 8 (take_bit 8 (drop_bit 8 n))"
    and ?C = "push_bit 16 (take_bit 8 (drop_bit 16 n))" and ?D = "take_bit 7 (drop_bit 24 n)"
  have v0: "uint (?fr ! 0) OR push_bit 8 (uint (?fr ! 1)) OR push_bit 16 (uint (?fr ! 2)) OR
        push_bit 24 (uint (?fr ! 3)) = ?A OR ?B OR ?C OR push_bit 24 (?D OR 128)"
    by (simp only: nth_Cons_0 nth_Cons_Suc One_nat_def numeral_2_eq_2 numeral_3_eq_3
        uint_byte_and uint_byte_and7f_or80)
  have "?A OR ?B OR ?C OR push_bit 24 (?D OR 128) =
        ?A OR ?B OR ?C OR (push_bit 24 ?D OR push_bit 24 128)"
    by (simp only: push_bit_or)
  also have "\<dots> = (?A OR ?B OR ?C OR push_bit 24 ?D) OR push_bit 24 128"
    by (simp only: or.assoc)
  also have "\<dots> = n OR push_bit 24 128" by (simp only: frame_size_bits[OF assms])
  also have "push_bit 24 (128::int) = 2 ^ 31" by (simp add: push_bit_eq_mult)
  finally have v: "uint (?fr ! 0) OR push_bit 8 (uint (?fr ! 1)) OR push_bit 16 (uint (?fr ! 2)) OR
        push_bit 24 (uint (?fr ! 3)) = n OR 2 ^ 31"
    by (simp only: v0)
  have b31: "bit (n OR 2 ^ 31) k \<longleftrightarrow> bit n k \<or> k = 31" for k
    by (simp only: bit_or_iff bit_exp_iff) auto
  have nb: "\<not> bit n 31" using t by (metis bit_take_bit_iff less_irrefl)
  have m: "(n OR 2 ^ 31) AND 0x7fffffff = n"
  proof -
    have "(0x7fffffff::int) = mask 31" by (simp add: mask_eq_exp_minus_1)
    then have "(n OR 2 ^ 31) AND 0x7fffffff = take_bit 31 (n OR 2 ^ 31)"
      by (simp only: take_bit_eq_mask)
    also have "\<dots> = take_bit 31 n"
    proof (rule bit_eqI)
      fix k show "bit (take_bit 31 (n OR 2 ^ 31)) k = bit (take_bit 31 n) k"
        by (simp only: bit_take_bit_iff b31) auto
    qed
    finally show ?thesis by (simp only: t)
  qed
  have hb: "(n OR 2 ^ 31) AND 0x80000000 \<noteq> 0"
  proof -
    have b: "bit (n OR 2 ^ 31) 31" by (simp only: b31) simp
    have p: "(0x80000000::int) = 2 ^ 31" by simp
    have "(n OR 2 ^ 31) AND 2 ^ 31 \<noteq> 0" using b by (simp only: and_exp_eq_0_iff_not_bit not_not)
    then show ?thesis unfolding p .
  qed
  have l: "length ?fr = 4" by simp
  have "lz4ultra_decode_frame ?fr = Some (n, True)"
    unfolding lz4ultra_decode_frame_def Let_def v m using l hb by simp
  then show ?thesis using e l by blast
qed


section \<open>A block written and read back\<close>

lemma expand_block_encode_block:
  assumes wk: "walk_valid W ms e e s" and s0: "0 \<le> s" and se: "s \<le> e"
    and eW: "e \<le> int (length W)"
    and hist: "nat s \<le> off" "load_bytes pOutData (off - nat s) (nat s) = take (nat s) W"
    and room: "off + bmax \<le> length pOutData" "nat (e - s) \<le> bmax"
  shows "\<exists>buf. lz4ultra_decompressor_expand_block_lz4 (encode_block W ms e s 0) pOutData off bmax =
                 (e - s, Some buf) \<and>
               load_bytes buf off (nat (e - s)) = window_bytes W s (e - s) \<and>
               length buf = length pOutData"
proof -
  define pad where "pad = take (off - nat s) pOutData"
  have lp: "length pad = off - nat s" using room by (simp add: pad_def)
  have c0: "length pad + nat (s - 0) = off" using hist(1) lp by simp
  let ?T = "pad @ take (nat e) W"
  have ts: "take (nat s) (take (nat e) W) = take (nat s) W" using se by (simp add: min_def)
  have "take off pOutData = take (off - nat s + nat s) pOutData" using hist(1) by simp
  also have "\<dots> = pad @ load_bytes pOutData (off - nat s) (nat s)"
    by (simp only: take_add pad_def load_bytes_def)
  also have "\<dots> = pad @ take (nat s) W" by (simp only: hist(2))
  also have "\<dots> = take off ?T" using lp hist(1) ts by simp
  finally have agree: "take (length pad + nat (s - 0)) pOutData = take (length pad + nat (s - 0)) ?T"
    by (simp only: c0)
  have oe: "length pad + nat e \<le> off + bmax" using lp hist(1) room(2) s0 se by linarith
  have z: "(0::int) \<le> 0" by simp
  from expand_loop_encode_block[where pad=pad and oend="off + bmax" and buf=pOutData,
      OF wk refl z _ eW agree oe room(1)] s0
  obtain buf where b: "expand_loop (off + bmax) (encode_block W ms e s 0) pOutData
        (length pad + nat (s - 0)) = Some (buf, length pad + nat e)"
    "take (length pad + nat e) buf = ?T" "length buf = length pOutData" by auto
  have ce: "length pad + nat e = off + nat (e - s)" using lp hist(1) s0 se by linarith
  have "load_bytes buf off (nat (e - s)) = drop off (take (off + nat (e - s)) buf)"
    by (simp add: load_bytes_def drop_take)
  also have "\<dots> = drop off ?T" using b(2) by (simp only: ce)
  also have "\<dots> = drop (nat s) (take (nat e) W)" using lp hist(1) by simp
  also have "\<dots> = window_bytes W s (e - s)"
    using s0 se by (simp add: window_bytes_def drop_take nat_diff_distrib)
  finally have l: "load_bytes buf off (nat (e - s)) = window_bytes W s (e - s)" .
  have "lz4ultra_decompressor_expand_block_lz4 (encode_block W ms e s 0) pOutData off bmax =
        (e - s, Some buf)"
    using b(1) ce c0 se by (simp add: lz4ultra_decompressor_expand_block_lz4_def)
  then show ?thesis using l b(3) by blast
qed


lemma load_store_bytes:
  "pos \<le> length buf \<Longrightarrow> load_bytes (store_bytes buf pos bytes) pos (length bytes) = bytes"
  by (simp add: load_bytes_def store_bytes_def)

section \<open>The peephole pass does not enlarge the block\<close>

lemma records_valid_walk:
  "records_valid_from W ms e i \<Longrightarrow> i \<le> e \<Longrightarrow> walk_valid W ms e e i"
proof (induction "nat (e - i)" arbitrary: i rule: less_induct)
  case less
  show ?case
  proof (cases "i < e")
    case False
    then have "i = e" using less(3) by simp
    then show ?thesis by (simp add: walk_valid_refl)
  next
    case True
    show ?thesis
    proof (cases "length_m (ms i) \<ge> MIN_MATCH_SIZE")
      case m: True
      have v: "valid_match W e i (ms i)" by (rule records_valid_from_at[OF less(2) True m])
      then have l: "4 \<le> length_m (ms i)" "i + length_m (ms i) \<le> e - 5"
        by (simp_all add: valid_match_def format_defs)
      have r: "records_valid_from W ms e (i + length_m (ms i))"
        by (rule records_valid_from_later[OF less(2)]) (use l in \<open>auto simp: in_body_def\<close>)
      have "walk_valid W ms e e (i + length_m (ms i))"
        using l by (intro less(1)[OF _ r]) simp_all
      then show ?thesis
        using v walk_valid_match[where ms=ms and a=i and t=e and W=W and e=e, OF True m] by simp
    next
      case m: False
      have r: "records_valid_from W ms e (i + 1)"
        by (rule records_valid_from_later[OF less(2)]) (use m in \<open>auto simp: in_body_def\<close>)
      have "walk_valid W ms e e (i + 1)"
        using True by (intro less(1)[OF _ r]) simp_all
      then show ?thesis
        using walk_valid_lit[where ms=ms and a=i and t=e and W=W and e=e, OF True m] by simp
    qed
  qed
qed

lemma encode_block_cong:
  "(\<And>x. i \<le> x \<Longrightarrow> x < e \<Longrightarrow> ms x = ms' x) \<Longrightarrow>
   encode_block W ms e i L = encode_block W ms' e i L"
proof (induction W ms e i L rule: encode_block.induct)
  case (1 W ms e i L)
  show ?case
  proof (cases "i \<ge> e")
    case True
    then show ?thesis by (simp add: encode_block_stop)
  next
    case False
    then have lt: "i < e" by simp
    have eq: "ms i = ms' i" using 1(3)[of i] lt by simp
    show ?thesis
    proof (cases "length_m (ms i) \<ge> MIN_MATCH_SIZE")
      case True
      have "encode_block W ms e (i + length_m (ms i)) 0 = encode_block W ms' e (i + length_m (ms i)) 0"
        using True by (intro 1(1)[OF False True] 1(3)) (simp_all add: MIN_MATCH_SIZE_def)
      then show ?thesis
        using True eq lt
        by (simp add: encode_block_match[where ms=ms and i=i] encode_block_match[where ms=ms' and i=i])
    next
      case F: False
      have "encode_block W ms e (i + 1) (L + 1) = encode_block W ms' e (i + 1) (L + 1)"
        by (intro 1(2)[OF False F] 1(3)) simp_all
      then show ?thesis
        using F eq lt
        by (simp add: encode_block_literal[where ms=ms and i=i]
            encode_block_literal[where ms=ms' and i=i])
    qed
  qed
qed

lemma command_count_cong:
  "(\<And>x. i \<le> x \<Longrightarrow> x < e \<Longrightarrow> ms x = ms' x) \<Longrightarrow>
   command_count ms e i = command_count ms' e i"
proof (induction ms e i rule: command_count.induct)
  case (1 ms e i)
  show ?case
  proof (cases "i \<ge> e")
    case True
    then show ?thesis by (simp add: command_count_stop)
  next
    case False
    then have lt: "i < e" by simp
    have eq: "ms i = ms' i" using 1(3)[of i] lt by simp
    show ?thesis
    proof (cases "length_m (ms i) \<ge> MIN_MATCH_SIZE")
      case True
      have "command_count ms e (i + length_m (ms i)) = command_count ms' e (i + length_m (ms i))"
        using True by (intro 1(1)[OF False True] 1(3)) (simp_all add: MIN_MATCH_SIZE_def)
      then show ?thesis
        using True eq lt
        by (simp add: command_count_match[where ms=ms and i=i] command_count_match[where ms=ms' and i=i])
    next
      case F: False
      have "command_count ms e (i + 1) = command_count ms' e (i + 1)"
        by (intro 1(2)[OF False F] 1(3)) simp_all
      then show ?thesis
        using F eq lt
        by (simp add: command_count_literal[where ms=ms and i=i]
            command_count_literal[where ms=ms' and i=i])
    qed
  qed
qed

lemma encode_block_literals:
  "(\<And>x. i \<le> x \<Longrightarrow> x < j \<Longrightarrow> \<not> length_m (ms x) \<ge> MIN_MATCH_SIZE) \<Longrightarrow> i \<le> j \<Longrightarrow> j \<le> e \<Longrightarrow>
   encode_block W ms e i L = encode_block W ms e j (L + (j - i))"
proof (induction "nat (j - i)" arbitrary: i L rule: less_induct)
  case less
  show ?case
  proof (cases "i = j")
    case True
    then show ?thesis by simp
  next
    case False
    then have lt: "i < j" "i < e" using less(3,4) by simp_all
    have lit: "\<not> length_m (ms i) \<ge> MIN_MATCH_SIZE" using less(2)[of i] lt by simp
    have "encode_block W ms e (i + 1) (L + 1) = encode_block W ms e j (L + 1 + (j - (i + 1)))"
      using lt less(4) by (intro less(1) less(2)) simp_all
    then show ?thesis
      using encode_block_literal[where ms=ms and i=i and W=W and L=L, OF lt(2) lit] by simp
  qed
qed

lemma command_count_literals:
  "(\<And>x. i \<le> x \<Longrightarrow> x < j \<Longrightarrow> \<not> length_m (ms x) \<ge> MIN_MATCH_SIZE) \<Longrightarrow> i \<le> j \<Longrightarrow> j \<le> e \<Longrightarrow>
   command_count ms e i = command_count ms e j"
proof (induction "nat (j - i)" arbitrary: i rule: less_induct)
  case less
  show ?case
  proof (cases "i = j")
    case True
    then show ?thesis by simp
  next
    case False
    then have lt: "i < j" "i < e" using less(3,4) by simp_all
    have lit: "\<not> length_m (ms i) \<ge> MIN_MATCH_SIZE" using less(2)[of i] lt by simp
    have "command_count ms e (i + 1) = command_count ms e j"
      using lt less(4) by (intro less(1) less(2)) simp_all
    then show ?thesis
      using command_count_literal[where ms=ms and i=i, OF lt(2) lit] by simp
  qed
qed

lemma size_match_command_bytes:
  assumes "0 \<le> L" "L \<le> i" "i \<le> int (length W)" "4 \<le> length_m m"
  shows "int (length (match_command_bytes W m i L)) =
         3 + literals_varlen_bytes L + L + match_varlen_bytes (length_m m - MIN_MATCH_SIZE)"
proof -
  have w: "int (length (window_bytes W (i - L) L)) = L"
    using assms by (intro length_window_bytes) simp_all
  show ?thesis using w
    by (simp add: match_command_bytes_def Let_def literals_varlen_bytes_def match_varlen_bytes_def)
qed

lemma size_last_command_bytes:
  assumes "0 \<le> L" "L \<le> i" "i \<le> int (length W)"
  shows "int (length (last_command_bytes W i L)) = 1 + literals_varlen_bytes L + L"
proof -
  have w: "int (length (window_bytes W (i - L) L)) = L"
    using assms by (intro length_window_bytes) simp_all
  show ?thesis using w
    by (simp add: last_command_bytes_def Let_def literals_varlen_bytes_def)
qed

lemma literal_run_stop: "\<not> (j < e \<and> length_m (ms j) < MIN_MATCH_SIZE) \<Longrightarrow> literal_run ms e j = 0"
  by (subst literal_run.simps) auto

lemma literal_run_step:
  "j < e \<Longrightarrow> length_m (ms j) < MIN_MATCH_SIZE \<Longrightarrow> literal_run ms e j = 1 + literal_run ms e (j + 1)"
  by (subst literal_run.simps) simp

lemma literal_run_nonneg: "0 \<le> literal_run ms e j"
proof (induction ms e j rule: literal_run.induct)
  case (1 ms e j)
  then show ?case by (subst literal_run.simps) auto
qed

lemma count_next_literals_run:
  "count_next_literals ms e c n = n + 1 + literal_run ms e (c + 1)"
proof (induction ms e c n rule: count_next_literals.induct)
  case (1 ms e c n)
  show ?case
  proof (cases "c + 1 < e \<and> length_m (ms (c + 1)) < MIN_MATCH_SIZE")
    case True
    then show ?thesis using 1
      by (subst count_next_literals.simps) (simp add: literal_run_step[where j="c + 1"])
  next
    case False
    then show ?thesis
      by (subst count_next_literals.simps) (auto simp add: literal_run_stop[where j="c + 1"])
  qed
qed

text \<open>Pending literals cost their bytes and what they add to the literals length of the next command.\<close>

lemma encode_block_shift:
  "walk_valid W ms e t j \<Longrightarrow> t = e \<Longrightarrow> e \<le> int (length W) \<Longrightarrow> 0 \<le> X \<Longrightarrow> 0 \<le> k \<Longrightarrow> X + k \<le> j \<Longrightarrow>
   int (length (encode_block W ms e j (X + k))) =
     int (length (encode_block W ms e j k)) + X +
     literals_varlen_bytes (X + k + literal_run ms e j) - literals_varlen_bytes (k + literal_run ms e j)"
proof (induction W ms e t j arbitrary: k rule: walk_valid.induct)
  case (1 W ms e t j)
  note wk = 1(3) and te = 1(4) and eW = 1(5) and X0 = 1(6) and k0 = 1(7) and Xk = 1(8)
  have je: "j \<le> e" using walk_valid_le[OF wk] te by simp
  show ?case
  proof (cases "j \<ge> e")
    case True
    then have "j = e" using je by simp
    have r: "literal_run ms e j = 0" using True by (intro literal_run_stop) simp
    show ?thesis
      using True X0 k0 Xk je eW
      by (simp add: encode_block_stop literal_run_stop size_last_command_bytes)
  next
    case False
    then have nt: "\<not> t \<le> j" and lt: "j < t" and lte: "j < e" using te by simp_all
    show ?thesis
    proof (cases "length_m (ms j) \<ge> MIN_MATCH_SIZE")
      case True
      have v: "valid_match W e j (ms j)"
        using wk walk_valid_match[where ms=ms and a=j and t=t and W=W and e=e, OF lt True] by auto
      then have l: "4 \<le> length_m (ms j)" by (simp add: valid_match_def format_defs)
      have r: "literal_run ms e j = 0" using True by (intro literal_run_stop) simp
      have jw: "j \<le> int (length W)" using je eW by simp
      show ?thesis
        using X0 k0 Xk jw l
        by (simp add: encode_block_match[where ms=ms and i=j, OF lte True] r
            size_match_command_bytes)
    next
      case F: False
      have w: "walk_valid W ms e t (j + 1)"
        using wk walk_valid_lit[where ms=ms and a=j and t=t and W=W and e=e, OF lt F] by simp
      have r: "literal_run ms e j = 1 + literal_run ms e (j + 1)"
        using F lte by (intro literal_run_step) simp_all
      have k1: "0 \<le> k + 1" "X + (k + 1) \<le> j + 1" using k0 Xk by simp_all
      from 1(2)[OF nt F w te eW X0 k1]
      have "int (length (encode_block W ms e (j + 1) (X + (k + 1)))) =
            int (length (encode_block W ms e (j + 1) (k + 1))) + X +
            literals_varlen_bytes (X + (k + 1) + literal_run ms e (j + 1)) -
            literals_varlen_bytes (k + 1 + literal_run ms e (j + 1))" .
      moreover have "encode_block W ms e j (X + k) = encode_block W ms e (j + 1) (X + (k + 1))"
        using encode_block_literal[where ms=ms and i=j and W=W and L="X + k", OF lte F]
        by (simp add: add.assoc)
      moreover have "encode_block W ms e j k = encode_block W ms e (j + 1) (k + 1)"
        by (rule encode_block_literal[where ms=ms and i=j, OF lte F])
      ultimately show ?thesis by (simp add: r add.assoc add.left_commute)
    qed
  qed
qed


lemma literals_varlen_bytes_eq:
  "0 \<le> n \<Longrightarrow> lz4ultra_get_literals_varlen_size n = 8 * literals_varlen_bytes n"
  by (simp add: literals_varlen_bytes_def literals_varlen_size_bytes)

lemma match_varlen_bytes_eq:
  "0 \<le> n \<Longrightarrow> lz4ultra_get_match_varlen_size n = 8 * match_varlen_bytes n"
  by (simp add: match_varlen_bytes_def match_varlen_size_bytes)

lemma match_varlen_bytes_val:
  "0 \<le> n \<Longrightarrow> match_varlen_bytes n = (if 15 \<le> n then (n - 15) div 255 + 1 else 0)"
  by (simp add: match_varlen_bytes_def lz4ultra_write_match_varlen_def MATCH_RUN_LEN_def
      length_varlen_bytes)

lemma literals_varlen_bytes_val:
  "0 \<le> n \<Longrightarrow> literals_varlen_bytes n = (if 15 \<le> n then (n - 15) div 255 + 1 else 0)"
  by (simp add: literals_varlen_bytes_def lz4ultra_write_literals_varlen_def LITERALS_RUN_LEN_def
      length_varlen_bytes)

lemma match_varlen_bytes_join:
  assumes "0 \<le> a" "0 \<le> b"
  shows "match_varlen_bytes (a + b + 4) \<le> match_varlen_bytes a + 3 + match_varlen_bytes b"
proof -
  have "(a + b + 4 - 15) div 255 \<le> a div 255 + b div 255 + 1" using assms by linarith
  moreover have "15 \<le> a \<Longrightarrow> a div 255 \<le> (a - 15) div 255 + 1" by linarith
  moreover have "15 \<le> b \<Longrightarrow> b div 255 \<le> (b - 15) div 255 + 1" by linarith
  moreover have "a < 15 \<Longrightarrow> a div 255 = 0" using assms by simp
  moreover have "b < 15 \<Longrightarrow> b div 255 = 0" using assms by simp
  ultimately show ?thesis
    using assms by (simp add: match_varlen_bytes_val) linarith
qed

text \<open>The test of the peephole pass for dropping a match compares the sizes in bytes.\<close>

lemma reduce_test_size:
  assumes red: "reduce_test ms e i L len"
    and wk: "walk_valid W ms e e (i + len)"
    and L: "0 \<le> L" "L \<le> i" and len: "4 \<le> len" and eW: "e \<le> int (length W)"
  shows "int (length (encode_block W ms e (i + len) (L + len))) \<le>
         3 + literals_varlen_bytes L + L + match_varlen_bytes (len - MIN_MATCH_SIZE) +
         int (length (encode_block W ms e (i + len) 0))"
proof -
  let ?j = "i + len" and ?c = "literal_run ms e (i + len)"
  have c0: "0 \<le> ?c" by (rule literal_run_nonneg)
  have X: "0 \<le> L + len" "L + len + 0 \<le> ?j" using L len by simp_all
  have z: "(0::int) \<le> 0" by simp
  from encode_block_shift[OF wk refl eW X(1) z X(2)]
  have sh: "int (length (encode_block W ms e ?j (L + len))) =
        int (length (encode_block W ms e ?j 0)) + (L + len) +
        literals_varlen_bytes (L + len + ?c) - literals_varlen_bytes ?c" by simp
  have lt: "?j < e" using red by (simp add: reduce_test_def split: if_splits)
  have "8 * (3 + literals_varlen_bytes L + match_varlen_bytes (len - MIN_MATCH_SIZE)) \<ge>
        8 * (len + literals_varlen_bytes (L + len + ?c) - literals_varlen_bytes ?c)"
  proof (cases "length_m (ms ?j) \<ge> MIN_MATCH_SIZE")
    case True
    then have c: "?c = 0" by (intro literal_run_stop) simp
    have l0: "literals_varlen_bytes 0 = 0" by (simp add: literals_varlen_bytes_val)
    show ?thesis
      using red True L len
      by (simp add: reduce_test_def Let_def c l0 literals_varlen_bytes_eq match_varlen_bytes_eq
          push_bit_eq_mult MIN_MATCH_SIZE_def split: if_splits)
  next
    case False
    have c: "count_next_literals ms e ?j 0 = ?c"
      using False lt by (simp add: count_next_literals_run literal_run_step[where j="?j"])
    show ?thesis
      using red False L len c0
      by (simp add: reduce_test_def Let_def c literals_varlen_bytes_eq match_varlen_bytes_eq
          push_bit_eq_mult MIN_MATCH_SIZE_def add.commute add.left_commute split: if_splits)
  qed
  then have "len + literals_varlen_bytes (L + len + ?c) - literals_varlen_bytes ?c \<le>
        3 + literals_varlen_bytes L + match_varlen_bytes (len - MIN_MATCH_SIZE)"
    by simp
  then show ?thesis using sh by simp
qed


text \<open>
  One iteration of the peephole loop, seen from the bytes of the block: whatever the later
  iterations make of the array, when they do not enlarge the rest, the whole does not grow.
\<close>

lemma peephole_step_size:
  assumes inv: "peephole_inv W s e st" and lt: "pp_i st < e"
    and rng: "0 \<le> s" "e \<le> 2147483647" and eW: "e \<le> int (length W)"
    and L: "0 \<le> pp_nNumLiterals st" "pp_nNumLiterals st \<le> pp_i st"
    and st1: "st1 = peephole_step W e st"
  shows "pp_i st \<le> pp_i st1 \<and> 0 \<le> pp_nNumLiterals st1 \<and> pp_nNumLiterals st1 \<le> pp_i st1 \<and>
         (\<forall>x < pp_i st. pp_match st1 x = pp_match st x) \<and>
         (\<forall>ms'. (\<forall>x < pp_i st1. ms' x = pp_match st1 x) \<longrightarrow>
             length (encode_block W ms' e (pp_i st1) (pp_nNumLiterals st1)) \<le>
               length (encode_block W (pp_match st1) e (pp_i st1) (pp_nNumLiterals st1)) \<longrightarrow>
             command_count ms' e (pp_i st1) \<le> command_count (pp_match st1) e (pp_i st1) \<longrightarrow>
             length (encode_block W ms' e (pp_i st) (pp_nNumLiterals st)) \<le>
               length (encode_block W (pp_match st) e (pp_i st) (pp_nNumLiterals st)) \<and>
             command_count ms' e (pp_i st) \<le> command_count (pp_match st) e (pp_i st))"
proof (cases "length_m (pp_match st (pp_i st)) \<ge> MIN_MATCH_SIZE")
  case False
  let ?i = "pp_i st" and ?ms = "pp_match st" and ?L = "pp_nNumLiterals st"
  have eq: "st1 = \<lparr>pp_match = ?ms, pp_i = ?i + 1, pp_nNumLiterals = ?L + 1\<rparr>"
    using False by (simp add: st1 peephole_step_def Let_def)
  have main: "length (encode_block W ms' e ?i ?L) \<le> length (encode_block W ?ms e ?i ?L) \<and>
        command_count ms' e ?i \<le> command_count ?ms e ?i"
    if fr: "\<forall>x < ?i + 1. ms' x = ?ms x"
      and sz: "length (encode_block W ms' e (?i + 1) (?L + 1)) \<le>
               length (encode_block W ?ms e (?i + 1) (?L + 1))"
      and cc: "command_count ms' e (?i + 1) \<le> command_count ?ms e (?i + 1)" for ms'
  proof -
    have f: "\<not> length_m (ms' ?i) \<ge> MIN_MATCH_SIZE" using fr False by simp
    show ?thesis
      using sz cc
      by (simp add: encode_block_literal[where ms=ms' and i="?i", OF lt f]
          encode_block_literal[where ms="?ms" and i="?i", OF lt False]
          command_count_literal[where ms=ms' and i="?i", OF lt f]
          command_count_literal[where ms="?ms" and i="?i", OF lt False])
  qed
  show ?thesis unfolding eq using L main by simp
next
  case True
  let ?i = "pp_i st" and ?ms = "pp_match st" and ?L = "pp_nNumLiterals st"
  let ?l = "length_m (?ms ?i)"
  have r: "records_valid_from W ?ms e ?i" and si: "s \<le> ?i"
    using inv by (simp_all add: peephole_inv_def)
  have i0: "0 \<le> ?i" using si rng by simp
  have v: "valid_match W e ?i (?ms ?i)" by (rule records_valid_from_at[OF r lt True])
  have s32: "to_s32 ?l = ?l" by (rule valid_match_range(5)[OF v rng(2) i0])
  have l: "4 \<le> ?l" "?i + ?l \<le> e - 5"
    using v by (simp_all add: valid_match_def MIN_MATCH_SIZE_def LAST_LITERALS_def)
  have iW: "?i \<le> int (length W)" using lt eW by simp
  have encm: "encode_block W ?ms e ?i ?L =
        match_command_bytes W (?ms ?i) ?i ?L @ encode_block W ?ms e (?i + ?l) 0"
    by (rule encode_block_match[where ms="?ms" and i="?i", OF lt True])
  have ccm: "command_count ?ms e ?i = 1 + command_count ?ms e (?i + ?l)"
    by (rule command_count_match[where ms="?ms" and i="?i", OF lt True])
  have szm: "int (length (match_command_bytes W (?ms ?i) ?i ?L)) =
         3 + literals_varlen_bytes ?L + ?L + match_varlen_bytes (?l - MIN_MATCH_SIZE)"
    by (rule size_match_command_bytes[OF L iW l(1)])
  show ?thesis
  proof (cases "reduce_test ?ms e ?i ?L ?l")
    case red: True
    let ?ms1 = "clear_lengths ?ms ?i ?l"
    have eq: "st1 = \<lparr>pp_match = ?ms1, pp_i = ?i + ?l, pp_nNumLiterals = ?L + ?l\<rparr>"
      using True red by (simp add: st1 peephole_step_def Let_def s32)
    have r2: "records_valid_from W ?ms e (?i + ?l)"
      by (rule records_valid_from_later[OF r]) (use l in \<open>auto simp: in_body_def\<close>)
    have wk: "walk_valid W ?ms e e (?i + ?l)"
      using l by (intro records_valid_walk[OF r2]) simp
    have rs: "int (length (encode_block W ?ms e (?i + ?l) (?L + ?l))) \<le>
         3 + literals_varlen_bytes ?L + ?L + match_varlen_bytes (?l - MIN_MATCH_SIZE) +
         int (length (encode_block W ?ms e (?i + ?l) 0))"
      by (rule reduce_test_size[OF red wk L l(1) eW])
    have c1: "encode_block W ?ms1 e (?i + ?l) (?L + ?l) = encode_block W ?ms e (?i + ?l) (?L + ?l)"
      by (rule encode_block_cong) (simp add: clear_lengths_def)
    have c2: "command_count ?ms1 e (?i + ?l) = command_count ?ms e (?i + ?l)"
      by (rule command_count_cong) (simp add: clear_lengths_def)
    have main: "length (encode_block W ms' e ?i ?L) \<le> length (encode_block W ?ms e ?i ?L) \<and>
        command_count ms' e ?i \<le> command_count ?ms e ?i"
      if fr: "\<forall>x < ?i + ?l. ms' x = ?ms1 x"
        and sz: "length (encode_block W ms' e (?i + ?l) (?L + ?l)) \<le>
                 length (encode_block W ?ms1 e (?i + ?l) (?L + ?l))"
        and cc: "command_count ms' e (?i + ?l) \<le> command_count ?ms1 e (?i + ?l)" for ms'
    proof -
      have lits: "\<And>x. ?i \<le> x \<Longrightarrow> x < ?i + ?l \<Longrightarrow> \<not> length_m (ms' x) \<ge> MIN_MATCH_SIZE"
        using fr by (simp add: clear_lengths_def MIN_MATCH_SIZE_def)
      have le: "?i \<le> ?i + ?l" "?i + ?l \<le> e" using l by simp_all
      have e1: "encode_block W ms' e ?i ?L = encode_block W ms' e (?i + ?l) (?L + ?l)"
        using encode_block_literals[where ms=ms' and i="?i" and j="?i + ?l" and e=e and W=W and L="?L",
            OF lits le] by simp
      have e2: "command_count ms' e ?i = command_count ms' e (?i + ?l)"
        by (rule command_count_literals[where ms=ms' and i="?i" and j="?i + ?l", OF lits le])
      have "int (length (encode_block W ms' e ?i ?L)) \<le> int (length (encode_block W ?ms e ?i ?L))"
        using sz rs szm by (simp add: e1 c1 encm)
      moreover have "command_count ms' e ?i \<le> command_count ?ms e ?i"
        using cc by (simp add: e2 c2 ccm)
      ultimately show ?thesis by simp
    qed
    have fr0: "\<forall>x < ?i. ?ms1 x = ?ms x" by (simp add: clear_lengths_def)
    show ?thesis unfolding eq using L l main fr0 by simp
  next
    case nred: False
    show ?thesis
    proof (cases "join_test W ?ms e ?i ?l")
      case jt: True
      let ?l2 = "length_m (?ms (?i + ?l))"
      let ?ms1 = "?ms(?i := (?ms ?i)\<lparr>length_m := to_u32 (?l + ?l2)\<rparr>,
               ?i + ?l := \<lparr>length_m = to_u32 (- 1), offset_m = 0\<rparr>)"
      have eq: "st1 = \<lparr>pp_match = ?ms1, pp_i = ?i, pp_nNumLiterals = ?L\<rparr>"
        using True nred jt by (simp add: st1 peephole_step_def Let_def s32)
      note J = join_test_valid[OF r lt True jt i0 rng(2)]
      have l2: "4 \<le> ?l2" "?i + ?l + ?l2 \<le> e - 5"
        using J(1) by (simp_all add: valid_match_def MIN_MATCH_SIZE_def LAST_LITERALS_def)
      have sum: "to_u32 (?l + ?l2) = ?l + ?l2"
        using l l2 J(2) by (simp add: to_u32_id)
      have lt2: "?i + ?l < e" using l by simp
      have m2: "length_m (?ms (?i + ?l)) \<ge> MIN_MATCH_SIZE" using l2 by (simp add: MIN_MATCH_SIZE_def)
      let ?f = "(?ms ?i)\<lparr>length_m := ?l + ?l2\<rparr>"
      let ?k = "?i + ?l + ?l2"
      have at_i: "?ms1 ?i = ?f" using l by (simp add: sum)
      have lf: "length_m ?f = ?l + ?l2" by simp
      have m1: "length_m (?ms1 ?i) \<ge> MIN_MATCH_SIZE"
        using l l2 unfolding at_i lf MIN_MATCH_SIZE_def by linarith
      have k: "?i + length_m (?ms1 ?i) = ?k" unfolding at_i lf by linarith
      have k2: "?i + length_m ?f = ?k" unfolding lf by linarith
      have enc1: "encode_block W ?ms1 e ?i ?L =
          match_command_bytes W ?f ?i ?L @ encode_block W ?ms1 e ?k 0"
        using encode_block_match[where ms="?ms1" and i="?i" and W=W and L="?L", OF lt m1]
        by (simp only: at_i k2)
      have cc1: "command_count ?ms1 e ?i = 1 + command_count ?ms1 e ?k"
        using command_count_match[where ms="?ms1" and i="?i", OF lt m1]
        by (simp only: at_i k2)
      have rest: "encode_block W ?ms1 e ?k 0 = encode_block W ?ms e ?k 0"
        by (rule encode_block_cong) (use l l2 in simp)
      have restc: "command_count ?ms1 e ?k = command_count ?ms e ?k"
        by (rule command_count_cong) (use l l2 in simp)
      have enc2: "encode_block W ?ms e (?i + ?l) 0 =
          match_command_bytes W (?ms (?i + ?l)) (?i + ?l) 0 @ encode_block W ?ms e ?k 0"
        by (rule encode_block_match[where ms="?ms" and i="?i + ?l", OF lt2 m2])
      have cc2: "command_count ?ms e (?i + ?l) = 1 + command_count ?ms e ?k"
        by (rule command_count_match[where ms="?ms" and i="?i + ?l", OF lt2 m2])
      have f4: "4 \<le> length_m ?f" using l l2 by simp
      have sz1: "int (length (match_command_bytes W ?f ?i ?L)) =
         3 + literals_varlen_bytes ?L + ?L + match_varlen_bytes (length_m ?f - MIN_MATCH_SIZE)"
        by (rule size_match_command_bytes[OF L iW f4])
      have z: "(0::int) \<le> 0" "0 \<le> ?i + ?l" "?i + ?l \<le> int (length W)"
        using l i0 lt2 eW by simp_all
      have sz2: "int (length (match_command_bytes W (?ms (?i + ?l)) (?i + ?l) 0)) =
         3 + literals_varlen_bytes 0 + 0 + match_varlen_bytes (?l2 - MIN_MATCH_SIZE)"
        by (rule size_match_command_bytes[OF z l2(1)])
      have l0: "literals_varlen_bytes 0 = 0" by (simp add: literals_varlen_bytes_val)
      have jn: "match_varlen_bytes (length_m ?f - MIN_MATCH_SIZE) \<le>
            match_varlen_bytes (?l - MIN_MATCH_SIZE) + 3 + match_varlen_bytes (?l2 - MIN_MATCH_SIZE)"
      proof -
        have e1: "length_m ?f - MIN_MATCH_SIZE = (?l - 4) + (?l2 - 4) + 4"
          by (simp add: MIN_MATCH_SIZE_def)
        have e2: "?l - MIN_MATCH_SIZE = ?l - 4" "?l2 - MIN_MATCH_SIZE = ?l2 - 4"
          by (simp_all add: MIN_MATCH_SIZE_def)
        have p: "0 \<le> ?l - 4" "0 \<le> ?l2 - 4" using l l2 by simp_all
        show ?thesis unfolding e1 e2 by (rule match_varlen_bytes_join[OF p])
      qed
      have A1: "int (length (encode_block W ?ms1 e ?i ?L)) =
            int (length (match_command_bytes W ?f ?i ?L)) + int (length (encode_block W ?ms e ?k 0))"
        by (simp only: enc1 rest length_append of_nat_add)
      have A2: "int (length (encode_block W ?ms e ?i ?L)) =
            int (length (match_command_bytes W (?ms ?i) ?i ?L)) +
            int (length (match_command_bytes W (?ms (?i + ?l)) (?i + ?l) 0)) +
            int (length (encode_block W ?ms e ?k 0))"
        by (simp only: encm enc2 length_append of_nat_add add.assoc)
      have a: "int (length (encode_block W ?ms1 e ?i ?L)) \<le> int (length (encode_block W ?ms e ?i ?L))"
        unfolding A1 A2 sz1 sz2 szm l0 using jn by linarith
      have b: "command_count ?ms1 e ?i \<le> command_count ?ms e ?i"
        unfolding cc1 restc ccm cc2 by simp
      have fr0: "\<forall>x < ?i. ?ms1 x = ?ms x" using l by simp
      have main: "length (encode_block W ms' e ?i ?L) \<le> length (encode_block W ?ms e ?i ?L) \<and>
          command_count ms' e ?i \<le> command_count ?ms e ?i"
        if sz: "length (encode_block W ms' e ?i ?L) \<le> length (encode_block W ?ms1 e ?i ?L)"
          and cc: "command_count ms' e ?i \<le> command_count ?ms1 e ?i" for ms'
        using sz cc a b by linarith
      show ?thesis unfolding eq using L main fr0 by simp
    next
      case njt: False
      have eq: "st1 = \<lparr>pp_match = ?ms, pp_i = ?i + ?l, pp_nNumLiterals = 0\<rparr>"
        using True nred njt by (simp add: st1 peephole_step_def Let_def s32)
      have main: "length (encode_block W ms' e ?i ?L) \<le> length (encode_block W ?ms e ?i ?L) \<and>
          command_count ms' e ?i \<le> command_count ?ms e ?i"
        if fr: "\<forall>x < ?i + ?l. ms' x = ?ms x"
          and sz: "length (encode_block W ms' e (?i + ?l) 0) \<le>
                   length (encode_block W ?ms e (?i + ?l) 0)"
          and cc: "command_count ms' e (?i + ?l) \<le> command_count ?ms e (?i + ?l)" for ms'
      proof -
        have f: "ms' ?i = ?ms ?i" using fr l by simp
        then have m': "length_m (ms' ?i) \<ge> MIN_MATCH_SIZE" using True by simp
        show ?thesis
          using sz cc encode_block_match[where ms=ms' and i="?i" and W=W and L="?L", OF lt m']
            command_count_match[where ms=ms' and i="?i", OF lt m']
          by (simp add: f encm ccm)
      qed
      show ?thesis unfolding eq using L l main by simp
    qed
  qed
qed


lemma peephole_loop_size:
  assumes "peephole_inv W s e st" "0 \<le> s" "e \<le> 2147483647" "e \<le> int (length W)"
    and "0 \<le> pp_nNumLiterals st" "pp_nNumLiterals st \<le> pp_i st"
  shows "\<exists>st'. peephole_loop W e st = Some st' \<and> peephole_inv W s e st' \<and> pp_i st' = e \<and>
           (\<forall>x < pp_i st. pp_match st' x = pp_match st x) \<and>
           length (encode_block W (pp_match st') e (pp_i st) (pp_nNumLiterals st)) \<le>
             length (encode_block W (pp_match st) e (pp_i st) (pp_nNumLiterals st)) \<and>
           command_count (pp_match st') e (pp_i st) \<le> command_count (pp_match st) e (pp_i st)"
  using assms(1,5,6)
proof (induction "peephole_measure e st" arbitrary: st rule: less_induct)
  case less
  show ?case
  proof (cases "pp_i st < e")
    case True
    define st1 where "st1 = peephole_step W e st"
    from peephole_step_inv[OF less(2) True assms(2,3)]
    have i1: "peephole_inv W s e st1"
      and m1: "peephole_measure e st1 < peephole_measure e st" by (simp_all add: st1_def)
    note S = peephole_step_size[OF less(2) True assms(2,3,4) less(3,4) st1_def]
    have L1: "0 \<le> pp_nNumLiterals st1" "pp_nNumLiterals st1 \<le> pp_i st1" and ii: "pp_i st \<le> pp_i st1"
      and fr1: "\<forall>x < pp_i st. pp_match st1 x = pp_match st x"
      using S by simp_all
    from less(1)[OF m1 i1 L1]
    obtain st' where st': "peephole_loop W e st1 = Some st'" "peephole_inv W s e st'" "pp_i st' = e"
      "\<forall>x < pp_i st1. pp_match st' x = pp_match st1 x"
      "length (encode_block W (pp_match st') e (pp_i st1) (pp_nNumLiterals st1)) \<le>
         length (encode_block W (pp_match st1) e (pp_i st1) (pp_nNumLiterals st1))"
      "command_count (pp_match st') e (pp_i st1) \<le> command_count (pp_match st1) e (pp_i st1)"
      by blast
    have loop: "peephole_loop W e st = Some st'"
      using True st'(1) by (subst peephole_loop.simps) (simp add: st1_def)
    have fr: "\<forall>x < pp_i st. pp_match st' x = pp_match st x"
      using st'(4) fr1 ii by auto
    have "length (encode_block W (pp_match st') e (pp_i st) (pp_nNumLiterals st)) \<le>
             length (encode_block W (pp_match st) e (pp_i st) (pp_nNumLiterals st)) \<and>
           command_count (pp_match st') e (pp_i st) \<le> command_count (pp_match st) e (pp_i st)"
      using S st'(4,5,6) by blast
    then show ?thesis using loop st'(2,3) fr by blast
  next
    case False
    then have "pp_i st = e" using less(2) by (simp add: peephole_inv_def)
    then show ?thesis using less(2) by (subst peephole_loop.simps) simp
  qed
qed

text \<open>The parser's output and its peephole refinement, with what the emitter makes of them.\<close>

lemma optimize_command_count_size:
  assumes "0 \<le> s" "s < e" "e \<le> 2147483647" "e \<le> int (length W)"
    and "valid_candidates W cand s e"
    and "P = ps_match (lz4ultra_optimize_matches_lz4 flags cand cost score s e)"
  shows "\<exists>P'. lz4ultra_optimize_command_count_lz4 P W s e = Some P' \<and>
           walk_valid W P e e s \<and> walk_valid W P' e e s \<and>
           length (encode_block W P' e s 0) \<le> length (encode_block W P e s 0) \<and>
           command_count P' e s \<le> command_count P e s"
proof -
  let ?st = "\<lparr>pp_match = P, pp_i = s, pp_nNumLiterals = 0\<rparr>"
  have inv: "peephole_inv W s e ?st"
    unfolding assms(6) by (rule peephole_inv_initial[OF assms(1,2,3,5) refl])
  have L: "0 \<le> pp_nNumLiterals ?st" "pp_nNumLiterals ?st \<le> pp_i ?st" using assms(1) by simp_all
  from peephole_loop_size[OF inv assms(1,3,4) L]
  obtain st' where st': "peephole_loop W e ?st = Some st'" "peephole_inv W s e st'" "pp_i st' = e"
    "length (encode_block W (pp_match st') e s 0) \<le> length (encode_block W P e s 0)"
    "command_count (pp_match st') e s \<le> command_count P e s"
    by auto
  have w': "walk_valid W (pp_match st') e e s" using st'(2,3) by (simp add: peephole_inv_def)
  have "records_valid_from W P e s" using inv by (simp add: peephole_inv_def)
  then have w: "walk_valid W P e e s" using assms(2) by (intro records_valid_walk) simp_all
  have "lz4ultra_optimize_command_count_lz4 P W s e = Some (pp_match st')"
    using st'(1) by (simp add: lz4ultra_optimize_command_count_lz4_def)
  then show ?thesis using w w' st'(4,5) by blast
qed


text \<open>
  C6: for the parser's output \<open>P\<close> on candidates that are matches of the window, the peephole
  pass returns a refinement \<open>P'\<close>; whenever the emitter can write \<open>P\<close> in \<open>nMaxOutDataSize\<close> bytes it
  can write \<open>P'\<close>, in no more bytes and with no more commands, and the block decompressor gives
  the same bytes for both (with \<open>LZ4ULTRA_FLAG_RAW_BLOCK\<close> clear, and the history of the block in the
  output buffer).
\<close>

theorem C6_peephole_non_expansion:
  assumes "0 \<le> nStartOffset" and "nStartOffset < nEndOffset" and "nEndOffset \<le> 2147483647"
    and "nEndOffset \<le> int (length pInWindow)"
    and "valid_candidates pInWindow cand nStartOffset nEndOffset"
    and "P = ps_match (lz4ultra_optimize_matches_lz4 flags cand cost score nStartOffset nEndOffset)"
    and "flags AND LZ4ULTRA_FLAG_RAW_BLOCK = 0"
    and "nat nStartOffset \<le> nOutDataOffset"
    and "load_bytes pOutData (nOutDataOffset - nat nStartOffset) (nat nStartOffset) =
         take (nat nStartOffset) pInWindow"
    and "nOutDataOffset + nBlockMaxSize \<le> length pOutData"
    and "nat (nEndOffset - nStartOffset) \<le> nBlockMaxSize"
    and "lz4ultra_write_block_lz4 flags num_commands P pInWindow nStartOffset nEndOffset
           nMaxOutDataSize = Some (n, out, c)"
    and "0 \<le> n"
  shows "\<exists>P' n' out' c' buf buf'.
           lz4ultra_optimize_command_count_lz4 P pInWindow nStartOffset nEndOffset = Some P' \<and>
           lz4ultra_write_block_lz4 flags num_commands P' pInWindow nStartOffset nEndOffset
             nMaxOutDataSize = Some (n', out', c') \<and>
           0 \<le> n' \<and> n' \<le> n \<and> c' \<le> c \<and>
           lz4ultra_decompressor_expand_block_lz4 out pOutData nOutDataOffset nBlockMaxSize =
             (nEndOffset - nStartOffset, Some buf) \<and>
           lz4ultra_decompressor_expand_block_lz4 out' pOutData nOutDataOffset nBlockMaxSize =
             (nEndOffset - nStartOffset, Some buf') \<and>
           load_bytes buf nOutDataOffset (nat (nEndOffset - nStartOffset)) =
             load_bytes buf' nOutDataOffset (nat (nEndOffset - nStartOffset))"
proof -
  let ?s = nStartOffset and ?e = nEndOffset and ?W = pInWindow
  from optimize_command_count_size[OF assms(1,2,3,4,5,6)]
  obtain P' where P': "lz4ultra_optimize_command_count_lz4 P ?W ?s ?e = Some P'"
    "walk_valid ?W P ?e ?e ?s" "walk_valid ?W P' ?e ?e ?s"
    "length (encode_block ?W P' ?e ?s 0) \<le> length (encode_block ?W P ?e ?s 0)"
    "command_count P' ?e ?s \<le> command_count P ?e ?s" by blast
  let ?enc = "encode_block ?W P ?e ?s 0" and ?enc' = "encode_block ?W P' ?e ?s 0"
  from write_block_spec[OF P'(2) assms(1,3,4), of flags num_commands nMaxOutDataSize] assms(7,12,13)
  have r: "int (length ?enc) \<le> nMaxOutDataSize" "n = int (length ?enc)" "out = ?enc"
    "c = num_commands + command_count P ?e ?s"
    by (auto simp: Let_def split: if_splits)
  have fits: "int (length ?enc') \<le> nMaxOutDataSize" using r(1) P'(4) by linarith
  from write_block_spec[OF P'(3) assms(1,3,4), of flags num_commands nMaxOutDataSize] assms(7) fits
  have r': "lz4ultra_write_block_lz4 flags num_commands P' ?W ?s ?e nMaxOutDataSize =
        Some (int (length ?enc'), ?enc', num_commands + command_count P' ?e ?s)"
    by (auto simp: Let_def)
  have se: "?s \<le> ?e" using assms(2) by simp
  from expand_block_encode_block[OF P'(2) assms(1) se assms(4,8,9,10,11)]
  obtain buf where b: "lz4ultra_decompressor_expand_block_lz4 ?enc pOutData nOutDataOffset nBlockMaxSize =
        (?e - ?s, Some buf)" "load_bytes buf nOutDataOffset (nat (?e - ?s)) = window_bytes ?W ?s (?e - ?s)"
    by blast
  from expand_block_encode_block[OF P'(3) assms(1) se assms(4,8,9,10,11)]
  obtain buf' where b': "lz4ultra_decompressor_expand_block_lz4 ?enc' pOutData nOutDataOffset nBlockMaxSize =
        (?e - ?s, Some buf')" "load_bytes buf' nOutDataOffset (nat (?e - ?s)) = window_bytes ?W ?s (?e - ?s)"
    by blast
  have le: "0 \<le> int (length ?enc')" "int (length ?enc') \<le> n"
    "num_commands + command_count P' ?e ?s \<le> c"
    using P'(4,5) r(2,4) by simp_all
  have "lz4ultra_optimize_command_count_lz4 P ?W ?s ?e = Some P' \<and>
        lz4ultra_write_block_lz4 flags num_commands P' ?W ?s ?e nMaxOutDataSize =
          Some (int (length ?enc'), ?enc', num_commands + command_count P' ?e ?s) \<and>
        0 \<le> int (length ?enc') \<and> int (length ?enc') \<le> n \<and>
        num_commands + command_count P' ?e ?s \<le> c \<and>
        lz4ultra_decompressor_expand_block_lz4 out pOutData nOutDataOffset nBlockMaxSize =
          (?e - ?s, Some buf) \<and>
        lz4ultra_decompressor_expand_block_lz4 ?enc' pOutData nOutDataOffset nBlockMaxSize =
          (?e - ?s, Some buf') \<and>
        load_bytes buf nOutDataOffset (nat (?e - ?s)) = load_bytes buf' nOutDataOffset (nat (?e - ?s))"
    using P'(1) r' le b b' r(3) by simp
  then show ?thesis by blast
qed

lemma c6_candidates_valid: "valid_candidates c6_window c6_match 0 40"
  by (auto simp: valid_candidates_def c6_match_def no_matches_def valid_match_def window_eq_def
      c6_window_def MIN_MATCH_SIZE_def MIN_OFFSET_def MAX_OFFSET_def LAST_LITERALS_def)

theorem C6_peephole_non_expansion_witness:
  "\<exists>P' n' out' c' buf buf'.
     lz4ultra_optimize_command_count_lz4
       (ps_match (lz4ultra_optimize_matches_lz4 1 c6_match zero_array zero_array 0 40))
       c6_window 0 40 = Some P' \<and>
     lz4ultra_write_block_lz4 1 0 P' c6_window 0 40 64 = Some (n', out', c') \<and>
     0 \<le> n' \<and> n' \<le> 42 \<and> c' \<le> 2 \<and>
     lz4ultra_decompressor_expand_block_lz4
       [240, 0, 1, 2, 3, 4, 5, 6, 7, 8, 9, 10, 11, 12, 13, 14, 15, 15, 0, 240,
        6, 20, 21, 22, 23, 24, 25, 26, 27, 28, 29, 30, 31, 32, 33, 34, 35, 36,
        37, 38, 39, 40] (replicate 64 0) 0 64 = (40 - 0, Some buf) \<and>
     lz4ultra_decompressor_expand_block_lz4 out' (replicate 64 0) 0 64 = (40 - 0, Some buf') \<and>
     load_bytes buf 0 (nat (40 - 0)) = load_bytes buf' 0 (nat (40 - 0))"
proof -
  have w: "lz4ultra_write_block_lz4 1 0
      (ps_match (lz4ultra_optimize_matches_lz4 1 c6_match zero_array zero_array 0 40))
      c6_window 0 40 64 =
    Some (42, [240, 0, 1, 2, 3, 4, 5, 6, 7, 8, 9, 10, 11, 12, 13, 14, 15, 15, 0, 240,
        6, 20, 21, 22, 23, 24, 25, 26, 27, 28, 29, 30, 31, 32, 33, 34, 35, 36,
        37, 38, 39, 40], 2)"
    by code_simp
  have h: "(0::int) \<le> 0" "(0::int) < 40" "(40::int) \<le> 2147483647" "40 \<le> int (length c6_window)"
    "(1::int) AND LZ4ULTRA_FLAG_RAW_BLOCK = 0" "nat 0 \<le> (0::nat)"
    "load_bytes (replicate 64 (0::byte)) (0 - nat 0) (nat 0) = take (nat 0) c6_window"
    "0 + 64 \<le> length (replicate 64 (0::byte))" "nat (40 - 0) \<le> (64::nat)" "(0::int) \<le> 42"
    by (simp_all add: c6_window_def LZ4ULTRA_FLAG_RAW_BLOCK_def load_bytes_def)
  show ?thesis
    by (rule C6_peephole_non_expansion[OF h(1,2,3,4) c6_candidates_valid refl h(5,6,7,8,9) w h(10)])
qed

section \<open>The intervals of an index\<close>

lemma chain_hd: "hd (chain n iv r) = r"
  by (cases n) auto

lemma chain_nonempty: "chain n iv r \<noteq> []"
  by (cases n) auto

lemma anc_refl: "anc iv r r"
  by (simp add: anc_def)

lemma anc_step: "anc iv r t \<Longrightarrow> t \<noteq> 0 \<Longrightarrow> anc iv r (iv (t AND POS_MASK))"
  unfolding anc_def by (rule rtranclp.rtrancl_into_rtrancl) (simp_all add: par_def)

lemma anc_trans: "anc iv a b \<Longrightarrow> anc iv b c \<Longrightarrow> anc iv a c"
  unfolding anc_def by (rule rtranclp_trans)

lemma anc_zero: "anc iv 0 t \<Longrightarrow> t = 0"
  unfolding anc_def by (erule converse_rtranclpE) (simp_all add: par_def)

lemma anc_cases: "anc iv r t \<Longrightarrow> t = r \<or> (r \<noteq> 0 \<and> anc iv (iv (r AND POS_MASK)) t)"
  unfolding anc_def by (erule converse_rtranclpE) (auto simp: par_def)

lemma anc_linear: "anc iv r a \<Longrightarrow> anc iv r b \<Longrightarrow> anc iv a b \<or> anc iv b a"
  unfolding anc_def
proof (induction rule: converse_rtranclp_induct)
  case base
  then show ?case by simp
next
  case (step y z)
  from step(4) show ?case
  proof (rule converse_rtranclpE)
    assume "y = b"
    then have "(par iv)\<^sup>*\<^sup>* b a" using step(1,2) by (simp add: converse_rtranclp_into_rtranclp)
    then show ?thesis by simp
  next
    fix w assume w: "par iv y w" "(par iv)\<^sup>*\<^sup>* w b"
    then have "w = z" using step(1) by (simp add: par_def)
    then show ?thesis using step(3) w(2) by simp
  qed
qed

lemma chain_anc: "t \<in> set (chain n iv r) \<Longrightarrow> anc iv r t"
proof (induction n arbitrary: r)
  case 0
  then show ?case by (simp add: anc_refl)
next
  case (Suc n)
  show ?case
  proof (cases "r = 0")
    case True
    then show ?thesis using Suc(2) by (simp add: anc_refl)
  next
    case False
    then have "t = r \<or> t \<in> set (chain n iv (iv (r AND POS_MASK)))" using Suc(2) by simp
    then show ?thesis
    proof
      assume "t = r" then show ?thesis by (simp add: anc_refl)
    next
      assume "t \<in> set (chain n iv (iv (r AND POS_MASK)))"
      then have "anc iv (iv (r AND POS_MASK)) t" by (rule Suc(1))
      moreover have "anc iv r (iv (r AND POS_MASK))" using False anc_step[OF anc_refl] by simp
      ultimately show ?thesis using anc_trans by blast
    qed
  qed
qed

lemma anc_chain: "last (chain n iv r) = 0 \<Longrightarrow> anc iv r t \<Longrightarrow> t \<in> set (chain n iv r)"
proof (induction n arbitrary: r)
  case 0
  then have "r = 0" by simp
  then show ?case using 0(2) anc_zero by auto
next
  case (Suc n)
  show ?case
  proof (cases "r = 0")
    case True
    then show ?thesis using Suc(3) anc_zero by auto
  next
    case False
    have l: "last (chain n iv (iv (r AND POS_MASK))) = 0"
      using Suc(2) False by (simp add: chain_nonempty)
    from anc_cases[OF Suc(3)] show ?thesis
    proof
      assume "t = r" then show ?thesis using False by simp
    next
      assume "r \<noteq> 0 \<and> anc iv (iv (r AND POS_MASK)) t"
      then have "t \<in> set (chain n iv (iv (r AND POS_MASK)))" using Suc(1)[OF l] by simp
      then show ?thesis using False by simp
    qed
  qed
qed


lemma in_interval_chain:
  assumes "index_ok W n ix" "0 \<le> q" "q < n"
  shows "in_interval ix q r \<longleftrightarrow> r \<in> set (index_chain ix n q)"
proof -
  have l: "last (chain (nat n) (intervals ix) (pos_data ix q)) = 0"
    using assms by (simp add: index_ok_def index_chain_def)
  show ?thesis
    unfolding in_interval_def index_chain_def using chain_anc anc_chain[OF l] by blast
qed

lemma index_ok_interval:
  assumes "index_ok W n ix" "0 \<le> q" "q < n" "in_interval ix q r" "r \<noteq> 0"
  shows "0 < r" "r < 274877906944" "r AND LCP_MASK \<noteq> 0" "r AND POS_MASK \<noteq> 0"
    "0 \<le> intervals ix (r AND POS_MASK)" "intervals ix (r AND POS_MASK) < r"
    "in_interval ix q (intervals ix (r AND POS_MASK))"
proof -
  have m: "r \<in> set (index_chain ix n q)" using assms by (simp add: in_interval_chain)
  have q: "q \<in> {0 ..< n}" using assms by simp
  have "\<forall>r \<in> set (index_chain ix n q). r \<noteq> 0 \<longrightarrow>
            r < 274877906944 \<and> r AND LCP_MASK \<noteq> 0 \<and> r AND POS_MASK \<noteq> 0 \<and>
            0 \<le> intervals ix (r AND POS_MASK) \<and> intervals ix (r AND POS_MASK) < r"
    using assms(1) q unfolding index_ok_def by blast
  then have a: "r < 274877906944 \<and> r AND LCP_MASK \<noteq> 0 \<and> r AND POS_MASK \<noteq> 0 \<and>
            0 \<le> intervals ix (r AND POS_MASK) \<and> intervals ix (r AND POS_MASK) < r"
    using m assms(5) by blast
  then show "0 < r" "r < 274877906944" "r AND LCP_MASK \<noteq> 0" "r AND POS_MASK \<noteq> 0"
    "0 \<le> intervals ix (r AND POS_MASK)" "intervals ix (r AND POS_MASK) < r" by auto
  show "in_interval ix q (intervals ix (r AND POS_MASK))"
    using assms(4,5) unfolding in_interval_def by (rule anc_step)
qed

lemma index_ok_unique:
  assumes "index_ok W n ix" "0 \<le> q1" "q1 < n" "0 \<le> q2" "q2 < n"
    and "in_interval ix q1 r1" "in_interval ix q2 r2" "r1 AND POS_MASK = r2 AND POS_MASK"
  shows "r1 = r2"
proof -
  have m: "r1 \<in> set (index_chain ix n q1)" "r2 \<in> set (index_chain ix n q2)"
    using assms by (simp_all add: in_interval_chain)
  have q: "q1 \<in> {0 ..< n}" "q2 \<in> {0 ..< n}" using assms by simp_all
  have "\<forall>q1 \<in> {0 ..< n}. \<forall>q2 \<in> {0 ..< n}.
         \<forall>r1 \<in> set (index_chain ix n q1). \<forall>r2 \<in> set (index_chain ix n q2).
           (r1 AND POS_MASK = r2 AND POS_MASK \<longrightarrow> r1 = r2) \<and>
           (r1 = r2 \<and> r1 \<noteq> 0 \<longrightarrow> window_eq W q1 q2 (drop_bit LCP_SHIFT r1))"
    using assms(1) unfolding index_ok_def by blast
  then show ?thesis using m q assms(8) by blast
qed

lemma index_ok_window:
  assumes "index_ok W n ix" "0 \<le> q1" "q1 < n" "0 \<le> q2" "q2 < n"
    and "in_interval ix q1 r" "in_interval ix q2 r" "r \<noteq> 0"
  shows "window_eq W q1 q2 (drop_bit LCP_SHIFT r)"
proof -
  have m: "r \<in> set (index_chain ix n q1)" "r \<in> set (index_chain ix n q2)"
    using assms by (simp_all add: in_interval_chain)
  have q: "q1 \<in> {0 ..< n}" "q2 \<in> {0 ..< n}" using assms by simp_all
  have "\<forall>q1 \<in> {0 ..< n}. \<forall>q2 \<in> {0 ..< n}.
         \<forall>r1 \<in> set (index_chain ix n q1). \<forall>r2 \<in> set (index_chain ix n q2).
           (r1 AND POS_MASK = r2 AND POS_MASK \<longrightarrow> r1 = r2) \<and>
           (r1 = r2 \<and> r1 \<noteq> 0 \<longrightarrow> window_eq W q1 q2 (drop_bit LCP_SHIFT r1))"
    using assms(1) unfolding index_ok_def by blast
  then show ?thesis using m q assms(8) by blast
qed

text \<open>Upwards the words get smaller.\<close>

lemma anc_le:
  assumes ok: "index_ok W n ix" and q: "0 \<le> q" "q < n"
  shows "anc (intervals ix) a b \<Longrightarrow> in_interval ix q a \<Longrightarrow> b \<le> a \<and> (b \<noteq> a \<longrightarrow> b < a) \<and> in_interval ix q b"
  unfolding anc_def
proof (induction rule: rtranclp_induct)
  case base
  then show ?case by simp
next
  case (step y z)
  have y: "y \<le> a" "in_interval ix q y" using step by simp_all
  have z: "y \<noteq> 0" "z = intervals ix (y AND POS_MASK)" using step(2) by (simp_all add: par_def)
  have "z < y" using index_ok_interval(6)[OF ok q y(2) z(1)] z(2) by simp
  moreover have "in_interval ix q z" using index_ok_interval(7)[OF ok q y(2) z(1)] z(2) by simp
  ultimately show ?case using y by simp
qed

lemma in_interval_nonneg:
  assumes "index_ok W n ix" "0 \<le> q" "q < n" "in_interval ix q r"
  shows "0 \<le> r"
  using index_ok_interval(1)[OF assms] by (cases "r = 0") simp_all

text \<open>Of two intervals of one position the smaller word is the outer interval.\<close>

lemma in_interval_lower:
  assumes ok: "index_ok W n ix" and q: "0 \<le> q" "q < n"
    and a: "in_interval ix q a" and b: "in_interval ix q b" and le: "b \<le> a"
  shows "anc (intervals ix) a b"
proof -
  from anc_linear[OF a[unfolded in_interval_def] b[unfolded in_interval_def]]
  show ?thesis
  proof
    assume "anc (intervals ix) a b" then show ?thesis .
  next
    assume ba: "anc (intervals ix) b a"
    from anc_le[OF ok q ba b] le have "a = b" by auto
    then show ?thesis by (simp add: anc_refl)
  qed
qed

lemma in_interval_up:
  assumes ok: "index_ok W n ix" and q: "0 \<le> q1" "q1 < n" "0 \<le> q2" "q2 < n"
    and a1: "in_interval ix q1 a" and a2: "in_interval ix q2 a"
    and b: "in_interval ix q1 b" and le: "b \<le> a"
  shows "in_interval ix q2 b"
proof -
  have "anc (intervals ix) a b" by (rule in_interval_lower[OF ok q(1,2) a1 b le])
  then show ?thesis using a2 unfolding in_interval_def by (rule anc_trans[rotated])
qed

lemma in_interval_self:
  "in_interval ix q (pos_data ix q)"
  by (simp add: in_interval_def anc_refl)

section \<open>Packed words\<close>

lemma pos_no_lcp: "0 \<le> v \<Longrightarrow> v < 16777216 \<Longrightarrow> v AND LCP_MASK = 0"
proof -
  assume v: "0 \<le> v" "v < 16777216"
  have "v AND LCP_MASK = take_bit 24 v AND LCP_MASK"
    using v by (simp add: take_bit_int_eq_self)
  also have "\<dots> = 0"
  proof (rule bit_eqI)
    fix k :: nat
    have "\<not> (bit (take_bit 24 v) k \<and> bit (push_bit 24 (LCP_MAX :: int)) k)"
      by (simp only: bit_take_bit_iff bit_push_bit_iff) auto
    then show "bit (take_bit 24 v AND LCP_MASK) k = bit (0::int) k"
      by (simp add: bit_and_iff LCP_MASK_def LCP_SHIFT_def LCP_BITS_def)
  qed
  finally show ?thesis .
qed

lemma ref_lcp_u32: "0 \<le> r \<Longrightarrow> r < 274877906944 \<Longrightarrow> to_u32 (drop_bit LCP_SHIFT r) = drop_bit LCP_SHIFT r"
proof -
  assume r: "0 \<le> r" "r < 274877906944"
  have "drop_bit LCP_SHIFT r = r div 16777216"
    by (simp add: LCP_SHIFT_def LCP_BITS_def drop_bit_eq_div)
  moreover have "0 \<le> r div 16777216" "r div 16777216 < 16384" using r by simp_all
  ultimately show ?thesis by (simp add: to_u32_def)
qed

lemma ref_lcp_pos: "0 \<le> r \<Longrightarrow> r AND LCP_MASK \<noteq> 0 \<Longrightarrow> 0 < drop_bit LCP_SHIFT r"
proof -
  assume r: "0 \<le> r" "r AND LCP_MASK \<noteq> 0"
  have "16777216 \<le> r"
  proof (rule ccontr)
    assume "\<not> 16777216 \<le> r"
    then have "r AND LCP_MASK = 0" using r(1) by (intro pos_no_lcp) simp_all
    then show False using r(2) by simp
  qed
  then have "1 \<le> r div 16777216" by simp
  then show ?thesis by (simp add: LCP_SHIFT_def LCP_BITS_def drop_bit_eq_div)
qed

section \<open>One query of the match finder\<close>

lemma finder_inv_interval:
  assumes "finder_inv n ix st p" "0 \<le> q" "q < n" "in_interval ix q r" "r \<noteq> 0"
  shows "intervals st (r AND POS_MASK) = intervals ix (r AND POS_MASK) \<or>
         (0 \<le> intervals st (r AND POS_MASK) \<and> intervals st (r AND POS_MASK) < p \<and>
          in_interval ix (intervals st (r AND POS_MASK)) r)"
  using assms unfolding finder_inv_def by blast

lemma finder_inv_visited:
  assumes "finder_inv n ix st p" "0 \<le> q" "q < p" "pos_data st q \<noteq> 0"
  shows "in_interval ix q (pos_data st q)"
    "q < intervals st (pos_data st q AND POS_MASK)"
    "intervals st (pos_data st q AND POS_MASK) < p"
    "in_interval ix (intervals st (pos_data st q AND POS_MASK)) (pos_data st q)"
  using assms unfolding finder_inv_def by blast+

lemma finder_inv_unvisited:
  assumes "finder_inv n ix st p" "p \<le> q" "q < n"
  shows "pos_data st q = pos_data ix q"
  using assms unfolding finder_inv_def by blast

lemma finder_inv_root: "finder_inv n ix st p \<Longrightarrow> intervals st 0 = 0"
  unfolding finder_inv_def by blast

text \<open>The slot of the interval at which the query stands is still as the query found it.\<close>

lemma iv_touched_level:
  assumes ok: "index_ok W n ix" and p: "0 \<le> p" "p < n"
    and t: "iv_touched ix st0 p ref m iv" and r: "in_interval ix p ref"
  shows "iv (ref AND POS_MASK) = intervals st0 (ref AND POS_MASK)"
proof (rule ccontr)
  assume ne: "iv (ref AND POS_MASK) \<noteq> intervals st0 (ref AND POS_MASK)"
  from t[unfolded iv_touched_def, rule_format, of "ref AND POS_MASK"] ne
  obtain r where r': "in_interval ix p r" "ref < r" "r AND POS_MASK = ref AND POS_MASK" by blast
  from index_ok_unique[OF ok p p r'(1) r r'(3)] r'(2) show False by simp
qed

lemma iv_touched_mono:
  "iv_touched ix st0 p ref m iv \<Longrightarrow> ref' \<le> ref \<Longrightarrow> m \<le> m' \<Longrightarrow> iv_touched ix st0 p ref' m' iv"
  unfolding iv_touched_def
  by (metis (no_types, opaque_lifting) less_le_trans order_le_less_trans order_less_le_trans)

lemma ascend_unvisited_spec:
  assumes ok: "index_ok W n ix" and inv: "finder_inv n ix st0 p" and p: "0 \<le> p" "p < n"
  shows "in_interval ix p ref \<Longrightarrow> iv_touched ix st0 p ref 0 iv \<Longrightarrow>
    \<exists>iv' ref' sr. ascend_unvisited p iv ref = Some (iv', ref', sr) \<and>
       in_interval ix p ref' \<and> iv_touched ix st0 p ref' 0 iv' \<and>
       sr = intervals st0 (ref' AND POS_MASK) \<and> iv' (ref' AND POS_MASK) = sr \<and>
       sr AND LCP_MASK = 0"
proof (induction "nat ref" arbitrary: ref iv rule: less_induct)
  case less
  note r = less(2) and t = less(3)
  let ?sr = "iv (ref AND POS_MASK)"
  have lvl: "?sr = intervals st0 (ref AND POS_MASK)" by (rule iv_touched_level[OF ok p t r])
  have r0: "0 \<le> ref" by (rule in_interval_nonneg[OF ok p r])
  have n24: "n \<le> 16777216" using ok by (simp add: index_ok_def)
  show ?case
  proof (cases "?sr AND LCP_MASK \<noteq> 0")
    case False
    then have "ascend_unvisited p iv ref = Some (iv, ref, ?sr)"
      by (subst ascend_unvisited.simps) (simp add: Let_def)
    then show ?thesis using r t lvl False by auto
  next
    case True
    have ne: "ref \<noteq> 0"
    proof
      assume "ref = 0"
      then have "?sr = 0" using lvl finder_inv_root[OF inv] by simp
      then show False using True by simp
    qed
    have par: "?sr = intervals ix (ref AND POS_MASK)"
    proof -
      from finder_inv_interval[OF inv p r ne]
      show ?thesis
      proof
        assume "intervals st0 (ref AND POS_MASK) = intervals ix (ref AND POS_MASK)"
        then show ?thesis using lvl by simp
      next
        assume v: "0 \<le> intervals st0 (ref AND POS_MASK) \<and> intervals st0 (ref AND POS_MASK) < p \<and>
          in_interval ix (intervals st0 (ref AND POS_MASK)) ref"
        then have "intervals st0 (ref AND POS_MASK) AND LCP_MASK = 0"
          using p n24 by (intro pos_no_lcp) simp_all
        then show ?thesis using True lvl by simp
      qed
    qed
    note I = index_ok_interval[OF ok p r ne]
    have sr_lt: "?sr < ref" "0 \<le> ?sr" and sr_in: "in_interval ix p ?sr"
      using I(5,6,7) par by simp_all
    have t': "iv_touched ix st0 p ?sr 0 (iv(ref AND POS_MASK := p))"
      unfolding iv_touched_def
    proof
      fix x
      show "(iv(ref AND POS_MASK := p)) x = intervals st0 x \<or>
          ((iv(ref AND POS_MASK := p)) x = p \<and>
           (intervals st0 x AND LCP_MASK \<noteq> 0 \<or> intervals st0 x < 0) \<and>
           (\<exists>r. in_interval ix p r \<and> ?sr < r \<and> r AND POS_MASK = x))"
      proof (cases "x = ref AND POS_MASK")
        case True
        then show ?thesis using \<open>?sr AND LCP_MASK \<noteq> 0\<close> lvl r sr_lt(1) by auto
      next
        case False
        from t[unfolded iv_touched_def, rule_format, of x]
        show ?thesis using False sr_lt(1) by (auto intro: less_trans)
      qed
    qed
    have "nat ?sr < nat ref" using sr_lt r0 by simp
    from less(1)[OF this sr_in t']
    obtain iv' ref' sr where res: "ascend_unvisited p (iv(ref AND POS_MASK := p)) ?sr = Some (iv', ref', sr)"
      "in_interval ix p ref'" "iv_touched ix st0 p ref' 0 iv'"
      "sr = intervals st0 (ref' AND POS_MASK)" "iv' (ref' AND POS_MASK) = sr" "sr AND LCP_MASK = 0"
      by blast
    have "ascend_unvisited p iv ref = Some (iv', ref', sr)"
      using True res(1) by (subst ascend_unvisited.simps) (simp add: Let_def)
    then show ?thesis using res by blast
  qed
qed


lemma follow_links_spec:
  assumes ok: "index_ok W n ix" and inv: "finder_inv n ix st0 p" and p: "0 \<le> p" "p < n"
    and r: "in_interval ix p ref" "ref \<noteq> 0"
    and ti: "iv_touched ix st0 p ref ml iv" and tp: "pd_touched ix st0 p ref ml iv pd"
  shows "ml \<le> m \<Longrightarrow> 1 \<le> m \<Longrightarrow> m < p \<Longrightarrow> in_interval ix m ref \<Longrightarrow>
    \<exists>m' sr. follow_links iv pd ref m = Some (m', sr) \<and> m \<le> m' \<and> m' < p \<and>
       in_interval ix m' ref \<and> sr = pos_data st0 m' \<and> pd m' = sr \<and> sr \<le> ref"
proof (induction "nat (p - m)" arbitrary: m rule: less_induct)
  case less
  note ml = less(2) and m1 = less(3) and mp = less(4) and mr = less(5)
  have n24: "n \<le> 16777216" using ok by (simp add: index_ok_def)
  have mn: "0 \<le> m" "m < n" using m1 mp p by simp_all
  have r0: "0 < ref" using index_ok_interval(1)[OF ok p r] .
  have pdm: "pd m = pos_data st0 m"
    using tp[unfolded pd_touched_def] ml mp by (metis less_irrefl not_le order_less_le_trans)
  show ?case
  proof (cases "pd m > ref")
    case False
    then have "follow_links iv pd ref m = Some (m, pd m)"
      by (subst follow_links.simps) (simp add: Let_def)
    then show ?thesis using False mp mr pdm by auto
  next
    case True
    let ?sr = "pd m"
    have sr0: "pos_data st0 m \<noteq> 0" using True r0 pdm by simp
    note V = finder_inv_visited[OF inv mn(1) mp sr0]
    let ?v = "intervals st0 (?sr AND POS_MASK)"
    have v: "in_interval ix m ?sr" "m < ?v" "?v < p" "in_interval ix ?v ?sr"
      using V pdm by simp_all
    have vn: "0 \<le> ?v" "?v < n" using v(2,3) m1 p by simp_all
    have ivv: "iv (?sr AND POS_MASK) = ?v"
    proof (rule ccontr)
      assume ne: "iv (?sr AND POS_MASK) \<noteq> ?v"
      from ti[unfolded iv_touched_def, rule_format, of "?sr AND POS_MASK"] ne
      have c: "?v AND LCP_MASK \<noteq> 0 \<or> ?v < ml" by blast
      have "?v AND LCP_MASK = 0" using vn n24 by (intro pos_no_lcp) simp_all
      then show False using c v(2) ml by simp
    qed
    have vr: "in_interval ix ?v ref"
      by (rule in_interval_up[OF ok mn vn v(1) v(4) mr]) (use True in simp)
    have "nat (p - ?v) < nat (p - m)" using v(2,3) by simp
    from less(1)[OF this _ _ v(3) vr]
    obtain m' sr where res: "follow_links iv pd ref ?v = Some (m', sr)" "?v \<le> m'" "m' < p"
      "in_interval ix m' ref" "sr = pos_data st0 m'" "pd m' = sr" "sr \<le> ref"
      using ml v(2) m1 by force
    have "follow_links iv pd ref m = Some (m', sr)"
      using True res(1) ivv by (subst follow_links.simps) (simp add: Let_def)
    then show ?thesis using res v(2) by auto
  qed
qed

text \<open>What one iteration of the ascent stores is a match of the window.\<close>

lemma store_found_ok:
  assumes ok: "index_ok W n ix" and p: "0 \<le> p" "p < n"
    and r: "in_interval ix p ref" "ref \<noteq> 0"
    and m: "1 \<le> m" "m < p" "in_interval ix m ref"
    and acc: "\<forall>mt \<in> set acc. found_ok W p mt" "int (length acc) \<le> max 0 nMax"
  shows "(\<forall>mt \<in> set (store_found p nMax ref m acc). found_ok W p mt) \<and>
         int (length (store_found p nMax ref m acc)) \<le> max 0 nMax"
proof -
  have n24: "n \<le> 16777216" using ok by (simp add: index_ok_def)
  note I = index_ok_interval[OF ok p r]
  have mn: "0 \<le> m" "m < n" using m p by simp_all
  have off: "to_s32 (p - m) = p - m" using m p n24 by (intro to_s32_id) simp_all
  have offu: "to_u32 (p - m) = p - m" using m p n24 by (intro to_u32_id) simp_all
  have len: "to_u32 (drop_bit LCP_SHIFT ref) = drop_bit LCP_SHIFT ref"
    using I(1,2) by (intro ref_lcp_u32) simp_all
  have pos: "0 < drop_bit LCP_SHIFT ref" using I(1,3) by (intro ref_lcp_pos) simp_all
  have w: "window_eq W p m (drop_bit LCP_SHIFT ref)"
    by (rule index_ok_window[OF ok p mn r(1) m(3) r(2)])
  have "found_ok W p \<lparr>length_m = to_u32 (drop_bit LCP_SHIFT ref), offset_m = to_u32 (to_s32 (p - m))\<rparr>"
    if "to_s32 (p - m) \<le> MAX_OFFSET"
    using that m pos w by (simp add: found_ok_def off offu len)
  then show ?thesis using acc by (auto simp: store_found_def Let_def)
qed

lemma ascend_matches_spec:
  assumes ok: "index_ok W n ix" and inv: "finder_inv n ix st0 p" and p: "0 \<le> p" "p < n"
  shows "in_interval ix p ref \<Longrightarrow> ref \<noteq> 0 \<Longrightarrow> 1 \<le> m \<Longrightarrow> m < p \<Longrightarrow> in_interval ix m ref \<Longrightarrow>
    iv_touched ix st0 p ref m (intervals st) \<Longrightarrow>
    pd_touched ix st0 p ref m (intervals st) (pos_data st) \<Longrightarrow>
    intervals st0 (ref AND POS_MASK) \<le> m \<Longrightarrow>
    \<forall>mt \<in> set acc. found_ok W p mt \<Longrightarrow> int (length acc) \<le> max 0 nMax \<Longrightarrow>
    \<exists>st' found. ascend_matches p nMax st ref m acc = Some (st', found) \<and>
       query_post ix st0 p st' \<and> (\<forall>mt \<in> set found. found_ok W p mt) \<and>
       int (length found) \<le> max 0 nMax"
proof (induction "nat ref" arbitrary: ref m st acc rule: less_induct)
  case less
  note r = less(2,3) and m = less(4,5,6) and ti = less(7) and tp = less(8) and lvl = less(9)
    and acc = less(10,11)
  have n24: "n \<le> 16777216" using ok by (simp add: index_ok_def)
  note I = index_ok_interval[OF ok p r]
  from follow_links_spec[OF ok inv p r ti tp order_refl m]
  obtain m' sr where F: "follow_links (intervals st) (pos_data st) ref m = Some (m', sr)"
    "m \<le> m'" "m' < p" "in_interval ix m' ref" "sr = pos_data st0 m'" "pos_data st m' = sr" "sr \<le> ref"
    by blast
  have m'n: "0 \<le> m'" "m' < n" "1 \<le> m'" using F(2,3) m(1) p by simp_all
  let ?st' = "\<lparr>intervals = (intervals st)(ref AND POS_MASK := p),
                pos_data = (pos_data st)(m' := ref)\<rparr>"
  let ?acc' = "store_found p nMax ref m' acc"
  from store_found_ok[OF ok p r m'n(3) F(3,4) acc]
  have acc': "\<forall>mt \<in> set ?acc'. found_ok W p mt" "int (length ?acc') \<le> max 0 nMax" by simp_all
  have step: "ascend_matches p nMax st ref m acc =
      (if sr = 0 then Some (?st', ?acc')
       else ascend_matches p nMax ?st' sr (intervals ?st' (sr AND POS_MASK)) ?acc')"
    by (subst ascend_matches.simps) (simp add: F(1) Let_def)
  have ref_in: "\<exists>r. in_interval ix p r \<and> r \<noteq> 0 \<and> r AND POS_MASK = ref AND POS_MASK"
    using r by blast
  show ?case
  proof (cases "sr = 0")
    case True
    have post: "query_post ix st0 p ?st'"
      unfolding query_post_def
    proof (intro conjI allI impI)
      fix x
      show "intervals ?st' x = intervals st0 x \<or>
           (intervals ?st' x = p \<and> (\<exists>r. in_interval ix p r \<and> r \<noteq> 0 \<and> r AND POS_MASK = x))"
      proof (cases "x = ref AND POS_MASK")
        case True
        then show ?thesis using r by auto
      next
        case False
        from ti[unfolded iv_touched_def, rule_format, of x] I(1)
        show ?thesis using False by auto
      qed
    next
      show "pos_data ?st' p = 0" using tp F(3) by (simp add: pd_touched_def)
    next
      fix q assume qp: "q \<noteq> p"
      show "pos_data ?st' q = pos_data st0 q \<or>
          (0 \<le> q \<and> q < p \<and> pos_data ?st' q \<noteq> 0 \<and> in_interval ix p (pos_data ?st' q) \<and>
           in_interval ix q (pos_data ?st' q) \<and> intervals ?st' (pos_data ?st' q AND POS_MASK) = p)"
      proof (cases "q = m'")
        case True
        then show ?thesis using r F(3,4) m'n by simp
      next
        case False
        from tp[unfolded pd_touched_def] qp
        have "pos_data st q = pos_data st0 q \<or>
          (0 \<le> q \<and> q < m \<and> in_interval ix p (pos_data st q) \<and> in_interval ix q (pos_data st q) \<and>
           ref < pos_data st q \<and> intervals st (pos_data st q AND POS_MASK) = p)" by blast
        then show ?thesis
        proof
          assume "pos_data st q = pos_data st0 q"
          then show ?thesis using False by simp
        next
          assume a: "0 \<le> q \<and> q < m \<and> in_interval ix p (pos_data st q) \<and> in_interval ix q (pos_data st q) \<and>
           ref < pos_data st q \<and> intervals st (pos_data st q AND POS_MASK) = p"
          then have "pos_data st q \<noteq> 0" using I(1) by auto
          then show ?thesis using a False m(2) by auto
        qed
      qed
    qed
    show ?thesis using step True post acc' by auto
  next
    case False
    have sr0: "pos_data st0 m' \<noteq> 0" using False F(5) by simp
    note V = finder_inv_visited[OF inv m'n(1) F(3) sr0]
    let ?v = "intervals st0 (sr AND POS_MASK)"
    have v: "in_interval ix m' sr" "m' < ?v" "?v < p" "in_interval ix ?v sr"
      using V F(5) by simp_all
    have ne: "sr \<noteq> ref"
    proof
      assume "sr = ref"
      then have "m' < intervals st0 (ref AND POS_MASK)" using v(2) by simp
      then show False using lvl F(2) by simp
    qed
    then have lt: "sr < ref" using F(7) by simp
    have srp: "in_interval ix p sr"
      by (rule in_interval_up[OF ok m'n(1,2) p F(4) r(1) v(1) F(7)])
    note Is = index_ok_interval[OF ok p srp False]
    have idx_ne: "sr AND POS_MASK \<noteq> ref AND POS_MASK"
      using index_ok_unique[OF ok p p srp r(1)] ne by blast
    have ivsr: "intervals st (sr AND POS_MASK) = ?v"
      by (rule iv_touched_level[OF ok p iv_touched_mono[OF ti F(7) order_refl] srp])
    have next_m: "intervals ?st' (sr AND POS_MASK) = ?v" using idx_ne ivsr by simp
    have vn: "1 \<le> ?v" using v(2) m'n by simp
    have ti': "iv_touched ix st0 p sr ?v (intervals ?st')"
      unfolding iv_touched_def
    proof
      fix x
      show "intervals ?st' x = intervals st0 x \<or>
          (intervals ?st' x = p \<and> (intervals st0 x AND LCP_MASK \<noteq> 0 \<or> intervals st0 x < ?v) \<and>
           (\<exists>r. in_interval ix p r \<and> sr < r \<and> r AND POS_MASK = x))"
      proof (cases "x = ref AND POS_MASK")
        case True
        have "intervals st0 x < ?v" using True lvl F(2) v(2) by simp
        then show ?thesis using True r(1) lt by auto
      next
        case False
        from ti[unfolded iv_touched_def, rule_format, of x]
        show ?thesis using False lt F(2) v(2) by (auto intro: less_trans)
      qed
    qed
    have tp': "pd_touched ix st0 p sr ?v (intervals ?st') (pos_data ?st')"
      unfolding pd_touched_def
    proof (intro conjI allI impI)
      show "pos_data ?st' p = 0" using tp F(3) by (simp add: pd_touched_def)
    next
      fix q assume qp: "q \<noteq> p"
      show "pos_data ?st' q = pos_data st0 q \<or>
          (0 \<le> q \<and> q < ?v \<and> in_interval ix p (pos_data ?st' q) \<and> in_interval ix q (pos_data ?st' q) \<and>
           sr < pos_data ?st' q \<and> intervals ?st' (pos_data ?st' q AND POS_MASK) = p)"
      proof (cases "q = m'")
        case True
        then show ?thesis using r(1) F(4) m'n v(2) lt by simp
      next
        case False
        from tp[unfolded pd_touched_def] qp
        have "pos_data st q = pos_data st0 q \<or>
          (0 \<le> q \<and> q < m \<and> in_interval ix p (pos_data st q) \<and> in_interval ix q (pos_data st q) \<and>
           ref < pos_data st q \<and> intervals st (pos_data st q AND POS_MASK) = p)" by blast
        then show ?thesis
        proof
          assume "pos_data st q = pos_data st0 q"
          then show ?thesis using False by simp
        next
          assume a: "0 \<le> q \<and> q < m \<and> in_interval ix p (pos_data st q) \<and> in_interval ix q (pos_data st q) \<and>
           ref < pos_data st q \<and> intervals st (pos_data st q AND POS_MASK) = p"
          then show ?thesis using False F(2) v(2) lt by auto
        qed
      qed
    qed
    have lvl': "intervals st0 (sr AND POS_MASK) \<le> ?v" by simp
    have vsr: "in_interval ix ?v sr" by (rule v(4))
    have "nat sr < nat ref" using lt Is(1) by simp
    from less(1)[OF this srp False vn v(3) vsr ti' tp' lvl' acc']
    obtain st'' found where res: "ascend_matches p nMax ?st' sr ?v ?acc' = Some (st'', found)"
      "query_post ix st0 p st''" "\<forall>mt \<in> set found. found_ok W p mt"
      "int (length found) \<le> max 0 nMax"
      by blast
    show ?thesis using step False next_m res by auto
  qed
qed


text \<open>The invariant holds again after the query.\<close>

lemma query_post_inv:
  assumes ok: "index_ok W n ix" and inv: "finder_inv n ix st0 p" and p: "0 \<le> p" "p < n"
    and post: "query_post ix st0 p st"
  shows "finder_inv n ix st (p + 1)"
proof -
  have iv: "\<And>x. intervals st x = intervals st0 x \<or>
           (intervals st x = p \<and> (\<exists>r. in_interval ix p r \<and> r \<noteq> 0 \<and> r AND POS_MASK = x))"
    and pdp: "pos_data st p = 0"
    and pd: "\<And>q. q \<noteq> p \<Longrightarrow> pos_data st q = pos_data st0 q \<or>
          (0 \<le> q \<and> q < p \<and> pos_data st q \<noteq> 0 \<and> in_interval ix p (pos_data st q) \<and>
           in_interval ix q (pos_data st q) \<and> intervals st (pos_data st q AND POS_MASK) = p)"
    using post unfolding query_post_def by blast+
  have visited: "intervals st (r AND POS_MASK) = intervals st0 (r AND POS_MASK) \<or>
      (intervals st (r AND POS_MASK) = p \<and> in_interval ix p r)"
    if "0 \<le> q" "q < n" "in_interval ix q r" for q r
  proof -
    from iv[of "r AND POS_MASK"] show ?thesis
    proof
      assume "intervals st (r AND POS_MASK) = intervals st0 (r AND POS_MASK)"
      then show ?thesis by simp
    next
      assume "intervals st (r AND POS_MASK) = p \<and>
        (\<exists>r'. in_interval ix p r' \<and> r' \<noteq> 0 \<and> r' AND POS_MASK = r AND POS_MASK)"
      then obtain r' where r': "intervals st (r AND POS_MASK) = p" "in_interval ix p r'"
        "r' AND POS_MASK = r AND POS_MASK" by blast
      from index_ok_unique[OF ok p that(1,2) r'(2) that(3) r'(3)] r'(1,2) show ?thesis by simp
    qed
  qed
  show ?thesis
    unfolding finder_inv_def
  proof (intro conjI allI impI)
    show "intervals st 0 = 0"
    proof -
      from iv[of 0] show ?thesis
      proof
        assume "intervals st 0 = intervals st0 0"
        then show ?thesis using finder_inv_root[OF inv] by simp
      next
        assume "intervals st 0 = p \<and> (\<exists>r. in_interval ix p r \<and> r \<noteq> 0 \<and> r AND POS_MASK = 0)"
        then obtain r where "in_interval ix p r" "r \<noteq> 0" "r AND POS_MASK = 0" by blast
        then show ?thesis using index_ok_interval(4)[OF ok p] by blast
      qed
    qed
  next
    fix q r assume a: "0 \<le> q \<and> q < n \<and> in_interval ix q r \<and> r \<noteq> 0"
    then have q: "0 \<le> q" "q < n" "in_interval ix q r" "r \<noteq> 0" by simp_all
    from visited[OF q(1,2,3)]
    show "intervals st (r AND POS_MASK) = intervals ix (r AND POS_MASK) \<or>
         (0 \<le> intervals st (r AND POS_MASK) \<and> intervals st (r AND POS_MASK) < p + 1 \<and>
          in_interval ix (intervals st (r AND POS_MASK)) r)"
    proof
      assume e: "intervals st (r AND POS_MASK) = intervals st0 (r AND POS_MASK)"
      from finder_inv_interval[OF inv q] show ?thesis unfolding e by auto
    next
      assume "intervals st (r AND POS_MASK) = p \<and> in_interval ix p r"
      then show ?thesis using p by simp
    qed
  next
    fix q assume a: "p + 1 \<le> q \<and> q < n"
    then have "q \<noteq> p" by simp
    from pd[OF this] a have "pos_data st q = pos_data st0 q" by auto
    then show "pos_data st q = pos_data ix q" using finder_inv_unvisited[OF inv, of q] a by simp
  next
    fix q assume a: "0 \<le> q \<and> q < p + 1"
    show "pos_data st q = 0 \<or>
         (in_interval ix q (pos_data st q) \<and>
          q < intervals st (pos_data st q AND POS_MASK) \<and>
          intervals st (pos_data st q AND POS_MASK) < p + 1 \<and>
          in_interval ix (intervals st (pos_data st q AND POS_MASK)) (pos_data st q))"
    proof (cases "q = p")
      case True
      then show ?thesis using pdp by simp
    next
      case False
      then have q: "0 \<le> q" "q < p" "q < n" using a p by simp_all
      from pd[OF False] show ?thesis
      proof
        assume e: "pos_data st q = pos_data st0 q"
        show ?thesis
        proof (cases "pos_data st0 q = 0")
          case True
          then show ?thesis using e by simp
        next
          case nz: False
          note V = finder_inv_visited[OF inv q(1,2) nz]
          from visited[OF q(1,3) V(1)] show ?thesis
          proof
            assume "intervals st (pos_data st0 q AND POS_MASK) = intervals st0 (pos_data st0 q AND POS_MASK)"
            then show ?thesis using V e by simp
          next
            assume "intervals st (pos_data st0 q AND POS_MASK) = p \<and> in_interval ix p (pos_data st0 q)"
            then show ?thesis using V(1) e q(2) by simp
          qed
        qed
      next
        assume "0 \<le> q \<and> q < p \<and> pos_data st q \<noteq> 0 \<and> in_interval ix p (pos_data st q) \<and>
           in_interval ix q (pos_data st q) \<and> intervals st (pos_data st q AND POS_MASK) = p"
        then show ?thesis by simp
      qed
    qed
  qed
qed

text \<open>
  A query returns, keeps the invariant, and reports matches of the window only, none of them
  with the position 0 as its source.
\<close>

lemma find_matches_at_spec:
  assumes ok: "index_ok W n ix" and inv: "finder_inv n ix st0 p" and p: "0 \<le> p" "p < n"
  shows "\<exists>st' found. lz4ultra_find_matches_at st0 p nMax = Some (st', found) \<and>
           finder_inv n ix st' (p + 1) \<and> (\<forall>mt \<in> set found. found_ok W p mt) \<and>
           int (length found) \<le> max 0 nMax"
proof -
  have n24: "n \<le> 16777216" using ok by (simp add: index_ok_def)
  let ?ref0 = "pos_data st0 p"
  let ?pd = "(pos_data st0)(p := 0)"
  have ref0: "in_interval ix p ?ref0"
    using finder_inv_unvisited[OF inv order_refl p(2)] by (simp add: in_interval_self)
  have t0: "iv_touched ix st0 p ?ref0 0 (intervals st0)" by (simp add: iv_touched_def)
  from ascend_unvisited_spec[OF ok inv p ref0 t0]
  obtain iv ref sr where A: "ascend_unvisited p (intervals st0) ?ref0 = Some (iv, ref, sr)"
    "in_interval ix p ref" "iv_touched ix st0 p ref 0 iv"
    "sr = intervals st0 (ref AND POS_MASK)" "iv (ref AND POS_MASK) = sr" "sr AND LCP_MASK = 0"
    by blast
  have r0: "0 \<le> ref" by (rule in_interval_nonneg[OF ok p A(2)])
  show ?thesis
  proof (cases "sr = 0")
    case True
    let ?st' = "\<lparr>intervals = (if ref \<noteq> 0 then iv(ref AND POS_MASK := p) else iv), pos_data = ?pd\<rparr>"
    have res: "lz4ultra_find_matches_at st0 p nMax = Some (?st', [])"
      using A(1) True by (simp add: lz4ultra_find_matches_at_def Let_def)
    have post: "query_post ix st0 p ?st'"
      unfolding query_post_def
    proof (intro conjI allI impI)
      fix x
      show "intervals ?st' x = intervals st0 x \<or>
           (intervals ?st' x = p \<and> (\<exists>r. in_interval ix p r \<and> r \<noteq> 0 \<and> r AND POS_MASK = x))"
      proof (cases "ref \<noteq> 0 \<and> x = ref AND POS_MASK")
        case True
        then show ?thesis using A(2) by auto
      next
        case False
        then have e: "intervals ?st' x = iv x" by auto
        from A(3)[unfolded iv_touched_def, rule_format, of x] r0
        show ?thesis unfolding e by auto
      qed
    next
      show "pos_data ?st' p = 0" by simp
    next
      fix q assume "q \<noteq> p"
      then show "pos_data ?st' q = pos_data st0 q \<or>
          (0 \<le> q \<and> q < p \<and> pos_data ?st' q \<noteq> 0 \<and> in_interval ix p (pos_data ?st' q) \<and>
           in_interval ix q (pos_data ?st' q) \<and> intervals ?st' (pos_data ?st' q AND POS_MASK) = p)"
        by simp
    qed
    from query_post_inv[OF ok inv p post] res show ?thesis by simp
  next
    case False
    have ne: "ref \<noteq> 0"
    proof
      assume "ref = 0"
      then show False using A(4) False finder_inv_root[OF inv] by simp
    qed
    have v: "0 \<le> sr \<and> sr < p \<and> in_interval ix sr ref"
    proof -
      from finder_inv_interval[OF inv p A(2) ne] show ?thesis
      proof
        assume e: "intervals st0 (ref AND POS_MASK) = intervals ix (ref AND POS_MASK)"
        note I = index_ok_interval[OF ok p A(2) ne]
        have "in_interval ix p sr" using I(7) e A(4) by simp
        from index_ok_interval(3)[OF ok p this False] A(6) show ?thesis by simp
      next
        assume "0 \<le> intervals st0 (ref AND POS_MASK) \<and> intervals st0 (ref AND POS_MASK) < p \<and>
          in_interval ix (intervals st0 (ref AND POS_MASK)) ref"
        then show ?thesis using A(4) by simp
      qed
    qed
    then have m: "1 \<le> sr" "sr < p" "in_interval ix sr ref" using False by simp_all
    let ?st = "\<lparr>intervals = iv, pos_data = ?pd\<rparr>"
    have ti: "iv_touched ix st0 p ref sr (intervals ?st)"
      using iv_touched_mono[OF A(3) order_refl, of sr] m(1) by simp
    have tp: "pd_touched ix st0 p ref sr (intervals ?st) (pos_data ?st)"
      by (simp add: pd_touched_def)
    have lvl: "intervals st0 (ref AND POS_MASK) \<le> sr" using A(4) by simp
    have acc: "\<forall>mt \<in> set []. found_ok W p mt" "int (length ([] :: lz4ultra_match list)) \<le> max 0 nMax"
      by simp_all
    from ascend_matches_spec[OF ok inv p A(2) ne m ti tp lvl acc]
    obtain st' found where B: "ascend_matches p nMax ?st ref sr [] = Some (st', found)"
      "query_post ix st0 p st'" "\<forall>mt \<in> set found. found_ok W p mt"
      "int (length found) \<le> max 0 nMax"
      by blast
    have res: "lz4ultra_find_matches_at st0 p nMax = Some (st', found)"
      using A(1) False B(1) by (simp add: lz4ultra_find_matches_at_def Let_def)
    from query_post_inv[OF ok inv p B(2)] res B(3,4) show ?thesis by blast
  qed
qed

text \<open>The index as the builder leaves it satisfies the invariant before the first query.\<close>

lemma finder_inv_initial: "index_ok W n ix \<Longrightarrow> finder_inv n ix ix 0"
  unfolding finder_inv_def by (auto simp: index_ok_def)

section \<open>The candidates that the finder leaves\<close>

lemma skip_matches_spec:
  assumes ok: "index_ok W n ix"
  shows "finder_inv n ix st i \<Longrightarrow> 0 \<le> i \<Longrightarrow> i \<le> e \<Longrightarrow> e \<le> n \<Longrightarrow>
         \<exists>st'. lz4ultra_skip_matches st i e = Some st' \<and> finder_inv n ix st' e"
proof (induction "nat (e - i)" arbitrary: st i rule: less_induct)
  case less
  show ?case
  proof (cases "i < e")
    case False
    then have "i = e" using less(4) by simp
    then show ?thesis using less(2) by (subst lz4ultra_skip_matches.simps) simp
  next
    case True
    then have i: "0 \<le> i" "i < n" using less(3,5) by simp_all
    from find_matches_at_spec[OF ok less(2) i, of 0]
    obtain st1 found where q: "lz4ultra_find_matches_at st i 0 = Some (st1, found)"
      "finder_inv n ix st1 (i + 1)" by blast
    have "nat (e - (i + 1)) < nat (e - i)" using True by simp
    from less(1)[OF this q(2) _ _ less(5)] True less(3)
    obtain st' where "lz4ultra_skip_matches st1 (i + 1) e = Some st'" "finder_inv n ix st' e"
      by auto
    then show ?thesis using True q(1) by (subst lz4ultra_skip_matches.simps) simp
  qed
qed







lemma window_eq_shorter: "window_eq W a b l \<Longrightarrow> l' \<le> l \<Longrightarrow> window_eq W a b l'"
proof -
  assume w: "window_eq W a b l" and l: "l' \<le> l"
  have "take (nat l') (drop (nat a) W) = take (nat l') (take (nat l) (drop (nat a) W))"
    using l by (simp add: min_def)
  also have "\<dots> = take (nat l') (take (nat l) (drop (nat b) W))"
    using w by (simp add: window_eq_def)
  also have "\<dots> = take (nat l') (drop (nat b) W)" using l by (simp add: min_def)
  finally show ?thesis by (simp add: window_eq_def)
qed






lemma c10_index_ok: "index_ok c10_window 20 c10_index"
  by code_simp



text \<open>
  C10: on the index of a window, after the queries at the positions before \<open>p\<close>, the query at \<open>p\<close>
  returns, and every match it reports has an offset from 1 to \<open>p - 1\<close>: its source is never the
  position 0. So when the \<open>l\<close> bytes at \<open>p\<close> occur before \<open>p\<close> at the position 0 only, every match
  reported at \<open>p\<close> is shorter than \<open>l\<close>.
\<close>

theorem C10_no_match_at_position_zero:
  assumes "index_ok W n ix" and "0 \<le> p" and "p < n"
  shows "\<exists>st st' found.
           lz4ultra_skip_matches ix 0 p = Some st \<and>
           lz4ultra_find_matches_at st p nMaxMatches = Some (st', found) \<and>
           (\<forall>m \<in> set found.
              1 \<le> offset_m m \<and> offset_m m < p \<and> p - offset_m m \<noteq> 0 \<and>
              window_eq W p (p - offset_m m) (length_m m)) \<and>
           (\<forall>l. (\<forall>q. 1 \<le> q \<and> q < p \<longrightarrow> \<not> window_eq W p q l) \<longrightarrow>
                (\<forall>m \<in> set found. length_m m < l))"
proof -
  have inv0: "finder_inv n ix ix 0" by (rule finder_inv_initial[OF assms(1)])
  have pn: "p \<le> n" using assms(3) by simp
  from skip_matches_spec[OF assms(1) inv0 order_refl assms(2) pn]
  obtain st where st: "lz4ultra_skip_matches ix 0 p = Some st" "finder_inv n ix st p" by blast
  from find_matches_at_spec[OF assms(1) st(2) assms(2,3), of nMaxMatches]
  obtain st' found where f: "lz4ultra_find_matches_at st p nMaxMatches = Some (st', found)"
    "\<forall>mt \<in> set found. found_ok W p mt" by blast
  have a: "\<forall>m \<in> set found.
              1 \<le> offset_m m \<and> offset_m m < p \<and> p - offset_m m \<noteq> 0 \<and>
              window_eq W p (p - offset_m m) (length_m m)"
    using f(2) by (auto simp: found_ok_def)
  have b: "\<forall>l. (\<forall>q. 1 \<le> q \<and> q < p \<longrightarrow> \<not> window_eq W p q l) \<longrightarrow>
                (\<forall>m \<in> set found. length_m m < l)"
  proof (intro allI impI ballI)
    fix l m assume no: "\<forall>q. 1 \<le> q \<and> q < p \<longrightarrow> \<not> window_eq W p q l" and m: "m \<in> set found"
    show "length_m m < l"
    proof (rule ccontr)
      assume "\<not> length_m m < l"
      then have "l \<le> length_m m" by simp
      moreover have "window_eq W p (p - offset_m m) (length_m m)" using a m by blast
      ultimately have "window_eq W p (p - offset_m m) l" by (rule window_eq_shorter[rotated])
      moreover have "1 \<le> p - offset_m m \<and> p - offset_m m < p" using a m by force
      ultimately show False using no by blast
    qed
  qed
  show ?thesis using st(1) f(1) a b by blast
qed

theorem C10_no_match_at_position_zero_witness:
  "window_eq c10_window 4 0 8 \<and>
   (\<exists>st st' found.
           lz4ultra_skip_matches c10_index 0 4 = Some st \<and>
           lz4ultra_find_matches_at st 4 8 = Some (st', found) \<and>
           (\<forall>m \<in> set found. length_m m < 4))"
proof -
  have w: "window_eq c10_window 4 0 8" by (simp add: window_eq_def c10_window_def)
  have h: "(0::int) \<le> 4" "(4::int) < 20" by simp_all
  have no: "\<forall>q. 1 \<le> q \<and> q < 4 \<longrightarrow> \<not> window_eq c10_window 4 q 4"
  proof (intro allI impI)
    fix q :: int assume "1 \<le> q \<and> q < 4"
    then have "q = 1 \<or> q = 2 \<or> q = 3" by arith
    then show "\<not> window_eq c10_window 4 q 4"
      by (auto simp: window_eq_def c10_window_def)
  qed
  from C10_no_match_at_position_zero[OF c10_index_ok h, of 8] no w show ?thesis by blast
qed

(*THMS-END*)

end
